(* ===== verification/Prelude.thy ===== *)
theory Prelude
  imports Main
begin

text \<open>
  Shared vocabulary of the development: prefixes of lists (the way one replicated log is
  compared with another), majorities of a set of peers, and the result type of code that may
  panic. A Go function that can panic returns a value of type \<open>'p + 'a\<close>, with \<open>Inl\<close>
  for the panic; the code that runs after it is the \<open>Inr\<close> branch of a case distinction.
\<close>

section \<open>Collections of facts\<close>

named_theorems log_simps \<open>equations that evaluate the log operations on a well-formed log\<close>
named_theorems frame_simps \<open>fields an operation leaves unchanged\<close>

section \<open>Lists and prefixes\<close>

lemma take_Suc_eq_mono:
  "take (Suc k) xs = take (Suc k) ys \<Longrightarrow> j \<le> k \<Longrightarrow> take (Suc j) xs = take (Suc j) ys"
  by (metis Suc_le_mono min.absorb1 take_take)

lemma take_Suc_eq_nth:
  "take (Suc k) xs = take (Suc k) ys \<Longrightarrow> j \<le> k \<Longrightarrow> xs ! j = ys ! j"
  by (metis le_imp_less_Suc nth_take)

lemma take_Suc_eq_length:
  "take (Suc k) xs = take (Suc k) ys \<Longrightarrow> k < length ys \<Longrightarrow> k < length xs"
proof (rule ccontr)
  assume eq: "take (Suc k) xs = take (Suc k) ys" and k: "k < length ys" and n: "\<not> k < length xs"
  have "length (take (Suc k) xs) = length (take (Suc k) ys)" by (simp only: eq)
  with k n show False by simp
qed

lemma take_Suc_eqI:
  assumes "take k xs = take k ys" "k < length xs" "k < length ys" "xs ! k = ys ! k"
  shows "take (Suc k) xs = take (Suc k) ys"
  using assms by (simp add: take_Suc_conv_app_nth)

lemma take_eq_of_take_Suc_eq:
  "take (Suc k) xs = take (Suc k) ys \<Longrightarrow> take k xs = take k ys"
  by (metis le_SucI min.absorb1 order_refl take_take)

lemma take_append_le: "n \<le> length xs \<Longrightarrow> take n (xs @ ys) = take n xs"
  by simp

lemma take_Suc_append: "k < length xs \<Longrightarrow> take (Suc k) (xs @ ys) = take (Suc k) xs"
  by simp

lemma take_Suc_take: "k \<le> q \<Longrightarrow> take (Suc k) (take (Suc q) xs) = take (Suc k) xs"
  by (simp add: min_def)

lemma sorted_map_nth_mono:
  "sorted (map f xs) \<Longrightarrow> i \<le> j \<Longrightarrow> j < length xs \<Longrightarrow> f (xs ! i) \<le> f (xs ! j)"
  using sorted_nth_mono [of "map f xs" i j] by simp

lemma remdups_snoc: "remdups (xs @ [x]) = remdups (filter (\<lambda>y. y \<noteq> x) xs) @ [x]"
  by (induction xs) auto

lemma nth_last: "xs \<noteq> [] \<Longrightarrow> xs ! (length xs - Suc 0) = last xs"
  by (simp add: last_conv_nth)

section \<open>Loops that may fail\<close>

fun foldE :: "('x \<Rightarrow> 's \<Rightarrow> 'e + 's) \<Rightarrow> 'x list \<Rightarrow> 's \<Rightarrow> 'e + 's" where
  "foldE f [] s = Inr s"
| "foldE f (x # xs) s = (case f x s of Inl e \<Rightarrow> Inl e | Inr s \<Rightarrow> foldE f xs s)"

lemma foldE_invariant:
  "foldE f xs s = Inr s' \<Longrightarrow> I s \<Longrightarrow> (\<And>x s s'. x \<in> set xs \<Longrightarrow> I s \<Longrightarrow> f x s = Inr s' \<Longrightarrow> I s') \<Longrightarrow> I s'"
proof (induction xs arbitrary: s)
  case (Cons x xs)
  then obtain s1 where "f x s = Inr s1" "foldE f xs s1 = Inr s'" by (auto split: sum.splits)
  with Cons show ?case by (metis list.set_intros)
qed simp

section \<open>Majorities\<close>

text \<open>
  What the protocol needs of a quorum is that two of them share a peer. The interface is a
  locale; the majorities the code counts are an instance of it.
\<close>

locale quorum_system =
  fixes quorum :: "nat set \<Rightarrow> bool"
  assumes quorum_meet: "quorum Q \<Longrightarrow> quorum Q' \<Longrightarrow> \<exists>v. v \<in> Q \<and> v \<in> Q'"
begin

lemma quorum_unique:
  assumes "quorum Q" "quorum Q'" "\<And>v. v \<in> Q \<Longrightarrow> f v = Some x" "\<And>v. v \<in> Q' \<Longrightarrow> f v = Some y"
  shows "x = y"
  using quorum_meet [OF assms(1,2)] assms(3,4) by force

lemma quorum_not_empty: "quorum Q \<Longrightarrow> Q \<noteq> {}"
  using quorum_meet by blast

end

definition is_quorum :: "nat \<Rightarrow> nat set \<Rightarrow> bool" where
  "is_quorum n Q \<longleftrightarrow> Q \<subseteq> {..<n} \<and> n div 2 + 1 \<le> card Q"

lemma is_quorum_meet:
  assumes "is_quorum n Q" "is_quorum n Q'"
  shows "\<exists>v. v \<in> Q \<and> v \<in> Q'"
proof (rule ccontr)
  assume "\<not> ?thesis"
  then have disj: "Q \<inter> Q' = {}" by blast
  from assms have fin: "finite Q" "finite Q'"
    by (auto simp: is_quorum_def intro: finite_subset)
  have "card (Q \<union> Q') \<le> n"
    using assms card_mono [of "{..<n}" "Q \<union> Q'"] by (auto simp: is_quorum_def)
  moreover have "card (Q \<union> Q') = card Q + card Q'"
    by (rule card_Un_disjoint [OF fin disj])
  ultimately show False using assms by (auto simp: is_quorum_def)
qed

lemma is_quorum_all: "0 < n \<Longrightarrow> is_quorum n {..<n}"
  by (simp add: is_quorum_def)

interpretation majority: quorum_system "is_quorum n"
  by unfold_locales (rule is_quorum_meet)

section \<open>Stores\<close>

text \<open>
  A store that maps keys to values: what a read finds after a write. A client that makes a sequence
  of writes finds the last value written for each key.
\<close>

locale keyed_store =
  fixes get :: "'s \<Rightarrow> 'k \<Rightarrow> 'v option" and put :: "'k \<Rightarrow> 'v \<Rightarrow> 's \<Rightarrow> 's"
  assumes get_put: "get (put k v s) k' = (if k' = k then Some v else get s k')"
begin

lemma get_puts:
  "get (fold (\<lambda>(k, v). put k v) kvs s) k = (case map_of (rev kvs) k of None \<Rightarrow> get s k | Some v \<Rightarrow> Some v)"
proof (induction kvs arbitrary: s)
  case (Cons e kvs)
  then show ?case by (cases e) (auto simp: get_put map_add_def split: option.splits)
qed simp

lemma get_puts_distinct:
  assumes "distinct (map fst kvs)"
  shows "get (fold (\<lambda>(k, v). put k v) kvs s) k = (case map_of kvs k of None \<Rightarrow> get s k | Some v \<Rightarrow> Some v)"
proof -
  have "map_of (rev kvs) = map_of kvs" using assms by (intro map_of_eqI) (auto simp: map_of_is_SomeI rev_map [symmetric])
  then show ?thesis by (simp add: get_puts)
qed

end

end
