(* ===== verification/Raft_Data.thy ===== *)
theory Raft_Data
  imports Prelude
begin

text \<open>
  The data of the Raft library (\<open>src/mit/src/raft/raft.go\<close>): message types, roles, log
  entries and the arguments and replies of the two RPCs. Go's \<open>int\<close> is \<open>nat\<close> where
  the code only ever stores a natural number (terms, log indices, peer numbers), an option
  where it uses the sentinel \<open>None\<close> (-1), and \<open>int\<close> where -1 is an ordinary value of
  the field (the two conflict fields of a reply, \<open>matchIndex\<close>, the results of
  \<open>Start\<close>). A command is of an arbitrary type \<open>'c\<close>; the nil interface value of the
  first entry is the empty option.
\<close>

datatype MessageType = MsgVote | MsgApp | MsgVoteResp | MsgAppResp | MsgStart | MsgState

datatype RaftState = StateFollower | StateCandidate | StateLeader

fun convertStateToString :: "RaftState \<Rightarrow> string" where
  "convertStateToString StateFollower = ''follower''"
| "convertStateToString StateCandidate = ''candidate''"
| "convertStateToString StateLeader = ''leader''"

record 'c Log =
  lTerm :: nat
  lCommand :: "'c option"
  lIndex :: nat

record 'c ApplyMsg =
  amIndex :: nat
  amCommand :: "'c option"

record RequestVoteArgs =
  rvTerm :: nat
  rvCandidateId :: nat
  rvLastLogIndex :: nat
  rvLastLogTerm :: nat

record RequestVoteReply =
  rvrTerm :: nat
  rvrVoteGranted :: bool

record 'c AppendEntiesArgs =
  aeTerm :: nat
  aeLeaderId :: nat
  aeLeaderCommit :: nat
  aePrevLogIndex :: nat
  aePrevLogTerm :: nat
  aeEntries :: "'c Log list"

record AppendEntiesReply =
  aerTerm :: nat
  aerSuccess :: bool
  aerNextIndex :: nat
  aerFollowerCommitIndex :: nat
  aerConflictTerm :: int
  aerConflictIndex :: int

text \<open>
  A \<open>Message\<close> carries its arguments and its reply as interface values that the handlers
  cast according to the message type; here the type, the arguments and the reply are one
  datatype. A request is created with the zero value of its reply.
\<close>

datatype 'c Body =
    VoteB RequestVoteArgs RequestVoteReply
  | AppB "'c AppendEntiesArgs" AppendEntiesReply
  | VoteRespB RequestVoteArgs RequestVoteReply
  | AppRespB "'c AppendEntiesArgs" AppendEntiesReply

record 'c Message =
  mFrom :: nat
  mTo :: nat
  mTerm :: nat
  mBody :: "'c Body"

fun bodyType :: "'c Body \<Rightarrow> MessageType" where
  "bodyType (VoteB _ _) = MsgVote"
| "bodyType (AppB _ _) = MsgApp"
| "bodyType (VoteRespB _ _) = MsgVoteResp"
| "bodyType (AppRespB _ _) = MsgAppResp"

definition zeroVoteReply :: RequestVoteReply where
  "zeroVoteReply = \<lparr>rvrTerm = 0, rvrVoteGranted = False\<rparr>"

definition zeroAppReply :: AppendEntiesReply where
  "zeroAppReply = \<lparr>aerTerm = 0, aerSuccess = False, aerNextIndex = 0,
     aerFollowerCommitIndex = 0, aerConflictTerm = 0, aerConflictIndex = 0\<rparr>"

text \<open>The entry every log starts with: \<open>reset\<close> creates the log as this one entry.\<close>

definition sentinel :: "'c Log" where
  "sentinel = \<lparr>lTerm = 1, lCommand = None, lIndex = 0\<rparr>"

text \<open>
  A well-formed log is not empty, starts with the sentinel, and the entry at position \<open>i\<close>
  has index \<open>i\<close> (what \<open>checkLog\<close> asserts at run time).
\<close>

definition wf_log :: "'c Log list \<Rightarrow> bool" where
  "wf_log L \<longleftrightarrow> L \<noteq> [] \<and> L ! 0 = sentinel \<and> (\<forall>i < length L. lIndex (L ! i) = i)"

lemma sentinel_simps [simp]: "lTerm sentinel = 1" "lIndex sentinel = 0" "lCommand sentinel = None"
  by (simp_all add: sentinel_def)

lemma wf_log_init [simp, intro]: "wf_log [sentinel]"
  by (simp add: wf_log_def)

lemma wf_log_not_Nil: "wf_log L \<Longrightarrow> L \<noteq> []"
  by (simp add: wf_log_def)

lemma wf_log_length: "wf_log L \<Longrightarrow> 0 < length L"
  by (simp add: wf_log_def)

lemma wf_log_nth: "wf_log L \<Longrightarrow> i < length L \<Longrightarrow> lIndex (L ! i) = i"
  by (simp add: wf_log_def)

lemma wf_log_last: "wf_log L \<Longrightarrow> lIndex (last L) = length L - 1"
  by (simp add: wf_log_def last_conv_nth)

lemma wf_log_snoc: "wf_log L \<Longrightarrow> lIndex e = length L \<Longrightarrow> wf_log (L @ [e])"
  by (auto simp: wf_log_def nth_append less_Suc_eq)

lemma wf_log_take: "wf_log L \<Longrightarrow> wf_log (take (Suc q) L)"
  by (auto simp: wf_log_def)

text \<open>
  The up-to-date order of section 5.4.1 of the Raft paper, on whole logs: a later last term
  wins, and among equal last terms the longer log.
\<close>

definition up_to_date :: "'c Log list \<Rightarrow> 'c Log list \<Rightarrow> bool" where
  "up_to_date L K \<longleftrightarrow> lTerm (last K) < lTerm (last L) \<or>
     lTerm (last K) = lTerm (last L) \<and> length K \<le> length L"

lemma up_to_date_refl [simp]: "up_to_date L L"
  by (simp add: up_to_date_def)

end
