(* ===== verification/Raft_Spec.thy ===== *)
theory Raft_Spec
  imports Raft_Data
begin

text \<open>
  The abstract protocol that a cluster of Raft peers implements, and its safety. A state holds
  what each peer knows (term, vote, log, commit index, role) and the history of the run: who
  voted for whom and with which log, who led each term and with which log, which log prefixes
  were acknowledged, and which were committed. The rules of the step relation are the moves of
  section 5 of the Raft paper without any message, timer or index bookkeeping; the code of
  \<open>raft.go\<close> is shown to implement them in the theories that import this one.

  The protocol is parametric in the quorum system; all it uses of it is the interface
  \<open>quorum_system\<close>.
\<close>

section \<open>States and steps\<close>

record 'c abs =
  aterm :: "nat \<Rightarrow> nat"
  avote :: "nat \<Rightarrow> nat option"
  alog :: "nat \<Rightarrow> 'c Log list"
  acommit :: "nat \<Rightarrow> nat"
  arole :: "nat \<Rightarrow> RaftState"
  votedH :: "(nat \<times> nat \<times> nat) set"
  clog :: "nat \<Rightarrow> nat \<Rightarrow> 'c Log list option"
  vlog :: "nat \<Rightarrow> nat \<Rightarrow> 'c Log list option"
  leadH :: "nat \<Rightarrow> nat option"
  llog :: "nat \<Rightarrow> 'c Log list option"
  ackH :: "(nat \<times> nat \<times> nat) set"
  commitH :: "(nat \<times> nat) set"

text \<open>
  \<open>votedH\<close> holds \<open>(t, v, c)\<close> when \<open>v\<close> voted for \<open>c\<close> in term \<open>t\<close>;
  \<open>clog t c\<close> is the log of candidate \<open>c\<close> of term \<open>t\<close>, \<open>vlog t v\<close> the log
  of \<open>v\<close> when it voted in \<open>t\<close>; \<open>leadH t\<close> is the leader of \<open>t\<close> and
  \<open>llog t\<close> the log it has as leader (it only grows); \<open>ackH\<close> holds \<open>(t, v, k)\<close>
  when \<open>v\<close> acknowledged in term \<open>t\<close> that its log agrees with the leader's up to
  \<open>k\<close>; \<open>commitH\<close> holds \<open>(t, k)\<close> when the leader of \<open>t\<close> committed
  \<open>k\<close>. Term 1 has no leader: its log is the sentinel, acknowledged by everyone.
\<close>

definition ainit :: "'c abs" where
  "ainit = \<lparr>aterm = (\<lambda>_. 1), avote = (\<lambda>_. None), alog = (\<lambda>_. [sentinel]),
     acommit = (\<lambda>_. 0), arole = (\<lambda>_. StateFollower), votedH = {},
     clog = (\<lambda>_ _. None), vlog = (\<lambda>_ _. None), leadH = (\<lambda>_. None),
     llog = [1 \<mapsto> [sentinel]], ackH = {(1, v, 0) |v. True}, commitH = {(1, 0)}\<rparr>"

inductive astep :: "(nat set \<Rightarrow> bool) \<Rightarrow> 'c abs \<Rightarrow> 'c abs \<Rightarrow> bool" for quorum where
  timeout: "arole a i \<noteq> StateLeader \<Longrightarrow> t = Suc (aterm a i) \<Longrightarrow>
    astep quorum a (a\<lparr>aterm := (aterm a)(i := t), avote := (avote a)(i := Some i),
      arole := (arole a)(i := StateCandidate), votedH := insert (t, i, i) (votedH a),
      clog := (clog a)(t := (clog a t)(i := Some (alog a i))),
      vlog := (vlog a)(t := (vlog a t)(i := Some (alog a i)))\<rparr>)"
| newterm: "aterm a i < t \<Longrightarrow>
    astep quorum a (a\<lparr>aterm := (aterm a)(i := t), avote := (avote a)(i := None),
      arole := (arole a)(i := StateFollower)\<rparr>)"
| grant: "t = aterm a v \<Longrightarrow> avote a v = None \<Longrightarrow> clog a t c = Some L \<Longrightarrow>
    up_to_date L (alog a v) \<Longrightarrow>
    astep quorum a (a\<lparr>avote := (avote a)(v := Some c), votedH := insert (t, v, c) (votedH a),
      vlog := (vlog a)(t := (vlog a t)(v := Some (alog a v)))\<rparr>)"
| elect: "arole a i = StateCandidate \<Longrightarrow> t = aterm a i \<Longrightarrow> quorum Q \<Longrightarrow>
    (\<And>v. v \<in> Q \<Longrightarrow> (t, v, i) \<in> votedH a) \<Longrightarrow>
    astep quorum a (a\<lparr>arole := (arole a)(i := StateLeader), leadH := (leadH a)(t := Some i),
      llog := (llog a)(t := Some (alog a i))\<rparr>)"
| stepdown: "astep quorum a (a\<lparr>arole := (arole a)(i := StateFollower)\<rparr>)"
| append: "arole a i = StateLeader \<Longrightarrow> t = aterm a i \<Longrightarrow> lTerm e = t \<Longrightarrow>
    lIndex e = length (alog a i) \<Longrightarrow> lCommand e \<noteq> None \<Longrightarrow>
    astep quorum a (a\<lparr>alog := (alog a)(i := alog a i @ [e]),
      llog := (llog a)(t := Some (alog a i @ [e])),
      ackH := insert (t, i, length (alog a i)) (ackH a)\<rparr>)"
| accept: "arole a v = StateFollower \<Longrightarrow> llog a (aterm a v) = Some M \<Longrightarrow> q < length M \<Longrightarrow>
    take (Suc q) (alog a v) \<noteq> take (Suc q) M \<Longrightarrow>
    astep quorum a (a\<lparr>alog := (alog a)(v := take (Suc q) M)\<rparr>)"
| ack: "t = aterm a v \<Longrightarrow> llog a t = Some M \<Longrightarrow> q < length M \<Longrightarrow>
    take (Suc q) (alog a v) = take (Suc q) M \<Longrightarrow>
    astep quorum a (a\<lparr>ackH := insert (t, v, q) (ackH a)\<rparr>)"
| decide: "llog a t = Some M \<Longrightarrow> k < length M \<Longrightarrow> lTerm (M ! k) = t \<Longrightarrow>
    quorum Q \<Longrightarrow> (\<And>v. v \<in> Q \<Longrightarrow> \<exists>j\<ge>k. (t, v, j) \<in> ackH a) \<Longrightarrow>
    astep quorum a (a\<lparr>commitH := insert (t, k) (commitH a)\<rparr>)"
| learn: "(t, k) \<in> commitH a \<Longrightarrow> t \<le> aterm a v \<Longrightarrow> c \<le> k \<Longrightarrow> llog a t = Some M \<Longrightarrow>
    take (Suc c) (alog a v) = take (Suc c) M \<Longrightarrow>
    astep quorum a (a\<lparr>acommit := (acommit a)(v := c)\<rparr>)"

section \<open>The invariant\<close>

text \<open>
  Votes: a peer's vote in its current term is the recorded one, it never votes for two
  candidates in a term, and a vote goes to an up-to-date log.
\<close>

definition votes_current :: "'c abs \<Rightarrow> bool" where
  "votes_current a \<longleftrightarrow> (\<forall>t v c. (t, v, c) \<in> votedH a \<longrightarrow>
     t \<le> aterm a v \<and> (t = aterm a v \<longrightarrow> avote a v = Some c))"

definition votes_recorded :: "'c abs \<Rightarrow> bool" where
  "votes_recorded a \<longleftrightarrow> (\<forall>v c. avote a v = Some c \<longrightarrow> (aterm a v, v, c) \<in> votedH a)"

definition votes_once :: "'c abs \<Rightarrow> bool" where
  "votes_once a \<longleftrightarrow> (\<forall>t v c c'. (t, v, c) \<in> votedH a \<longrightarrow> (t, v, c') \<in> votedH a \<longrightarrow> c = c')"

definition votes_up_to_date :: "'c abs \<Rightarrow> bool" where
  "votes_up_to_date a \<longleftrightarrow> (\<forall>t v c. (t, v, c) \<in> votedH a \<longrightarrow>
     (\<exists>L K. clog a t c = Some L \<and> vlog a t v = Some K \<and> up_to_date L K))"

definition vlog_current :: "'c abs \<Rightarrow> bool" where
  "vlog_current a \<longleftrightarrow> (\<forall>t v K. vlog a t v = Some K \<longrightarrow>
     t \<le> aterm a v \<and> (t = aterm a v \<longrightarrow> avote a v \<noteq> None))"

definition clog_current :: "'c abs \<Rightarrow> bool" where
  "clog_current a \<longleftrightarrow> (\<forall>t i L. clog a t i = Some L \<longrightarrow> t \<le> aterm a i)"

definition candidate_log :: "'c abs \<Rightarrow> bool" where
  "candidate_log a \<longleftrightarrow> (\<forall>i. arole a i = StateCandidate \<longrightarrow>
     clog a (aterm a i) i = Some (alog a i) \<and> 1 < aterm a i)"

definition inv_vote :: "'c abs \<Rightarrow> bool" where
  "inv_vote a \<longleftrightarrow> votes_current a \<and> votes_recorded a \<and> votes_once a \<and> votes_up_to_date a \<and>
     vlog_current a \<and> clog_current a \<and> candidate_log a \<and> (\<forall>i. 1 \<le> aterm a i)"

text \<open>Leaders: elected by a quorum; the log of a term is the log of its leader while it leads.\<close>

definition lead_elected :: "(nat set \<Rightarrow> bool) \<Rightarrow> 'c abs \<Rightarrow> bool" where
  "lead_elected quorum a \<longleftrightarrow> (\<forall>t i. leadH a t = Some i \<longrightarrow> 1 < t \<and>
     (\<exists>Q. quorum Q \<and> (\<forall>v\<in>Q. (t, v, i) \<in> votedH a)))"

definition lead_current :: "'c abs \<Rightarrow> bool" where
  "lead_current a \<longleftrightarrow> (\<forall>t i. leadH a t = Some i \<longrightarrow>
     t \<le> aterm a i \<and> (t = aterm a i \<longrightarrow> arole a i \<noteq> StateCandidate))"

definition llog_dom :: "'c abs \<Rightarrow> bool" where
  "llog_dom a \<longleftrightarrow> (\<forall>t. llog a t \<noteq> None \<longleftrightarrow> t = 1 \<or> leadH a t \<noteq> None)"

definition leader_log :: "'c abs \<Rightarrow> bool" where
  "leader_log a \<longleftrightarrow> (\<forall>i. arole a i = StateLeader \<longrightarrow>
     leadH a (aterm a i) = Some i \<and> llog a (aterm a i) = Some (alog a i))"

definition inv_lead :: "(nat set \<Rightarrow> bool) \<Rightarrow> 'c abs \<Rightarrow> bool" where
  "inv_lead quorum a \<longleftrightarrow> lead_elected quorum a \<and> lead_current a \<and> llog_dom a \<and> leader_log a"

text \<open>
  Logs: every prefix of every log that ends in an entry of term \<open>t\<close> is a prefix of the log
  of the leader of \<open>t\<close>; terms are sorted and bounded.
\<close>

definition from_leaders :: "'c abs \<Rightarrow> 'c Log list \<Rightarrow> bool" where
  "from_leaders a L \<longleftrightarrow> wf_log L \<and> sorted (map lTerm L) \<and>
     (\<forall>k < length L. \<exists>M. llog a (lTerm (L ! k)) = Some M \<and> k < length M \<and>
        take (Suc k) L = take (Suc k) M)"

definition terms_upto :: "nat \<Rightarrow> 'c Log list \<Rightarrow> bool" where
  "terms_upto t L \<longleftrightarrow> (\<forall>e \<in> set L. lTerm e \<le> t)"

definition inv_log :: "'c abs \<Rightarrow> bool" where
  "inv_log a \<longleftrightarrow>
     (\<forall>v. from_leaders a (alog a v) \<and> terms_upto (aterm a v) (alog a v)) \<and>
     (\<forall>t M. llog a t = Some M \<longrightarrow> from_leaders a M \<and> terms_upto t M) \<and>
     (\<forall>t i L. clog a t i = Some L \<longrightarrow> from_leaders a L \<and> terms_upto (t - 1) L \<and> 0 < t) \<and>
     (\<forall>t v L. vlog a t v = Some L \<longrightarrow> from_leaders a L)"

text \<open>
  A position \<open>k\<close> of term \<open>t\<close> can still be committed while some quorum has not moved
  past \<open>t\<close> without acknowledging it. Every later leader's log contains such a position,
  and so does the log of every peer that acknowledged it, now and when it voted later.
\<close>

definition choosable :: "(nat set \<Rightarrow> bool) \<Rightarrow> 'c abs \<Rightarrow> nat \<Rightarrow> nat \<Rightarrow> bool" where
  "choosable quorum a t k \<longleftrightarrow>
     (\<exists>Q. quorum Q \<and> (\<forall>v\<in>Q. aterm a v \<le> t \<or> (\<exists>j\<ge>k. (t, v, j) \<in> ackH a)))"

definition live_pos :: "(nat set \<Rightarrow> bool) \<Rightarrow> 'c abs \<Rightarrow> nat \<Rightarrow> nat \<Rightarrow> 'c Log list \<Rightarrow> bool" where
  "live_pos quorum a t k M \<longleftrightarrow> llog a t = Some M \<and> k < length M \<and> lTerm (M ! k) = t \<and> choosable quorum a t k"

definition inv_ack :: "'c abs \<Rightarrow> bool" where
  "inv_ack a \<longleftrightarrow> (\<forall>t v j. (t, v, j) \<in> ackH a \<longrightarrow> t \<le> aterm a v \<and> (\<exists>M. llog a t = Some M \<and> j < length M))"

definition inv_safe :: "(nat set \<Rightarrow> bool) \<Rightarrow> 'c abs \<Rightarrow> bool" where
  "inv_safe quorum a \<longleftrightarrow> (\<forall>t k M u U. live_pos quorum a t k M \<longrightarrow> t < u \<longrightarrow> llog a u = Some U \<longrightarrow>
     take (Suc k) U = take (Suc k) M)"

definition inv_keep :: "(nat set \<Rightarrow> bool) \<Rightarrow> 'c abs \<Rightarrow> bool" where
  "inv_keep quorum a \<longleftrightarrow> (\<forall>t k M v j. live_pos quorum a t k M \<longrightarrow> (t, v, j) \<in> ackH a \<longrightarrow> k \<le> j \<longrightarrow>
     take (Suc k) (alog a v) = take (Suc k) M \<and>
     (\<forall>u K. t < u \<longrightarrow> vlog a u v = Some K \<longrightarrow> take (Suc k) K = take (Suc k) M))"

definition inv_commit :: "(nat set \<Rightarrow> bool) \<Rightarrow> 'c abs \<Rightarrow> bool" where
  "inv_commit quorum a \<longleftrightarrow>
     (\<forall>t k. (t, k) \<in> commitH a \<longrightarrow> (\<exists>M Q. llog a t = Some M \<and> k < length M \<and> lTerm (M ! k) = t \<and>
        quorum Q \<and> (\<forall>v\<in>Q. \<exists>j\<ge>k. (t, v, j) \<in> ackH a))) \<and>
     (\<forall>v. \<exists>t k M. (t, k) \<in> commitH a \<and> t \<le> aterm a v \<and> acommit a v \<le> k \<and> llog a t = Some M \<and>
        take (Suc (acommit a v)) (alog a v) = take (Suc (acommit a v)) M)"

definition inv :: "(nat set \<Rightarrow> bool) \<Rightarrow> 'c abs \<Rightarrow> bool" where
  "inv quorum a \<longleftrightarrow> inv_vote a \<and> inv_lead quorum a \<and> inv_log a \<and> inv_ack a \<and>
     inv_safe quorum a \<and> inv_keep quorum a \<and> inv_commit quorum a"

text \<open>The log of a term only ever grows.\<close>

definition llog_ext :: "'c abs \<Rightarrow> 'c abs \<Rightarrow> bool" where
  "llog_ext a b \<longleftrightarrow> (\<forall>t M. llog a t = Some M \<longrightarrow> (\<exists>N. llog b t = Some (M @ N)))"

section \<open>Every step keeps the invariant: votes\<close>

lemma astep_votes_current:
  assumes "astep quorum a b" "votes_current a"
  shows "votes_current b"
  unfolding votes_current_def
proof (intro allI impI)
  fix t v c assume new: "(t, v, c) \<in> votedH b"
  have old: "(t, v, c) \<in> votedH a \<Longrightarrow> t \<le> aterm a v \<and> (t = aterm a v \<longrightarrow> avote a v = Some c)"
    using assms(2) unfolding votes_current_def by blast
  from assms(1) new show "t \<le> aterm b v \<and> (t = aterm b v \<longrightarrow> avote b v = Some c)"
    by cases (use old in \<open>auto split: if_splits\<close>)
qed

lemma astep_votes_recorded:
  assumes "astep quorum a b" "votes_recorded a"
  shows "votes_recorded b"
  using assms by cases (auto simp: votes_recorded_def)

lemma astep_votes_once:
  assumes "astep quorum a b" "votes_once a" "votes_current a"
  shows "votes_once b"
  unfolding votes_once_def
proof (intro allI impI)
  fix t v c c' assume new: "(t, v, c) \<in> votedH b" "(t, v, c') \<in> votedH b"
  have old: "(t, v, x) \<in> votedH a \<Longrightarrow> t \<le> aterm a v \<and> (t = aterm a v \<longrightarrow> avote a v = Some x)" for x
    using assms(3) unfolding votes_current_def by blast
  have "(t, v, c) \<in> votedH a \<Longrightarrow> (t, v, c') \<in> votedH a \<Longrightarrow> c = c'"
    using assms(2) by (auto simp: votes_once_def)
  with assms(1) new show "c = c'"
    by cases (use old [of c] old [of c'] in \<open>auto split: if_splits\<close>)
qed

lemma astep_vlog_current:
  assumes "astep quorum a b" "vlog_current a"
  shows "vlog_current b"
  unfolding vlog_current_def
proof (intro allI impI)
  fix t v K assume new: "vlog b t v = Some K"
  have old: "vlog a t v = Some K \<Longrightarrow> t \<le> aterm a v \<and> (t = aterm a v \<longrightarrow> avote a v \<noteq> None)"
    using assms(2) unfolding vlog_current_def by blast
  from assms(1) new show "t \<le> aterm b v \<and> (t = aterm b v \<longrightarrow> avote b v \<noteq> None)"
    by cases (use old in \<open>auto split: if_splits\<close>)
qed

lemma astep_clog_current:
  assumes "astep quorum a b" "clog_current a"
  shows "clog_current b"
  unfolding clog_current_def
proof (intro allI impI)
  fix t i L assume new: "clog b t i = Some L"
  have old: "clog a t i = Some L \<Longrightarrow> t \<le> aterm a i"
    using assms(2) unfolding clog_current_def by blast
  from assms(1) new show "t \<le> aterm b i"
    by cases (use old in \<open>auto split: if_splits\<close>)
qed

lemma astep_clog_stable:
  assumes "astep quorum a b" "clog_current a" "clog a t c = Some L"
  shows "clog b t c = Some L"
proof -
  have "t \<le> aterm a c" using assms(2,3) unfolding clog_current_def by blast
  with assms(1) show ?thesis by cases (use assms(3) in auto)
qed

lemma astep_vlog_stable:
  assumes "astep quorum a b" "vlog_current a" "vlog a t v = Some L"
  shows "vlog b t v = Some L"
proof -
  have "t \<le> aterm a v \<and> (t = aterm a v \<longrightarrow> avote a v \<noteq> None)" using assms(2,3) unfolding vlog_current_def by blast
  with assms(1) show ?thesis by cases (use assms(3) in auto)
qed

lemma astep_votes_up_to_date:
  assumes "astep quorum a b" "votes_up_to_date a" "clog_current a" "vlog_current a"
  shows "votes_up_to_date b"
  unfolding votes_up_to_date_def
proof (intro allI impI)
  fix t v c assume new: "(t, v, c) \<in> votedH b"
  show "\<exists>L K. clog b t c = Some L \<and> vlog b t v = Some K \<and> up_to_date L K"
  proof (cases "(t, v, c) \<in> votedH a")
    case True
    with assms(2) show ?thesis
      using astep_clog_stable [OF assms(1,3)] astep_vlog_stable [OF assms(1,4)]
      unfolding votes_up_to_date_def by blast
  next
    case False
    with assms(1) new show ?thesis by cases auto
  qed
qed

lemma astep_term_pos:
  assumes "astep quorum a b" "\<forall>i. 1 \<le> aterm a i"
  shows "\<forall>i. 1 \<le> aterm b i"
proof
  fix i
  have "1 \<le> aterm a i" using assms(2) by simp
  with assms(1) show "1 \<le> aterm b i" by cases auto
qed

lemma astep_candidate_log:
  assumes "astep quorum a b" "candidate_log a" "\<forall>i. 1 \<le> aterm a i"
  shows "candidate_log b"
  unfolding candidate_log_def
proof (intro allI impI)
  fix i assume new: "arole b i = StateCandidate"
  have old: "arole a i = StateCandidate \<Longrightarrow> clog a (aterm a i) i = Some (alog a i) \<and> 1 < aterm a i"
    using assms(2) unfolding candidate_log_def by blast
  have "1 \<le> aterm a i" using assms(3) by simp
  with assms(1) new show "clog b (aterm b i) i = Some (alog b i) \<and> 1 < aterm b i"
    by cases (use old in \<open>auto split: if_splits\<close>)
qed

lemma astep_inv_vote:
  assumes "astep quorum a b" "inv_vote a"
  shows "inv_vote b"
  using assms(2) unfolding inv_vote_def
  by (blast intro: astep_votes_current [OF assms(1)] astep_votes_recorded [OF assms(1)]
      astep_votes_once [OF assms(1)] astep_votes_up_to_date [OF assms(1)]
      astep_vlog_current [OF assms(1)] astep_clog_current [OF assms(1)]
      astep_candidate_log [OF assms(1)] astep_term_pos [OF assms(1), rule_format])
section \<open>Every step keeps the invariant: leaders\<close>

lemma astep_votedH_mono: "astep quorum a b \<Longrightarrow> votedH a \<subseteq> votedH b"
  by (erule astep.cases) auto

lemma astep_ackH_mono: "astep quorum a b \<Longrightarrow> ackH a \<subseteq> ackH b"
  by (erule astep.cases) auto

lemma astep_commitH_mono: "astep quorum a b \<Longrightarrow> commitH a \<subseteq> commitH b"
  by (erule astep.cases) auto

lemma astep_aterm_mono: "astep quorum a b \<Longrightarrow> aterm a v \<le> aterm b v"
  by (erule astep.cases) auto

context quorum_system
begin

lemma lead_unique_votes:
  assumes "votes_once a" "lead_elected quorum a" "leadH a t = Some i" "quorum Q"
    "\<forall>v\<in>Q. (t, v, j) \<in> votedH a"
  shows "i = j"
proof -
  from assms(2,3) obtain Q' where Q': "quorum Q'" "\<forall>v\<in>Q'. (t, v, i) \<in> votedH a"
    unfolding lead_elected_def by blast
  with assms(4) obtain v where "v \<in> Q" "v \<in> Q'" using quorum_meet by blast
  with Q' assms(1,5) show ?thesis unfolding votes_once_def by blast
qed

lemma elect_new_term:
  assumes "inv_vote a" "inv_lead quorum a" "arole a i = StateCandidate" "quorum Q"
    "\<forall>v\<in>Q. (aterm a i, v, i) \<in> votedH a"
  shows "leadH a (aterm a i) = None" and "llog a (aterm a i) = None"
proof -
  have inv: "votes_once a" "lead_elected quorum a" "lead_current a" "llog_dom a" "candidate_log a"
    using assms(1,2) by (auto simp: inv_vote_def inv_lead_def)
  show none: "leadH a (aterm a i) = None"
  proof (rule ccontr)
    assume "leadH a (aterm a i) \<noteq> None"
    then obtain j where j: "leadH a (aterm a i) = Some j" by blast
    with lead_unique_votes [OF inv(1,2) j assms(4,5)] have "leadH a (aterm a i) = Some i" by simp
    with inv(3) assms(3) show False unfolding lead_current_def by blast
  qed
  have "1 < aterm a i" using inv(5) assms(3) unfolding candidate_log_def by blast
  with none inv(4) show "llog a (aterm a i) = None"
    unfolding llog_dom_def by (metis less_irrefl)
qed

lemma astep_llog_ext:
  assumes "astep quorum a b" "inv_vote a" "inv_lead quorum a"
  shows "llog_ext a b"
  unfolding llog_ext_def
proof (intro allI impI)
  fix t M assume M: "llog a t = Some M"
  from assms(1) show "\<exists>N. llog b t = Some (M @ N)"
  proof cases
    case (elect i s Q)
    with elect_new_term(2) [OF assms(2,3), of i Q] M show ?thesis by auto
  next
    case (append i s e)
    with assms(3) M show ?thesis by (auto simp: inv_lead_def leader_log_def)
  qed (use M in auto)
qed

lemma astep_lead_stable:
  assumes "astep quorum a b" "inv_vote a" "inv_lead quorum a" "leadH a t = Some i"
  shows "leadH b t = Some i"
  using assms(1)
proof cases
  case (elect j s Q)
  with elect_new_term(1) [OF assms(2,3), of j Q] assms(4) show ?thesis by auto
qed (use assms(4) in auto)

lemma astep_lead_elected:
  assumes "astep quorum a b" "inv_vote a" "lead_elected quorum a"
  shows "lead_elected quorum b"
  unfolding lead_elected_def
proof (intro allI impI)
  fix t i assume new: "leadH b t = Some i"
  show "1 < t \<and> (\<exists>Q. quorum Q \<and> (\<forall>v\<in>Q. (t, v, i) \<in> votedH b))"
  proof (cases "leadH a t = Some i")
    case True
    with assms(3) show ?thesis
      using astep_votedH_mono [OF assms(1)] unfolding lead_elected_def by blast
  next
    case False
    with assms(1) new show ?thesis
      by cases (use assms(2) in \<open>auto simp: inv_vote_def candidate_log_def split: if_splits\<close>)
  qed
qed

lemma astep_lead_current:
  assumes "astep quorum a b" "lead_current a"
  shows "lead_current b"
  unfolding lead_current_def
proof (intro allI impI)
  fix t i assume new: "leadH b t = Some i"
  have old: "leadH a t = Some i \<Longrightarrow> t \<le> aterm a i \<and> (t = aterm a i \<longrightarrow> arole a i \<noteq> StateCandidate)"
    using assms(2) unfolding lead_current_def by blast
  from assms(1) new show "t \<le> aterm b i \<and> (t = aterm b i \<longrightarrow> arole b i \<noteq> StateCandidate)"
    by cases (use old in \<open>auto split: if_splits\<close>)
qed

lemma astep_llog_dom:
  assumes "astep quorum a b" "llog_dom a" "leader_log a"
  shows "llog_dom b"
  using assms by cases (auto simp: llog_dom_def leader_log_def)

lemma astep_leader_log:
  assumes "astep quorum a b" "inv_vote a" "inv_lead quorum a"
  shows "leader_log b"
  unfolding leader_log_def
proof (intro allI impI)
  fix i assume new: "arole b i = StateLeader"
  have old: "arole a j = StateLeader \<Longrightarrow> leadH a (aterm a j) = Some j \<and> llog a (aterm a j) = Some (alog a j)" for j
    using assms(3) unfolding inv_lead_def leader_log_def by blast
  from assms(1) show "leadH b (aterm b i) = Some i \<and> llog b (aterm b i) = Some (alog b i)"
  proof cases
    case (elect j s Q)
    with elect_new_term(1) [OF assms(2,3), of j Q] new old [of i] show ?thesis by (auto split: if_splits)
  next
    case (append j s e)
    with new old [of i] old [of j] show ?thesis by (auto split: if_splits)
  qed (use new old [of i] in \<open>auto split: if_splits\<close>)
qed

lemma astep_inv_lead:
  assumes "astep quorum a b" "inv_vote a" "inv_lead quorum a"
  shows "inv_lead quorum b"
  using astep_lead_elected [OF assms(1,2)] astep_lead_current [OF assms(1)]
    astep_llog_dom [OF assms(1)] astep_leader_log [OF assms] assms(3)
  by (auto simp: inv_lead_def)

end

section \<open>Every step keeps the invariant: logs and acknowledgements\<close>

lemma from_leaders_ext:
  assumes "from_leaders a L" "llog_ext a b"
  shows "from_leaders b L"
proof -
  have "\<exists>M. llog b (lTerm (L ! k)) = Some M \<and> k < length M \<and> take (Suc k) L = take (Suc k) M"
    if k: "k < length L" for k
  proof -
    from assms(1) k obtain M where M: "llog a (lTerm (L ! k)) = Some M" "k < length M"
      "take (Suc k) L = take (Suc k) M"
      by (auto simp: from_leaders_def)
    with assms(2) obtain N where "llog b (lTerm (L ! k)) = Some (M @ N)"
      by (auto simp: llog_ext_def)
    with M show ?thesis by auto
  qed
  with assms(1) show ?thesis by (auto simp: from_leaders_def)
qed

lemma from_leaders_take:
  assumes "from_leaders a L"
  shows "from_leaders a (take (Suc q) L)"
proof -
  have "\<exists>M. llog a (lTerm (take (Suc q) L ! k)) = Some M \<and> k < length M \<and>
      take (Suc k) (take (Suc q) L) = take (Suc k) M" if k: "k < length (take (Suc q) L)" for k
  proof -
    from k have "k \<le> q" "k < length L" by auto
    then show ?thesis using assms by (simp add: from_leaders_def take_Suc_take)
  qed
  moreover have "sorted (map lTerm (take (Suc q) L))"
    using assms by (simp add: from_leaders_def sorted_wrt_take flip: take_map)
  ultimately show ?thesis using assms by (auto simp: from_leaders_def wf_log_take)
qed

lemma from_leaders_snoc:
  assumes "from_leaders a L" "llog a (lTerm e) = Some (L @ [e])" "lIndex e = length L"
    "terms_upto (lTerm e) L"
  shows "from_leaders a (L @ [e])"
proof -
  have "\<exists>M. llog a (lTerm ((L @ [e]) ! k)) = Some M \<and> k < length M \<and>
      take (Suc k) (L @ [e]) = take (Suc k) M" if k: "k < length (L @ [e])" for k
    using assms(1,2) k by (cases "k = length L") (auto simp: from_leaders_def nth_append)
  moreover have "sorted (map lTerm (L @ [e]))"
    using assms by (auto simp: from_leaders_def sorted_append terms_upto_def)
  ultimately show ?thesis using assms by (auto simp: from_leaders_def wf_log_snoc)
qed

lemma terms_upto_mono: "terms_upto t L \<Longrightarrow> t \<le> u \<Longrightarrow> terms_upto u L"
  by (force simp: terms_upto_def)

lemma terms_upto_take: "terms_upto t L \<Longrightarrow> terms_upto t (take q L)"
  by (auto simp: terms_upto_def dest: in_set_takeD)

lemma terms_upto_snoc [simp]: "terms_upto t (L @ [e]) \<longleftrightarrow> terms_upto t L \<and> lTerm e \<le> t"
  by (auto simp: terms_upto_def)

context quorum_system
begin

lemma astep_inv_log:
  assumes "astep quorum a b" "inv_vote a" "inv_lead quorum a" "inv_log a"
  shows "inv_log b"
proof -
  have keep: "from_leaders a L \<Longrightarrow> from_leaders b L" for L
    using from_leaders_ext astep_llog_ext [OF assms(1-3)] by blast
  have node: "from_leaders a (alog a v)" "terms_upto (aterm a v) (alog a v)" for v
    using assms(4) unfolding inv_log_def by blast+
  have lead: "from_leaders a M" "terms_upto t M" if "llog a t = Some M" for t M
    using assms(4) that unfolding inv_log_def by blast+
  have cand: "from_leaders a L" "terms_upto (t - 1) L" "0 < t" if "clog a t i = Some L" for t i L
    using assms(4) that unfolding inv_log_def by blast+
  have voter: "from_leaders a L" if "vlog a t i = Some L" for t i L
    using assms(4) that unfolding inv_log_def by blast
  have snoc: "from_leaders b (alog a i @ [e])" 
    if "llog b (lTerm e) = Some (alog a i @ [e])" "lIndex e = length (alog a i)" "lTerm e = aterm a i" for i e
    using that node [of i] by (intro from_leaders_snoc keep) auto
  have 1: "from_leaders b (alog b v) \<and> terms_upto (aterm b v) (alog b v)" for v
    using assms(1)
  proof cases
    case (append i t e)
    then show ?thesis using keep [OF node(1)] node(2) snoc by auto
  next
    case (accept w M q)
    then show ?thesis using keep [OF node(1)] node(2) keep [OF from_leaders_take [OF lead(1)]]
      by (auto intro: terms_upto_take lead(2))
  qed (use keep [OF node(1), of v] terms_upto_mono [OF node(2), of v] in auto)
  have 2: "from_leaders b M \<and> terms_upto t M" if M: "llog b t = Some M" for t M
    using assms(1)
  proof cases
    case (elect i s Q)
    with M show ?thesis using keep [OF node(1)] node(2) keep [OF lead(1)] lead(2) by (auto split: if_splits)
  next
    case (append i s e)
    with M show ?thesis using snoc node(2) keep [OF lead(1)] lead(2) by (auto split: if_splits)
  qed (use M keep [OF lead(1)] lead(2) in auto)
  have 3: "from_leaders b L \<and> terms_upto (t - 1) L \<and> 0 < t" if L: "clog b t i = Some L" for t i L
    using assms(1)
  proof cases
    case (timeout j s)
    with L show ?thesis using keep [OF node(1), of j] node(2) [of j] keep [OF cand(1), of t i L]
        cand(2,3) [of t i L] by (auto split: if_splits)
  qed (use L keep [OF cand(1), of t i L] cand(2,3) [of t i L] in auto)
  have 4: "from_leaders b L" if L: "vlog b t i = Some L" for t i L
    using assms(1) by cases (use L keep [OF node(1)] keep [OF voter] in \<open>auto split: if_splits\<close>)
  show ?thesis using 1 2 3 4 unfolding inv_log_def by blast
qed

lemma astep_inv_ack:
  assumes "astep quorum a b" "inv_vote a" "inv_lead quorum a" "inv_ack a"
  shows "inv_ack b"
  unfolding inv_ack_def
proof (intro allI impI)
  fix t v j assume new: "(t, v, j) \<in> ackH b"
  show "t \<le> aterm b v \<and> (\<exists>M. llog b t = Some M \<and> j < length M)"
  proof (cases "(t, v, j) \<in> ackH a")
    case True
    with assms(4) obtain M where "t \<le> aterm a v" "llog a t = Some M" "j < length M"
      unfolding inv_ack_def by blast
    moreover then obtain N where "llog b t = Some (M @ N)"
      using astep_llog_ext [OF assms(1-3)] unfolding llog_ext_def by blast
    ultimately show ?thesis using astep_aterm_mono [OF assms(1), of v] by auto
  next
    case False
    with assms(1) new show ?thesis by cases auto
  qed
qed

end

section \<open>Every step keeps the invariant: later leaders have what can be committed\<close>

lemma from_leaders_last:
  assumes "from_leaders a L"
  obtains U where "llog a (lTerm (last L)) = Some U" "length L \<le> length U" "L = take (length L) U"
proof -
  have ne: "L \<noteq> []" using assms by (simp add: from_leaders_def wf_log_def)
  then have "length L - 1 < length L" by simp
  with assms obtain U where "llog a (lTerm (L ! (length L - 1))) = Some U" "length L - 1 < length U"
    "take (Suc (length L - 1)) L = take (Suc (length L - 1)) U"
    unfolding from_leaders_def by blast
  with ne that [of U] show ?thesis by (simp add: last_conv_nth)
qed

lemma log_matching:
  assumes "from_leaders a L" "from_leaders a K" "i < length L" "i < length K"
    "lTerm (L ! i) = lTerm (K ! i)"
  shows "take (Suc i) L = take (Suc i) K"
  using assms unfolding from_leaders_def by (metis option.inject)

lemma up_to_date_keeps:
  assumes L: "from_leaders a L" and K: "from_leaders a K" and up: "up_to_date L K"
    and safe: "inv_safe quorum a" and live: "live_pos quorum a t k M" and M: "from_leaders a M"
    and eq: "take (Suc k) K = take (Suc k) M"
  shows "take (Suc k) L = take (Suc k) M"
proof -
  have k: "k < length M" "lTerm (M ! k) = t" using live by (auto simp: live_pos_def)
  have kK: "k < length K" using take_Suc_eq_length [OF eq k(1)] .
  have neq: "L \<noteq> []" "K \<noteq> []" using L K by (auto simp: from_leaders_def wf_log_def)
  have sortedK: "sorted (map lTerm K)" and sortedM: "sorted (map lTerm M)"
    using K M by (auto simp: from_leaders_def)
  have "lTerm (K ! k) \<le> lTerm (last K)"
    using sorted_map_nth_mono [OF sortedK, of k "length K - 1"] kK neq by (simp add: last_conv_nth)
  then have t: "t \<le> lTerm (last K)" using take_Suc_eq_nth [OF eq, of k] k by simp
  obtain U where U: "llog a (lTerm (last L)) = Some U" "length L \<le> length U" "L = take (length L) U"
    using from_leaders_last [OF L] .
  show ?thesis
  proof (cases "lTerm (last K) = lTerm (last L)")
    case True
    obtain U' where U': "llog a (lTerm (last K)) = Some U'" "K = take (length K) U'"
      using from_leaders_last [OF K] by metis
    have "length K \<le> length L" using up True by (simp add: up_to_date_def)
    with kK have kL: "Suc k \<le> length L" by simp
    have "take (Suc k) L = take (Suc k) U" using U(3) kL by (metis min.absorb1 take_take)
    moreover have "take (Suc k) K = take (Suc k) U"
      using U'(2) U' U True kK by (metis Suc_leI min.absorb1 option.inject take_take)
    ultimately show ?thesis using eq by simp
  next
    case False
    with up have s: "t < lTerm (last L)" using t by (auto simp: up_to_date_def)
    then have UM: "take (Suc k) U = take (Suc k) M"
      using safe live U(1) unfolding inv_safe_def by blast
    have "k < length L"
    proof (rule ccontr)
      assume "\<not> k < length L"
      then have le: "length L - 1 \<le> k" by simp
      have "last L = U ! (length L - 1)" using U(2,3) neq(1)
        by (metis diff_less last_conv_nth length_greater_0_conv nth_take zero_less_one)
      also have "\<dots> = M ! (length L - 1)" using take_Suc_eq_nth [OF UM le] .
      finally have "lTerm (last L) \<le> lTerm (M ! k)"
        using sorted_map_nth_mono [OF sortedM le k(1)] by simp
      with s k(2) show False by simp
    qed
    then have "take (Suc k) L = take (Suc k) U" using U(3) by (metis Suc_leI min.absorb1 take_take)
    with UM show ?thesis by simp
  qed
qed

context quorum_system
begin

lemma elect_keeps:
  assumes "inv quorum a" "arole a i = StateCandidate" "quorum Q"
    "\<forall>v\<in>Q. (aterm a i, v, i) \<in> votedH a" "live_pos quorum a t k M" "t < aterm a i"
  shows "take (Suc k) (alog a i) = take (Suc k) M"
proof -
  obtain Q' where Q': "quorum Q'" "\<forall>v\<in>Q'. aterm a v \<le> t \<or> (\<exists>j\<ge>k. (t, v, j) \<in> ackH a)"
    using assms(5) unfolding live_pos_def choosable_def by blast
  then obtain v where v: "v \<in> Q" "v \<in> Q'" using quorum_meet assms(3) by blast
  have vote: "(aterm a i, v, i) \<in> votedH a" using v(1) assms(4) by blast
  have "aterm a i \<le> aterm a v"
    using assms(1) vote unfolding inv_def inv_vote_def votes_current_def by blast
  with v(2) Q'(2) assms(6) obtain j where j: "k \<le> j" "(t, v, j) \<in> ackH a" by force
  obtain L K where LK: "clog a (aterm a i) i = Some L" "vlog a (aterm a i) v = Some K" "up_to_date L K"
    using assms(1) vote unfolding inv_def inv_vote_def votes_up_to_date_def by blast
  have L: "L = alog a i"
    using assms(1,2) LK(1) unfolding inv_def inv_vote_def candidate_log_def by (metis option.inject)
  have keep: "take (Suc k) K = take (Suc k) M"
    using assms(1,5,6) j LK(2) unfolding inv_def inv_keep_def by blast
  have "from_leaders a L" "from_leaders a K" "from_leaders a M" "inv_safe quorum a"
    using assms(1,5) LK unfolding inv_def inv_log_def live_pos_def by blast+
  with up_to_date_keeps [OF _ _ LK(3) _ assms(5) _ keep] show ?thesis by (simp add: L)
qed

lemma astep_new_ack:
  assumes "astep quorum a b" "(t, v, j) \<in> ackH b" "(t, v, j) \<notin> ackH a"
  shows "t = aterm a v \<and> aterm b v = aterm a v"
  using assms by cases auto

lemma choosable_back:
  assumes "astep quorum a b" "choosable quorum b t k"
  shows "choosable quorum a t k"
proof -
  obtain Q where Q: "quorum Q" "\<And>v. v \<in> Q \<Longrightarrow> aterm b v \<le> t \<or> (\<exists>j\<ge>k. (t, v, j) \<in> ackH b)"
    using assms(2) unfolding choosable_def by blast
  have "aterm a v \<le> t \<or> (\<exists>j\<ge>k. (t, v, j) \<in> ackH a)" if "v \<in> Q" for v
    using Q(2) [OF that] astep_new_ack [OF assms(1), of t v] astep_aterm_mono [OF assms(1), of v]
    by (metis order.refl order.trans)
  with Q(1) show ?thesis unfolding choosable_def by blast
qed

lemma live_pos_back:
  assumes "astep quorum a b" "inv quorum a" "live_pos quorum b t k M'"
  shows "(\<exists>M N. live_pos quorum a t k M \<and> M' = M @ N) \<or>
    (\<exists>i e. arole a i = StateLeader \<and> t = aterm a i \<and> k = length (alog a i) \<and>
       M' = alog a i @ [e] \<and> alog b i = M' \<and> aterm b = aterm a \<and> vlog b = vlog a \<and>
       llog a t = Some (alog a i) \<and> llog b = (llog a)(t := Some M') \<and> ackH b = insert (t, i, k) (ackH a))"
proof -
  have ch: "choosable quorum a t k" using choosable_back [OF assms(1)] assms(3) by (auto simp: live_pos_def)
  have M': "llog b t = Some M'" "k < length M'" "lTerm (M' ! k) = t" using assms(3) by (auto simp: live_pos_def)
  have old: ?thesis if "llog a t = Some M'"
    using that ch M' by (intro disjI1 exI [of _ M'] exI [of _ "[]"]) (auto simp: live_pos_def)
  from assms(1) show ?thesis
  proof cases
    case (elect i s Q)
    have "llog a s = None"
      using elect_new_term(2) [of a i Q] elect assms(2) by (auto simp: inv_def)
    moreover have "llog a (lTerm (M' ! k)) \<noteq> None" if "s = t"
      using assms(2) elect M' that unfolding inv_def inv_log_def from_leaders_def by fastforce
    ultimately show ?thesis using M' elect old by (auto split: if_splits)
  next
    case (append i s e)
    have lg: "llog a s = Some (alog a i)" using append assms(2) by (auto simp: inv_def inv_lead_def leader_log_def)
    show ?thesis
    proof (cases "s = t \<and> k = length (alog a i)")
      case True
      with append lg M' show ?thesis by (intro disjI2 exI [of _ i] exI [of _ e]) auto
    next
      case False
      show ?thesis
      proof (cases "s = t")
        case True
        with False append lg M' ch show ?thesis
          by (intro disjI1 exI [of _ "alog a i"] exI [of _ "[e]"]) (auto simp: live_pos_def nth_append)
      next
        case False
        with append M' old show ?thesis by auto
      qed
    qed
  qed (use M' old in auto)
qed

lemma astep_inv_safe:
  assumes "astep quorum a b" "inv quorum a"
  shows "inv_safe quorum b"
  unfolding inv_safe_def
proof (intro allI impI)
  fix t k M' u U assume live: "live_pos quorum b t k M'" and tu: "t < u" and U: "llog b u = Some U"
  from live_pos_back [OF assms live] consider
      (old) M N where "live_pos quorum a t k M" "M' = M @ N"
    | (new) i where "arole a i = StateLeader" "t = aterm a i" "k = length (alog a i)"
        "aterm b = aterm a" "llog a t = Some (alog a i)" "llog b = (llog a)(t := Some M')"
        "ackH b = insert (t, i, k) (ackH a)"
    by blast
  then show "take (Suc k) U = take (Suc k) M'"
  proof cases
    case old
    have k: "k < length M" using old(1) by (simp add: live_pos_def)
    show ?thesis
    proof (cases "llog a u")
      case None
      with assms(1) U obtain i Q where "arole a i = StateCandidate" "u = aterm a i" "quorum Q"
        "\<forall>v\<in>Q. (aterm a i, v, i) \<in> votedH a" "U = alog a i"
        by cases (use assms(2) in \<open>auto simp: inv_def inv_lead_def leader_log_def split: if_splits\<close>)
      with elect_keeps [OF assms(2) _ _ _ old(1)] tu old(2) k show ?thesis by auto
    next
      case (Some U0)
      moreover then obtain N' where "U = U0 @ N'"
        using astep_llog_ext [OF assms(1)] assms(2) U unfolding inv_def llog_ext_def by fastforce
      moreover have eq: "take (Suc k) U0 = take (Suc k) M"
        using assms(2) old(1) tu Some unfolding inv_def inv_safe_def by blast
      ultimately show ?thesis using k old(2) take_Suc_eq_length [OF eq k] by simp
    qed
  next
    case new
    have Ua: "llog a u = Some U" using new U tu by simp
    moreover have "1 \<le> t" using new(2) assms(2) by (simp add: inv_def inv_vote_def)
    moreover from this tu have "u \<noteq> 1" by simp
    ultimately obtain l where "leadH a u = Some l"
      using assms(2) unfolding inv_def inv_lead_def llog_dom_def by (metis not_None_eq)
    then obtain Q where Q: "quorum Q" "\<forall>v\<in>Q. (u, v, l) \<in> votedH a"
      using assms(2) unfolding inv_def inv_lead_def lead_elected_def by blast
    obtain Q' where Q': "quorum Q'" "\<forall>v\<in>Q'. aterm b v \<le> t \<or> (\<exists>j\<ge>k. (t, v, j) \<in> ackH b)"
      using live unfolding live_pos_def choosable_def by blast
    obtain v where v: "v \<in> Q" "v \<in> Q'" using quorum_meet Q(1) Q'(1) by blast
    have "u \<le> aterm a v" using assms(2) Q(2) v(1) unfolding inv_def inv_vote_def votes_current_def by blast
    then have gt: "t < aterm a v" using tu by simp
    with v(2) Q'(2) new(4) obtain j where j: "k \<le> j" "(t, v, j) \<in> ackH b" by fastforce
    have "v \<noteq> i" using gt new(2) by auto
    with j new(7) have "(t, v, j) \<in> ackH a" by auto
    then have "j < length (alog a i)" using assms(2) new(5) unfolding inv_def inv_ack_def by fastforce
    with j new(3) show ?thesis by simp
  qed
qed

end

section \<open>Every step keeps the invariant: what was acknowledged is kept\<close>

context quorum_system
begin

lemma astep_alog_keeps:
  assumes "astep quorum a b" "inv quorum a" "live_pos quorum a t k M"
    "take (Suc k) (alog a v) = take (Suc k) M" "t \<le> aterm a v"
  shows "take (Suc k) (alog b v) = take (Suc k) M"
proof -
  have k: "k < length M" using assms(3) by (simp add: live_pos_def)
  have kv: "k < length (alog a v)" using take_Suc_eq_length [OF assms(4) k] .
  from assms(1) show ?thesis
  proof cases
    case (append i s e)
    with assms(4) kv show ?thesis by auto
  next
    case (accept w M2 q)
    show ?thesis
    proof (cases "w = v")
      case True
      have M2: "take (Suc k) M2 = take (Suc k) M"
      proof (cases "t = aterm a v")
        case True
        with \<open>w = v\<close> accept assms(3) show ?thesis by (simp add: live_pos_def)
      next
        case False
        with assms(2,3,5) accept \<open>w = v\<close> show ?thesis unfolding inv_def inv_safe_def by (metis le_neq_implies_less)
      qed
      have "\<not> q \<le> k"
      proof
        assume "q \<le> k"
        moreover have "take (Suc k) (alog a v) = take (Suc k) M2" using assms(4) M2 by simp
        ultimately have "take (Suc q) (alog a v) = take (Suc q) M2" by (rule take_Suc_eq_mono [rotated])
        with accept True show False by simp
      qed
      with accept True M2 show ?thesis by (simp add: take_Suc_take)
    qed (use accept assms(4) in auto)
  qed (use assms(4) in auto)
qed

lemma astep_inv_keep:
  assumes "astep quorum a b" "inv quorum a"
  shows "inv_keep quorum b"
  unfolding inv_keep_def
proof (intro allI impI)
  fix t k M' v j
  assume live: "live_pos quorum b t k M'" and ack: "(t, v, j) \<in> ackH b" and kj: "k \<le> j"
  have vcur: "vlog_current b"
    using astep_vlog_current [OF assms(1)] assms(2) by (simp add: inv_def inv_vote_def)
  have novote: "vlog b u v = None" if "aterm b v \<le> t" "t < u" for u
    using vcur that unfolding vlog_current_def by (metis not_None_eq not_less order.trans)
  from live_pos_back [OF assms live] consider
      (old) M N where "live_pos quorum a t k M" "M' = M @ N"
    | (new) i where "t = aterm a i" "k = length (alog a i)" "alog b i = M'"
        "aterm b = aterm a" "llog a t = Some (alog a i)" "ackH b = insert (t, i, k) (ackH a)"
    by blast
  then show "take (Suc k) (alog b v) = take (Suc k) M' \<and>
      (\<forall>u K. t < u \<longrightarrow> vlog b u v = Some K \<longrightarrow> take (Suc k) K = take (Suc k) M')"
  proof cases
    case new
    have "(t, v, j) \<notin> ackH a"
      using assms(2) new(2,5) kj unfolding inv_def inv_ack_def by fastforce
    with ack new(6) have "v = i" by auto
    with new(1,3,4) novote show ?thesis by auto
  next
    case old
    have k: "k < length M" using old(1) by (simp add: live_pos_def)
    have M': "take (Suc k) M' = take (Suc k) M" using old(2) k by simp
    show ?thesis
    proof (cases "(t, v, j) \<in> ackH a")
      case True
      have tv: "t \<le> aterm a v" using assms(2) True unfolding inv_def inv_ack_def by blast
      have log: "take (Suc k) (alog a v) = take (Suc k) M"
        and vl: "\<And>u K. t < u \<Longrightarrow> vlog a u v = Some K \<Longrightarrow> take (Suc k) K = take (Suc k) M"
        using assms(2) old(1) True kj unfolding inv_def inv_keep_def by blast+
      have "take (Suc k) K = take (Suc k) M" if "t < u" "vlog b u v = Some K" for u K
        using assms(1) by cases (use that log vl in \<open>auto split: if_splits\<close>)
      with astep_alog_keeps [OF assms old(1) log tv] M' show ?thesis by auto
    next
      case False
      with astep_new_ack [OF assms(1) ack] have t: "t = aterm a v" "aterm b v = t" by auto
      have "take (Suc k) (alog b v) = take (Suc k) M"
        using assms(1)
      proof cases
        case (append i s e)
        with False ack have "v = i" "s = t" by auto
        moreover from this append assms(2) old(1) have "alog a v = M"
          by (auto simp: inv_def inv_lead_def leader_log_def live_pos_def)
        ultimately show ?thesis using append k by simp
      next
        case (ack s w M2 q)
        with False \<open>(t, v, j) \<in> ackH b\<close> have "w = v" "s = t" "q = j" by auto
        moreover from this ack old(1) have "M2 = M" by (simp add: live_pos_def)
        ultimately show ?thesis using ack take_Suc_eq_mono kj by auto
      qed (use False ack in auto)
      with t novote M' show ?thesis by auto
    qed
  qed
qed

lemma committed_live:
  assumes "inv_commit quorum a" "(t, k) \<in> commitH a"
  obtains M where "live_pos quorum a t k M"
  using assms unfolding inv_commit_def live_pos_def choosable_def by metis

lemma committed_in_later:
  assumes "inv quorum a" "(t, k) \<in> commitH a" "llog a t = Some M" "t \<le> u" "llog a u = Some U"
  shows "take (Suc k) U = take (Suc k) M"
proof -
  have "live_pos quorum a t k M"
    using committed_live [of a t k] assms(1-3) by (metis inv_def live_pos_def option.inject)
  then show ?thesis
    using assms unfolding inv_def inv_safe_def by (metis le_neq_implies_less option.inject)
qed

lemma astep_inv_commit:
  assumes "astep quorum a b" "inv quorum a"
  shows "inv_commit quorum b"
proof -
  have ext: "llog_ext a b" using astep_llog_ext [OF assms(1)] assms(2) by (simp add: inv_def)
  have decided: "\<exists>M Q. llog b t = Some M \<and> k < length M \<and> lTerm (M ! k) = t \<and>
      quorum Q \<and> (\<forall>v\<in>Q. \<exists>j\<ge>k. (t, v, j) \<in> ackH b)" if new: "(t, k) \<in> commitH b" for t k
  proof (cases "(t, k) \<in> commitH a")
    case True
    with assms(2) obtain M Q where M: "llog a t = Some M" "k < length M" "lTerm (M ! k) = t"
      and Q: "quorum Q" "\<forall>v\<in>Q. \<exists>j\<ge>k. (t, v, j) \<in> ackH a"
      unfolding inv_def inv_commit_def by blast
    from M(1) ext obtain N where "llog b t = Some (M @ N)" unfolding llog_ext_def by blast
    moreover have "\<forall>v\<in>Q. \<exists>j\<ge>k. (t, v, j) \<in> ackH b" using Q(2) astep_ackH_mono [OF assms(1)] by blast
    ultimately show ?thesis using M(2,3) Q(1)
      by (intro exI [of _ "M @ N"] exI [of _ Q]) (auto simp: nth_append)
  next
    case False
    with assms(1) new show ?thesis by cases auto
  qed
  have known: "\<exists>t k M. (t, k) \<in> commitH b \<and> t \<le> aterm b v \<and> acommit b v \<le> k \<and> llog b t = Some M \<and>
        take (Suc (acommit b v)) (alog b v) = take (Suc (acommit b v)) M" for v
  proof -
    obtain t k M where tk: "(t, k) \<in> commitH a" "t \<le> aterm a v" "acommit a v \<le> k" "llog a t = Some M"
      "take (Suc (acommit a v)) (alog a v) = take (Suc (acommit a v)) M"
      using assms(2) unfolding inv_def inv_commit_def by blast
    have kM: "k < length M" using assms(2) tk(1,4) unfolding inv_def inv_commit_def by fastforce
    obtain N where N: "llog b t = Some (M @ N)" using ext tk(4) unfolding llog_ext_def by blast
    have base: ?thesis if "acommit b v = acommit a v"
      "take (Suc (acommit a v)) (alog b v) = take (Suc (acommit a v)) M"
      using that tk N kM astep_aterm_mono [OF assms(1), of v] astep_commitH_mono [OF assms(1)]
      by (intro exI [of _ t] exI [of _ k] exI [of _ "M @ N"]) auto
    from assms(1) show ?thesis
    proof cases
      case (append i s e)
      have "acommit a v < length (alog a v)" using take_Suc_eq_length [OF tk(5)] tk(3) kM by simp
      with append tk(5) show ?thesis by (intro base) auto
    next
      case (accept w M2 q)
      show ?thesis
      proof (cases "w = v")
        case True
        have "take (Suc k) M2 = take (Suc k) M"
          using committed_in_later [OF assms(2) tk(1,4,2)] accept True by simp
        then have M2: "take (Suc (acommit a v)) M2 = take (Suc (acommit a v)) M"
          using take_Suc_eq_mono tk(3) by blast
        have "\<not> q \<le> acommit a v"
          using accept True M2 tk(5) take_Suc_eq_mono [of "acommit a v" "alog a v" M2 q] by auto
        with accept True M2 show ?thesis by (intro base) (auto simp: take_Suc_take)
      qed (rule base; simp add: accept tk(5))
    next
      case (learn s j w c M2)
      show ?thesis
      proof (cases "w = v")
        case True
        with learn show ?thesis by (intro exI [of _ s] exI [of _ j] exI [of _ M2]) auto
      qed (rule base; simp add: learn tk(5))
    qed (rule base; simp add: tk(5))+
  qed
  show ?thesis using decided known unfolding inv_commit_def by blast
qed

lemma astep_inv:
  assumes "astep quorum a b" "inv quorum a"
  shows "inv quorum b"
  using astep_inv_vote [OF assms(1)] astep_inv_lead [OF assms(1)] astep_inv_log [OF assms(1)]
    astep_inv_ack [OF assms(1)] astep_inv_safe [OF assms] astep_inv_keep [OF assms]
    astep_inv_commit [OF assms] assms(2)
  by (simp add: inv_def)


lemma committed_agree:
  assumes "inv quorum a" "(t, k) \<in> commitH a" "llog a t = Some M" "(u, l) \<in> commitH a" "llog a u = Some U"
    "i \<le> k" "i \<le> l"
  shows "take (Suc i) M = take (Suc i) U"
proof (cases "t \<le> u")
  case True
  from committed_in_later [OF assms(1-3) True assms(5)] assms(6) show ?thesis
    using take_Suc_eq_mono by metis
next
  case False
  then have "u \<le> t" by simp
  from committed_in_later [OF assms(1,4,5) this assms(3)] assms(7) show ?thesis
    using take_Suc_eq_mono by metis
qed

end

lemma inv_init:
  assumes "quorum Q"
  shows "inv quorum ainit"
proof -
  have fl: "from_leaders ainit [sentinel]"
    by (simp add: from_leaders_def ainit_def)
  have tu: "terms_upto 1 [sentinel]" by (simp add: terms_upto_def)
  have vote: "inv_vote ainit"
    by (simp add: inv_vote_def votes_current_def votes_recorded_def votes_once_def votes_up_to_date_def
        vlog_current_def clog_current_def candidate_log_def ainit_def)
  have lead: "inv_lead quorum ainit"
    by (simp add: inv_lead_def lead_elected_def lead_current_def llog_dom_def leader_log_def ainit_def)
  have log: "inv_log ainit"
    using fl tu by (simp add: inv_log_def ainit_def)
  have ack: "inv_ack ainit" by (simp add: inv_ack_def ainit_def)
  have safe: "inv_safe quorum ainit" by (auto simp: inv_safe_def live_pos_def ainit_def split: if_splits)
  have keep: "inv_keep quorum ainit" by (auto simp: inv_keep_def live_pos_def ainit_def split: if_splits)
  have commit: "inv_commit quorum ainit" using assms by (auto simp: inv_commit_def ainit_def)
  show ?thesis using vote lead log ack safe keep commit by (simp add: inv_def)
qed

section \<open>Runs of the protocol\<close>

definition areach :: "(nat set \<Rightarrow> bool) \<Rightarrow> 'c abs \<Rightarrow> bool" where
  "areach quorum a \<longleftrightarrow> (astep quorum)\<^sup>*\<^sup>* ainit a"

context quorum_system
begin

lemma asteps_inv: "(astep quorum)\<^sup>*\<^sup>* a b \<Longrightarrow> inv quorum a \<Longrightarrow> inv quorum b"
  by (induction rule: rtranclp_induct) (auto dest: astep_inv)

lemma areach_inv: "areach quorum a \<Longrightarrow> quorum Q \<Longrightarrow> inv quorum a"
  unfolding areach_def using asteps_inv inv_init by blast

end

section \<open>Every entry after the sentinel carries a command\<close>

definition cmds_ok :: "'c abs \<Rightarrow> bool" where
  "cmds_ok a \<longleftrightarrow> (\<forall>t M k. llog a t = Some M \<longrightarrow> 0 < k \<longrightarrow> k < length M \<longrightarrow> lCommand (M ! k) \<noteq> None)"

lemma from_leaders_cmds:
  assumes "cmds_ok a" "from_leaders a L" "0 < k" "k < length L"
  shows "lCommand (L ! k) \<noteq> None"
proof -
  from assms(2,4) obtain M where M: "llog a (lTerm (L ! k)) = Some M" "k < length M" "take (Suc k) L = take (Suc k) M"
    unfolding from_leaders_def by blast
  then have "L ! k = M ! k" using take_Suc_eq_nth by blast
  with assms(1,3) M(1,2) show ?thesis unfolding cmds_ok_def by metis
qed

lemma astep_cmds_ok:
  assumes "astep quorum a b" "inv quorum a" "cmds_ok a"
  shows "cmds_ok b"
  unfolding cmds_ok_def
proof (intro allI impI)
  fix t M k assume new: "llog b t = Some M" "0 < k" "k < length M"
  have old: "llog a t = Some M \<Longrightarrow> lCommand (M ! k) \<noteq> None"
    using assms(3) new(2,3) unfolding cmds_ok_def by blast
  have node: "k < length (alog a i) \<Longrightarrow> lCommand (alog a i ! k) \<noteq> None" for i
    using from_leaders_cmds [OF assms(3) _ new(2)] assms(2) unfolding inv_def inv_log_def by blast
  from assms(1) new show "lCommand (M ! k) \<noteq> None"
    by cases (use old node in \<open>auto simp: nth_append less_Suc_eq split: if_splits\<close>)
qed

context quorum_system
begin

lemma areach_cmds_ok:
  assumes "areach quorum a" "quorum Q"
  shows "cmds_ok a"
  using assms(1) unfolding areach_def
proof (induction rule: rtranclp_induct)
  case base
  then show ?case by (auto simp: cmds_ok_def ainit_def)
next
  case (step a b)
  then show ?case using astep_cmds_ok areach_inv [OF _ assms(2)] unfolding areach_def by blast
qed

end

end
