(* ===== verification/Persister.thy ===== *)
theory Persister
  imports Prelude
begin

text \<open>
  \<open>src/mit/src/raft/persister.go\<close>: the store that survives a crash of a server. It holds
  two byte strings, the encoded Raft state and a snapshot; every method runs under the mutex,
  so each is one atomic operation. The bytes are of an arbitrary type \<open>'b\<close>.
\<close>

section \<open>The persister\<close>

record 'b Persister =
  raftstate :: "'b list"
  snapshot :: "'b list"

definition MakePersister :: "'b Persister" where
  "MakePersister = \<lparr>raftstate = [], snapshot = []\<rparr>"

definition Copy :: "'b Persister \<Rightarrow> 'b Persister" where
  "Copy ps = (let np = MakePersister in np\<lparr>raftstate := raftstate ps, snapshot := snapshot ps\<rparr>)"

definition SaveRaftState :: "'b list \<Rightarrow> 'b Persister \<Rightarrow> 'b Persister" where
  "SaveRaftState d ps = ps\<lparr>raftstate := d\<rparr>"

definition ReadRaftState :: "'b Persister \<Rightarrow> 'b list" where
  "ReadRaftState ps = raftstate ps"

definition RaftStateSize :: "'b Persister \<Rightarrow> nat" where
  "RaftStateSize ps = length (raftstate ps)"

definition SaveSnapshot :: "'b list \<Rightarrow> 'b Persister \<Rightarrow> 'b Persister" where
  "SaveSnapshot s ps = ps\<lparr>snapshot := s\<rparr>"

definition ReadSnapshot :: "'b Persister \<Rightarrow> 'b list" where
  "ReadSnapshot ps = snapshot ps"

section \<open>The contract of a store with two cells\<close>

text \<open>
  What a client of the persister relies on: a read returns the last value written to the same
  cell, the two cells do not interfere, and a copy reads like the original.
\<close>

locale two_cell_store =
  fixes save1 save2 :: "'d \<Rightarrow> 's \<Rightarrow> 's"
    and read1 read2 :: "'s \<Rightarrow> 'd"
    and dup :: "'s \<Rightarrow> 's"
  assumes read1_save1: "read1 (save1 d s) = d"
    and read2_save1: "read2 (save1 d s) = read2 s"
    and read1_save2: "read1 (save2 d s) = read1 s"
    and read2_save2: "read2 (save2 d s) = d"
    and read1_dup: "read1 (dup s) = read1 s"
    and read2_dup: "read2 (dup s) = read2 s"
begin

text \<open>Whatever was saved last before a copy is what the copy returns, whatever happens to the
  original afterwards: the new instance of a crashed server starts from the saved state.\<close>

lemma dup_reads_last_save: "read1 (dup (save2 e (save1 d s))) = d \<and> read2 (dup (save2 e (save1 d s))) = e"
  by (simp add: read1_dup read2_dup read1_save2 read2_save2 read1_save1)

lemma saves_last_wins: "read1 (fold save1 (ds @ [d]) s) = d"
  by (simp add: read1_save1)

lemma saves_frame: "read2 (fold save1 ds s) = read2 s"
  by (induction ds arbitrary: s) (simp_all add: read2_save1)

end

interpretation persister_store:
  two_cell_store SaveRaftState SaveSnapshot ReadRaftState ReadSnapshot Copy
  by unfold_locales
    (simp_all add: SaveRaftState_def SaveSnapshot_def ReadRaftState_def ReadSnapshot_def Copy_def
      MakePersister_def)

end
