(* ===== verification/Raft.thy ===== *)
theory Raft
  imports Raft_Data Persister
begin

text \<open>
  One Raft peer, \<open>src/mit/src/raft/raft.go\<close>, function by function. The receiver
  \<open>*Raft\<close> is a record passed through; a function that can panic returns
  \<open>panic + _\<close>. The event loop \<open>run\<close> handles one tick, one received message or one
  command at a time, so each handler is one atomic step of the peer.

  Channels: what a handler hands to the goroutines that call other peers is appended to
  \<open>propc\<close>; what it sends to the applier goroutine \<open>stateMachine\<close> is appended to
  \<open>commitc\<close>. The function pointers \<open>tick\<close> and \<open>step\<close> are the fields
  \<open>tickf\<close> and \<open>stepf\<close>. The random numbers the peer will draw are the list
  \<open>globalRand\<close>. Log output, the unused channels and counters of the struct, and the
  mutex (never locked) have no counterpart. The slice of entries in an AppendEntries request
  is the value it has when the request is built.
\<close>

section \<open>State\<close>

datatype panic =
    PanicCommitTo | PanicStateMachine | PanicPrevLogIndex | PanicAppendLog
  | PanicReplyNextIndexHigh | PanicConflictCommitted | PanicLeaderCommit
  | PanicReplyNextIndexLow | PanicAppRespNextIndex | PanicUnsupportedCommand
  | PanicLeaderToCandidate | PanicFollowerToLeader | FatalCheckLog
  | IndexOutOfRange | IndexOutOfRangeRollback | SliceBounds

datatype tickFn = TickElection | TickHeartbeat

datatype stepFn = StepFollower | StepCandidate | StepLeader

datatype 'c gobval = GInt int | GLog "'c Log list"

record 'c Raft =
  peers :: nat
  persister :: "'c gobval Persister"
  me :: nat
  currentTerm :: nat
  votedFor :: "nat option"
  log :: "'c Log list"
  commitIndex :: nat
  lastApplied :: nat
  nextIndex :: "nat list"
  matchIndex :: "int list"
  state :: RaftState
  electionElapsed :: nat
  heartbeatElapsed :: nat
  randomizedElectionTimeout :: nat
  tickf :: tickFn
  lead :: "nat option"
  votes :: "(nat \<times> bool) list"
  stepf :: stepFn
  commitc :: "nat list"
  propc :: "'c Message list"
  replyNextIndex :: nat
  globalRand :: "nat list"

text \<open>\<open>Make\<close> sets the two timeouts and nothing changes them afterwards.\<close>

definition electionTimeout :: nat where "electionTimeout = 10"

definition heartbeatTimeout :: nat where "heartbeatTimeout = 5"

text \<open>
  \<open>GetState\<close> is called from outside the event loop and reads two fields without a lock: \<open>rt\<close> is
  the peer at the moment the term is read, \<open>rs\<close> at the moment the state is.
\<close>

definition GetState :: "'c Raft \<Rightarrow> 'c Raft \<Rightarrow> nat \<times> bool" where
  "GetState rt rs = (currentTerm rt, state rs = StateLeader)"

definition quorum :: "'c Raft \<Rightarrow> nat" where
  "quorum r = peers r div 2 + 1"

section \<open>Persistence\<close>

text \<open>
  gob: \<open>Encode\<close> appends one item to the buffer; \<open>Decode\<close> removes one and leaves its
  target unchanged if there is none or it has another type (the callers ignore the error).
\<close>

definition votedForInt :: "nat option \<Rightarrow> int" where
  "votedForInt v = (case v of None \<Rightarrow> -1 | Some i \<Rightarrow> int i)"

definition intVotedFor :: "int \<Rightarrow> nat option" where
  "intVotedFor i = (if i = -1 then None else Some (nat i))"

definition persist :: "'c Raft \<Rightarrow> 'c Raft" where
  "persist rf = rf\<lparr>persister := SaveRaftState
     [GInt (int (currentTerm rf)), GLog (log rf), GInt (votedForInt (votedFor rf))] (persister rf)\<rparr>"

fun decodeInt :: "'c gobval list \<Rightarrow> int \<Rightarrow> int \<times> 'c gobval list" where
  "decodeInt (GInt i # d) x = (i, d)"
| "decodeInt (GLog _ # d) x = (x, d)"
| "decodeInt [] x = (x, [])"

fun decodeLog :: "'c gobval list \<Rightarrow> 'c Log list \<Rightarrow> 'c Log list \<times> 'c gobval list" where
  "decodeLog (GLog l # d) x = (l, d)"
| "decodeLog (GInt _ # d) x = (x, d)"
| "decodeLog [] x = (x, [])"

definition readPersist :: "'c gobval list \<Rightarrow> 'c Raft \<Rightarrow> 'c Raft" where
  "readPersist d rf =
     (let (t, d) = decodeInt d (int (currentTerm rf));
          (l, d) = decodeLog d (log rf);
          (v, d) = decodeInt d (votedForInt (votedFor rf))
      in rf\<lparr>currentTerm := nat t, log := l, votedFor := intVotedFor v\<rparr>)"

section \<open>The log\<close>

definition log_at :: "nat \<Rightarrow> 'c Raft \<Rightarrow> panic + 'c Log" where
  "log_at i r = (if i < length (log r) then Inr (log r ! i) else Inl IndexOutOfRange)"

definition lastIndex :: "'c Raft \<Rightarrow> panic + nat" where
  "lastIndex r = (if log r = [] then Inl IndexOutOfRange
     else Inr (lIndex (log r ! (length (log r) - 1))))"

definition lastTerm :: "'c Raft \<Rightarrow> panic + nat" where
  "lastTerm r = (case lastIndex r of Inl e \<Rightarrow> Inl e | Inr i \<Rightarrow>
     case log_at i r of Inl e \<Rightarrow> Inl e | Inr l \<Rightarrow> Inr (lTerm l))"

definition matchTerm :: "nat \<Rightarrow> nat \<Rightarrow> 'c Raft \<Rightarrow> panic + bool" where
  "matchTerm index trm r = (case lastIndex r of Inl e \<Rightarrow> Inl e | Inr li \<Rightarrow>
     if index \<le> li
     then (case log_at index r of Inl e \<Rightarrow> Inl e | Inr l \<Rightarrow> Inr (lTerm l = trm))
     else Inr False)"

definition reqMoreUpToDate :: "RequestVoteArgs \<Rightarrow> 'c Raft \<Rightarrow> panic + bool" where
  "reqMoreUpToDate args rf =
     (if log rf = [] then Inl IndexOutOfRange
      else let lastLog = log rf ! (length (log rf) - 1);
               rlastTerm = rvLastLogTerm args;
               rlastIndex = rvLastLogIndex args
           in Inr (rlastTerm > lTerm lastLog \<or> (rlastTerm = lTerm lastLog \<and> rlastIndex \<ge> lIndex lastLog)))"

fun findConflict :: "'c Log list \<Rightarrow> 'c Raft \<Rightarrow> panic + nat" where
  "findConflict [] r = Inr 0"
| "findConflict (ne # ents) r = (case matchTerm (lIndex ne) (lTerm ne) r of
     Inl e \<Rightarrow> Inl e
   | Inr b \<Rightarrow> if \<not> b then Inr (lIndex ne) else findConflict ents r)"

definition appendLog :: "'c Log list \<Rightarrow> 'c Raft \<Rightarrow> panic + 'c Raft" where
  "appendLog ents r = (case ents of [] \<Rightarrow> Inr r | e # _ \<Rightarrow>
     if int (lIndex e) - 1 < int (commitIndex r) then Inl PanicAppendLog
     else if length (log r) < lIndex e then Inl SliceBounds
     else Inr (r\<lparr>log := take (lIndex e) (log r) @ ents\<rparr>))"

definition checkLog :: "'c Raft \<Rightarrow> panic + unit" where
  "checkLog rf = (if list_all (\<lambda>i. lIndex (log rf ! i) = i) [0..<length (log rf)]
     then Inr () else Inl FatalCheckLog)"

definition commitTo :: "nat \<Rightarrow> 'c Raft \<Rightarrow> panic + 'c Raft" where
  "commitTo tocommit r = (case lastIndex r of Inl e \<Rightarrow> Inl e | Inr li \<Rightarrow>
     if tocommit > li then Inl PanicCommitTo
     else if commitIndex r < tocommit
     then Inr (r\<lparr>commitIndex := tocommit, commitc := commitc r @ [tocommit]\<rparr>)
     else Inr r)"

definition updateCommitIndex :: "'c Raft \<Rightarrow> panic + 'c Raft" where
  "updateCommitIndex rf = (let mis = rev (sort (matchIndex rf)) in
     if length mis \<le> quorum rf - 1 then Inl IndexOutOfRange
     else let mci = mis ! (quorum rf - 1) in
       if mci > int (commitIndex rf)
       then (case log_at (nat mci) rf of Inl e \<Rightarrow> Inl e | Inr l \<Rightarrow>
         if lTerm l = currentTerm rf then commitTo (nat mci) rf else Inr rf)
       else Inr rf)"

section \<open>Roles\<close>

definition resetRandomizedElectionTimeout :: "'c Raft \<Rightarrow> 'c Raft" where
  "resetRandomizedElectionTimeout rf = (case globalRand rf of
     [] \<Rightarrow> rf\<lparr>randomizedElectionTimeout := electionTimeout\<rparr>
   | x # xs \<Rightarrow> rf\<lparr>randomizedElectionTimeout := electionTimeout + x mod electionTimeout,
       globalRand := xs\<rparr>)"

definition reset :: "nat \<Rightarrow> 'c Raft \<Rightarrow> 'c Raft" where
  "reset trm raft =
     (let r = (if currentTerm raft \<noteq> trm then raft\<lparr>currentTerm := trm, votedFor := None\<rparr> else raft);
          r = r\<lparr>lead := None, heartbeatElapsed := 0, electionElapsed := 0\<rparr>;
          r = resetRandomizedElectionTimeout r;
          r = r\<lparr>votes := [], replyNextIndex := 1\<rparr>;
          r = (if log r = [] then r\<lparr>log := [sentinel]\<rparr> else r)
      in r\<lparr>nextIndex := replicate (peers r) 0, matchIndex := replicate (peers r) 0\<rparr>)"

definition becomeFollower :: "nat \<Rightarrow> nat option \<Rightarrow> 'c Raft \<Rightarrow> 'c Raft" where
  "becomeFollower trm ld raft = (reset trm raft)
     \<lparr>tickf := TickElection, state := StateFollower, lead := ld, stepf := StepFollower\<rparr>"

definition becomeCandidate :: "'c Raft \<Rightarrow> panic + 'c Raft" where
  "becomeCandidate r = (if state r = StateLeader then Inl PanicLeaderToCandidate
     else Inr ((reset (currentTerm r + 1) r)
       \<lparr>tickf := TickElection, votedFor := Some (me r), state := StateCandidate,
        stepf := StepCandidate\<rparr>))"

definition becomeLeader :: "'c Raft \<Rightarrow> panic + 'c Raft" where
  "becomeLeader r = (if state r = StateFollower then Inl PanicFollowerToLeader
     else let r = (reset (currentTerm r) r)
            \<lparr>lead := Some (me r), state := StateLeader, tickf := TickHeartbeat,
             stepf := StepLeader\<rparr>
          in Inr (r\<lparr>nextIndex := replicate (peers r) (length (log r))\<rparr>))"

definition poll :: "nat \<Rightarrow> bool \<Rightarrow> 'c Raft \<Rightarrow> 'c Raft \<times> nat" where
  "poll i v r =
     (let r = (if map_of (votes r) i = None then r\<lparr>votes := votes r @ [(i, v)]\<rparr> else r)
      in (r, length (filter snd (votes r))))"

section \<open>Sending\<close>

fun mapGo :: "('x \<Rightarrow> panic + 'y) \<Rightarrow> 'x list \<Rightarrow> panic + 'y list" where
  "mapGo f [] = Inr []"
| "mapGo f (x # xs) = (case f x of Inl e \<Rightarrow> Inl e | Inr y \<Rightarrow>
     case mapGo f xs of Inl e \<Rightarrow> Inl e | Inr ys \<Rightarrow> Inr (y # ys))"

definition otherPeers :: "'c Raft \<Rightarrow> nat list" where
  "otherPeers rf = filter (\<lambda>i. i \<noteq> me rf) [0..<peers rf]"

definition voteRequest :: "'c Raft \<Rightarrow> nat \<Rightarrow> panic + 'c Message" where
  "voteRequest rf i = (case lastIndex rf of Inl e \<Rightarrow> Inl e | Inr li \<Rightarrow>
     case lastTerm rf of Inl e \<Rightarrow> Inl e | Inr lt \<Rightarrow>
     Inr \<lparr>mFrom = me rf, mTo = i, mTerm = currentTerm rf,
       mBody = VoteB \<lparr>rvTerm = currentTerm rf, rvCandidateId = me rf,
         rvLastLogIndex = li, rvLastLogTerm = lt\<rparr> zeroVoteReply\<rparr>)"

definition bcastRequestVoteRPC :: "'c Raft \<Rightarrow> panic + 'c Raft" where
  "bcastRequestVoteRPC rf = (let rf = persist rf in
     case mapGo (voteRequest rf) (otherPeers rf) of Inl e \<Rightarrow> Inl e
     | Inr ms \<Rightarrow> Inr (rf\<lparr>propc := propc rf @ ms\<rparr>))"

definition appendRequest :: "'c Raft \<Rightarrow> nat \<Rightarrow> panic + 'c Message" where
  "appendRequest rf i =
     (if length (nextIndex rf) \<le> i then Inl IndexOutOfRange
      else let prevLogIndex = int (nextIndex rf ! i) - 1 in
      case lastIndex rf of Inl e \<Rightarrow> Inl e | Inr li \<Rightarrow>
      if prevLogIndex < 0 \<or> prevLogIndex > int li then Inl PanicPrevLogIndex
      else case log_at (nat prevLogIndex) rf of Inl e \<Rightarrow> Inl e | Inr l \<Rightarrow>
      Inr \<lparr>mFrom = me rf, mTo = i, mTerm = currentTerm rf,
        mBody = AppB \<lparr>aeTerm = currentTerm rf, aeLeaderId = me rf, aeLeaderCommit = commitIndex rf,
          aePrevLogIndex = nat prevLogIndex, aePrevLogTerm = lTerm l,
          aeEntries = drop (nat prevLogIndex + 1) (log rf)\<rparr> zeroAppReply\<rparr>)"

definition bcastAppend :: "'c Raft \<Rightarrow> panic + 'c Raft" where
  "bcastAppend rf = (let rf = persist rf in
     case mapGo (appendRequest rf) (otherPeers rf) of Inl e \<Rightarrow> Inl e
     | Inr ms \<Rightarrow> Inr (rf\<lparr>propc := propc rf @ ms\<rparr>))"

section \<open>Timers\<close>

definition pastElectionTimeout :: "'c Raft \<Rightarrow> bool" where
  "pastElectionTimeout r \<longleftrightarrow> electionElapsed r \<ge> randomizedElectionTimeout r"

definition campaign :: "'c Raft \<Rightarrow> panic + 'c Raft" where
  "campaign r = (case becomeCandidate r of Inl e \<Rightarrow> Inl e | Inr r \<Rightarrow>
     let (r, gr) = poll (me r) True r in
     if quorum r = gr then becomeLeader r else bcastRequestVoteRPC r)"

definition tickElection :: "'c Raft \<Rightarrow> panic + 'c Raft" where
  "tickElection raft = (let r = raft\<lparr>electionElapsed := electionElapsed raft + 1\<rparr> in
     if pastElectionTimeout r then campaign (r\<lparr>electionElapsed := 0\<rparr>) else Inr r)"

definition tickHeartbeat :: "'c Raft \<Rightarrow> panic + 'c Raft" where
  "tickHeartbeat raft = (let r = raft\<lparr>heartbeatElapsed := heartbeatElapsed raft + 1\<rparr> in
     if heartbeatElapsed r \<ge> heartbeatTimeout then bcastAppend (r\<lparr>heartbeatElapsed := 0\<rparr>) else Inr r)"

definition tick :: "'c Raft \<Rightarrow> panic + 'c Raft" where
  "tick r = (case tickf r of TickElection \<Rightarrow> tickElection r | TickHeartbeat \<Rightarrow> tickHeartbeat r)"

section \<open>AppendEntries\<close>

text \<open>
  The scan of the rejecting branch walks back over the entries of the conflicting term. Its loop
  declares a new variable that shadows the outer \<open>ConflictIndex\<close>, so the reply carries
  the outer variable's 0 whatever the scan finds.
\<close>

fun conflictScan :: "'c Log list \<Rightarrow> nat \<Rightarrow> nat \<Rightarrow> panic + nat" where
  "conflictScan L ct 0 = Inr 0"
| "conflictScan L ct (Suc i) =
     (if i < length L
      then if lTerm (L ! i) \<noteq> ct then Inr (Suc i) else conflictScan L ct i
      else Inl IndexOutOfRange)"

definition mergeEntries :: "'c AppendEntiesArgs \<Rightarrow> 'c Raft \<Rightarrow> panic + 'c Raft" where
  "mergeEntries args r =
     (let offset = aePrevLogIndex args + 1 in
      case findConflict (aeEntries args) r of Inl e \<Rightarrow> Inl e | Inr ci \<Rightarrow>
      if ci = 0 then Inr r
      else if ci \<le> commitIndex r then Inl PanicConflictCommitted
      else if ci < offset \<or> length (aeEntries args) < ci - offset then Inl SliceBounds
      else appendLog (drop (ci - offset) (aeEntries args)) r)"

definition followCommit :: "nat \<Rightarrow> 'c Raft \<Rightarrow> panic + 'c Raft" where
  "followCommit leaderCommit r =
     (if leaderCommit > commitIndex r
      then (case lastIndex r of Inl e \<Rightarrow> Inl e | Inr li \<Rightarrow>
            if leaderCommit > li then Inl PanicLeaderCommit else commitTo leaderCommit r)
      else Inr r)"

definition acceptEntries ::
  "'c AppendEntiesArgs \<Rightarrow> AppendEntiesReply \<Rightarrow> 'c Raft \<Rightarrow> panic + 'c Raft \<times> AppendEntiesReply" where
  "acceptEntries args reply r =
     (let nexti = aePrevLogIndex args + length (aeEntries args) + 1 in
      case mergeEntries args r of Inl e \<Rightarrow> Inl e | Inr r \<Rightarrow>
      case checkLog r of Inl e \<Rightarrow> Inl e | Inr _ \<Rightarrow>
      case followCommit (aeLeaderCommit args) r of Inl e \<Rightarrow> Inl e | Inr r \<Rightarrow>
      Inr (r, reply\<lparr>aerTerm := currentTerm r, aerSuccess := True, aerNextIndex := nexti\<rparr>))"

definition rejectEntries ::
  "'c AppendEntiesArgs \<Rightarrow> AppendEntiesReply \<Rightarrow> 'c Raft \<Rightarrow> panic + 'c Raft \<times> AppendEntiesReply" where
  "rejectEntries args reply r = (case lastIndex r of Inl e \<Rightarrow> Inl e | Inr li \<Rightarrow>
     case (if aePrevLogIndex args \<le> li
           then (case log_at (aePrevLogIndex args) r of Inl e \<Rightarrow> Inl e | Inr l \<Rightarrow>
                 case conflictScan (log r) (lTerm l) (aePrevLogIndex args) of Inl e \<Rightarrow> Inl e | Inr _ \<Rightarrow>
                 Inr (reply\<lparr>aerConflictTerm := int (lTerm l), aerConflictIndex := 0\<rparr>))
           else Inr (reply\<lparr>aerConflictTerm := -1, aerConflictIndex := -1\<rparr>)) of
       Inl e \<Rightarrow> Inl e
     | Inr reply \<Rightarrow>
       let ni = min (int (commitIndex r) + 1) (int (aePrevLogIndex args) - 1) in
       Inr (r, reply\<lparr>aerTerm := currentTerm r, aerSuccess := False,
         aerNextIndex := (if ni < 1 then 1 else nat ni)\<rparr>))"

definition appendBody ::
  "'c AppendEntiesArgs \<Rightarrow> AppendEntiesReply \<Rightarrow> 'c Raft \<Rightarrow> panic + 'c Raft \<times> AppendEntiesReply" where
  "appendBody args reply r =
     (if aePrevLogIndex args < commitIndex r
      then Inr (r, reply\<lparr>aerTerm := currentTerm r, aerSuccess := True,
        aerNextIndex := commitIndex r + 1, aerFollowerCommitIndex := commitIndex r\<rparr>)
      else case (case matchTerm (aePrevLogIndex args) (aePrevLogTerm args) r of Inl e \<Rightarrow> Inl e
        | Inr b \<Rightarrow> if b then acceptEntries args reply r else rejectEntries args reply r) of Inl e \<Rightarrow> Inl e
        | Inr (r, reply) \<Rightarrow>
          if aerNextIndex reply < 1 then Inl PanicReplyNextIndexLow
          else Inr (r\<lparr>replyNextIndex := aerNextIndex reply\<rparr>,
                    reply\<lparr>aerFollowerCommitIndex := commitIndex r\<rparr>))"

definition handleAppendEntries ::
  "nat \<Rightarrow> 'c AppendEntiesArgs \<Rightarrow> AppendEntiesReply \<Rightarrow> 'c Raft \<Rightarrow> panic + 'c Raft \<times> AppendEntiesReply" where
  "handleAppendEntries from args reply r =
     (let r = r\<lparr>electionElapsed := 0, lead := Some from\<rparr> in
      case appendBody args reply r of Inl e \<Rightarrow> Inl e | Inr (r, reply) \<Rightarrow>
      case lastIndex r of Inl e \<Rightarrow> Inl e | Inr li \<Rightarrow>
      if aerNextIndex reply > li + 1 then Inl PanicReplyNextIndexHigh else Inr (r, reply))"

section \<open>Handling a message\<close>

definition grantVote :: "RequestVoteArgs \<Rightarrow> 'c Raft \<Rightarrow> panic + bool" where
  "grantVote args rf =
     (if votedFor rf = None \<or> votedFor rf = Some (rvCandidateId args)
      then reqMoreUpToDate args rf else Inr False)"

definition stepFollower :: "'c Raft \<Rightarrow> 'c Message \<Rightarrow> panic + 'c Raft \<times> 'c Message" where
  "stepFollower rf m = (case mBody m of
     VoteB args reply \<Rightarrow> (case grantVote args rf of Inl e \<Rightarrow> Inl e
       | Inr g \<Rightarrow> Inr (if g then rf\<lparr>electionElapsed := 0, votedFor := Some (rvCandidateId args)\<rparr> else rf,
           m\<lparr>mBody := VoteB args (reply\<lparr>rvrTerm := currentTerm rf, rvrVoteGranted := g\<rparr>)\<rparr>))
   | AppB args reply \<Rightarrow> (case handleAppendEntries (mFrom m) args reply rf of Inl e \<Rightarrow> Inl e
       | Inr (rf, reply) \<Rightarrow> Inr (rf, m\<lparr>mBody := AppB args reply\<rparr>))
   | _ \<Rightarrow> Inr (rf, m))"

definition stepCandidate :: "'c Raft \<Rightarrow> 'c Message \<Rightarrow> panic + 'c Raft \<times> 'c Message" where
  "stepCandidate rf m = (case mBody m of
     AppB args reply \<Rightarrow>
       let rf = becomeFollower (currentTerm rf) (Some (mFrom m)) rf in
       (case handleAppendEntries (mFrom m) args reply rf of Inl e \<Rightarrow> Inl e
        | Inr (rf, reply) \<Rightarrow> Inr (rf, m\<lparr>mBody := AppB args reply\<rparr>))
   | VoteB args reply \<Rightarrow>
       Inr (rf, m\<lparr>mBody := VoteB args (reply\<lparr>rvrTerm := currentTerm rf, rvrVoteGranted := False\<rparr>)\<rparr>)
   | VoteRespB args reply \<Rightarrow>
       let (rf, gr) = poll (mFrom m) (rvrVoteGranted reply) rf in
       if quorum rf = gr
       then (case becomeLeader rf of Inl e \<Rightarrow> Inl e | Inr rf \<Rightarrow>
             case bcastAppend rf of Inl e \<Rightarrow> Inl e | Inr rf \<Rightarrow> Inr (rf, m))
       else if quorum rf = length (votes rf) - gr
       then Inr (becomeFollower (currentTerm rf) None rf, m)
       else Inr (rf, m)
   | _ \<Rightarrow> Inr (rf, m))"

text \<open>
  The leader's search for the conflicting term in its own log: the loop runs down from
  \<open>PrevLogIndex - 1\<close> of the answered request.
\<close>

fun rollbackScan :: "'c Log list \<Rightarrow> int \<Rightarrow> nat \<Rightarrow> panic + nat" where
  "rollbackScan L ct 0 = Inr 0"
| "rollbackScan L ct (Suc i) =
     (if Suc i < length L
      then if int (lTerm (L ! Suc i)) = ct then Inr (Suc i) else rollbackScan L ct i
      else Inl IndexOutOfRangeRollback)"

definition handleAppResp ::
  "nat \<Rightarrow> 'c AppendEntiesArgs \<Rightarrow> AppendEntiesReply \<Rightarrow> 'c Raft \<Rightarrow> panic + 'c Raft" where
  "handleAppResp from args reply r = (case lastIndex r of Inl e \<Rightarrow> Inl e | Inr li \<Rightarrow>
     if aerNextIndex reply > li + 1 then Inl PanicAppRespNextIndex
     else if length (nextIndex r) \<le> from \<or> length (matchIndex r) \<le> from then Inl IndexOutOfRange
     else if aerSuccess reply
     then if aerNextIndex reply \<ge> nextIndex r ! from
       then updateCommitIndex (r\<lparr>nextIndex := (nextIndex r)[from := aerNextIndex reply],
              matchIndex := (matchIndex r)[from := int (aerNextIndex reply) - 1]\<rparr>)
       else Inr r
     else case rollbackScan (log r) (aerConflictTerm reply) (aePrevLogIndex args - 1) of Inl e \<Rightarrow> Inl e
       | Inr nexti \<Rightarrow>
         if nexti = 0 \<and> aerConflictIndex reply > 0
         then Inr (r\<lparr>nextIndex := (nextIndex r)[from := nat (aerConflictIndex reply)]\<rparr>)
         else Inr (r\<lparr>nextIndex := (nextIndex r)[from := aerNextIndex reply]\<rparr>))"

definition stepLeader :: "'c Raft \<Rightarrow> 'c Message \<Rightarrow> panic + 'c Raft \<times> 'c Message" where
  "stepLeader r m = (case mBody m of
     AppRespB args reply \<Rightarrow> (case handleAppResp (mFrom m) args reply r of Inl e \<Rightarrow> Inl e
       | Inr r \<Rightarrow> Inr (r, m))
   | _ \<Rightarrow> Inr (r, m))"

definition step :: "'c Raft \<Rightarrow> 'c Message \<Rightarrow> panic + 'c Raft \<times> 'c Message" where
  "step r m = (case stepf r of StepFollower \<Rightarrow> stepFollower r m
     | StepCandidate \<Rightarrow> stepCandidate r m | StepLeader \<Rightarrow> stepLeader r m)"

definition refuse :: "'c Raft \<Rightarrow> 'c Message \<Rightarrow> 'c Message" where
  "refuse r m = (case mBody m of
     AppB args reply \<Rightarrow> m\<lparr>mBody := AppB args (reply\<lparr>aerTerm := currentTerm r,
       aerNextIndex := commitIndex r + 1, aerSuccess := False\<rparr>)\<rparr>
   | VoteB args reply \<Rightarrow> m\<lparr>mBody := VoteB args (reply\<lparr>rvrTerm := currentTerm r,
       rvrVoteGranted := False\<rparr>)\<rparr>
   | _ \<Rightarrow> m)"

definition Step :: "'c Raft \<Rightarrow> 'c Message \<Rightarrow> panic + 'c Raft \<times> 'c Message" where
  "Step r m =
     (case (if mTerm m > currentTerm r then step (becomeFollower (mTerm m) None r) m
            else if mTerm m < currentTerm r then Inr (r, refuse r m)
            else step r m) of Inl e \<Rightarrow> Inl e
      | Inr (r, m) \<Rightarrow> Inr (persist r, m))"

section \<open>RPC entry points, commands, the applier\<close>

definition RequestVote :: "RequestVoteArgs \<Rightarrow> RequestVoteReply \<Rightarrow> 'c Raft \<Rightarrow> 'c Message" where
  "RequestVote args reply rf = \<lparr>mFrom = rvCandidateId args, mTo = me rf, mTerm = rvTerm args,
     mBody = VoteB args reply\<rparr>"

definition AppendEnties :: "'c AppendEntiesArgs \<Rightarrow> AppendEntiesReply \<Rightarrow> 'c Raft \<Rightarrow> 'c Message" where
  "AppendEnties args reply r = \<lparr>mFrom = aeLeaderId args, mTo = me r, mTerm = aeTerm args,
     mBody = AppB args reply\<rparr>"

definition handleStart :: "'c \<Rightarrow> 'c Raft \<Rightarrow> panic + 'c Raft \<times> (int \<times> int \<times> bool)" where
  "handleStart command r =
     (if state r \<noteq> StateLeader then Inr (r, (-1, -1, False))
      else let trm = currentTerm r; index = length (log r);
               r = r\<lparr>log := log r @ [\<lparr>lTerm = trm, lCommand = Some command, lIndex = index\<rparr>]\<rparr> in
        if length (nextIndex r) \<le> me r \<or> length (matchIndex r) \<le> me r then Inl IndexOutOfRange
        else case bcastAppend (r\<lparr>nextIndex := (nextIndex r)[me r := index + 1],
                    matchIndex := (matchIndex r)[me r := int index]\<rparr>) of Inl e \<Rightarrow> Inl e
          | Inr r \<Rightarrow> Inr (r, (int index, int trm, True)))"

definition handleState :: "'c Raft \<Rightarrow> nat \<times> bool" where
  "handleState r = (currentTerm r, state r = StateLeader)"

datatype 'c Command = CmdStart 'c | CmdState | CmdOther

definition handleCommand :: "'c Command \<Rightarrow> 'c Raft \<Rightarrow> panic + 'c Raft \<times> (int \<times> int \<times> bool)" where
  "handleCommand c r = (case c of
     CmdStart x \<Rightarrow> handleStart x r
   | CmdState \<Rightarrow> Inr (r, (0, int (fst (handleState r)), snd (handleState r)))
   | CmdOther \<Rightarrow> Inl PanicUnsupportedCommand)"

definition Start :: "'c \<Rightarrow> 'c Raft \<Rightarrow> panic + 'c Raft \<times> (int \<times> int \<times> bool)" where
  "Start command rf =
     (if state rf \<noteq> StateLeader then Inr (rf, (-1, -1, False)) else handleCommand (CmdStart command) rf)"

definition applyMsg :: "'c Raft \<Rightarrow> nat \<Rightarrow> panic + 'c ApplyMsg" where
  "applyMsg rf i = (case log_at i rf of Inl e \<Rightarrow> Inl e
     | Inr l \<Rightarrow> Inr \<lparr>amIndex = lIndex l, amCommand = lCommand l\<rparr>)"

definition stateMachine :: "'c Raft \<Rightarrow> panic + 'c Raft \<times> 'c ApplyMsg list" where
  "stateMachine rf = (case commitc rf of [] \<Rightarrow> Inr (rf, [])
     | ci # rest \<Rightarrow>
       let rf = rf\<lparr>commitc := rest\<rparr> in
       if ci > lastApplied rf
       then (case lastIndex rf of Inl e \<Rightarrow> Inl e | Inr li \<Rightarrow>
         if li < ci then Inl PanicStateMachine
         else case mapGo (applyMsg rf) [lastApplied rf + 1..<ci + 1] of Inl e \<Rightarrow> Inl e
           | Inr ms \<Rightarrow> Inr (rf\<lparr>lastApplied := ci\<rparr>, ms))
       else Inr (rf, []))"

definition zeroRaft :: "nat \<Rightarrow> 'c gobval Persister \<Rightarrow> nat \<Rightarrow> nat list \<Rightarrow> 'c Raft" where
  "zeroRaft n ps m rnd = \<lparr>peers = n, persister = ps, me = m, currentTerm = 0, votedFor = Some 0,
     log = [], commitIndex = 0, lastApplied = 0, nextIndex = [], matchIndex = [],
     state = StateFollower, electionElapsed = 0, heartbeatElapsed = 0,
     randomizedElectionTimeout = 0, tickf = TickElection, lead = Some 0, votes = [],
     stepf = StepFollower, commitc = [], propc = [], replyNextIndex = 0, globalRand = rnd\<rparr>"

definition Make :: "nat \<Rightarrow> nat \<Rightarrow> 'c gobval Persister \<Rightarrow> nat list \<Rightarrow> 'c Raft" where
  "Make n m ps rnd = readPersist (ReadRaftState ps) (becomeFollower 1 None (zeroRaft n ps m rnd))"

end
