(* ===== verification/Raft_Local.thy ===== *)
theory Raft_Local
  imports Raft
begin

text \<open>
  The functional behaviour of the handlers of one peer: what each computes on a well-formed
  log, which fields it leaves alone, and that encoding the persistent state and decoding it
  again restores it.
\<close>

section \<open>Log operations on a well-formed log\<close>

lemma lastIndex_wf [log_simps]: "wf_log (log r) \<Longrightarrow> lastIndex r = Inr (length (log r) - 1)"
  by (simp add: lastIndex_def wf_log_def)

lemma log_at_lt [log_simps]: "i < length (log r) \<Longrightarrow> log_at i r = Inr (log r ! i)"
  by (simp add: log_at_def)

lemma lastTerm_wf [log_simps]: "wf_log (log r) \<Longrightarrow> lastTerm r = Inr (lTerm (last (log r)))"
  by (simp add: lastTerm_def lastIndex_wf log_at_def wf_log_not_Nil last_conv_nth)

lemma matchTerm_wf [log_simps]:
  "wf_log (log r) \<Longrightarrow> matchTerm i t r = Inr (i < length (log r) \<and> lTerm (log r ! i) = t)"
  by (cases "log r") (auto simp: matchTerm_def lastIndex_wf log_at_def wf_log_def less_Suc_eq_le)

lemma reqMoreUpToDate_wf [log_simps]:
  "wf_log (log r) \<Longrightarrow> reqMoreUpToDate args r =
     Inr (lTerm (last (log r)) < rvLastLogTerm args \<or>
          rvLastLogTerm args = lTerm (last (log r)) \<and> length (log r) - 1 \<le> rvLastLogIndex args)"
  by (simp add: reqMoreUpToDate_def Let_def wf_log_not_Nil wf_log_last last_conv_nth wf_log_nth)

lemma checkLog_wf [log_simps]: "wf_log (log r) \<Longrightarrow> checkLog r = Inr ()"
  by (auto simp: checkLog_def wf_log_def list_all_iff)

lemma checkLog_iff: "checkLog r = Inr () \<longleftrightarrow> (\<forall>i < length (log r). lIndex (log r ! i) = i)"
  by (auto simp: checkLog_def list_all_iff)

lemma commitTo_wf [log_simps]:
  "wf_log (log r) \<Longrightarrow> c < length (log r) \<Longrightarrow> commitTo c r =
     Inr (if commitIndex r < c then r\<lparr>commitIndex := c, commitc := commitc r @ [c]\<rparr> else r)"
  by (cases "log r") (auto simp: commitTo_def lastIndex_wf)

lemma mapGo_Inr: "(\<And>x. x \<in> set xs \<Longrightarrow> f x = Inr (g x)) \<Longrightarrow> mapGo f xs = Inr (map g xs)"
  by (induction xs) auto

lemma conflictScan_total: "i \<le> length L \<Longrightarrow> \<exists>j. conflictScan L ct i = Inr j"
  by (induction i) auto

lemma rollbackScan_total: "i < length L \<Longrightarrow> \<exists>j. rollbackScan L ct i = Inr j"
  by (induction i) auto

section \<open>Merging the entries of an AppendEntries request\<close>

text \<open>
  \<open>findConflict\<close> compares terms only. With log matching between the peer's log \<open>L\<close>
  and the sender's log \<open>M\<close>, finding no conflict means the two agree up to the last entry
  sent, and cutting at the conflict and appending gives the sender's prefix.
\<close>

definition matching :: "'c Log list \<Rightarrow> 'c Log list \<Rightarrow> bool" where
  "matching L M \<longleftrightarrow> (\<forall>i. i < length L \<longrightarrow> i < length M \<longrightarrow> lTerm (L ! i) = lTerm (M ! i) \<longrightarrow>
     take (Suc i) L = take (Suc i) M)"

lemma findConflict_segment:
  assumes "wf_log (log r)" "wf_log M" "matching (log r) M" "p + n < length M"
    "take (Suc p) (log r) = take (Suc p) M"
  shows "(take (Suc (p + n)) (log r) = take (Suc (p + n)) M \<and>
           findConflict (take n (drop (Suc p) M)) r = Inr 0) \<or>
         (\<exists>ci. findConflict (take n (drop (Suc p) M)) r = Inr ci \<and> p < ci \<and> ci \<le> p + n \<and>
           ci \<le> length (log r) \<and> take ci (log r) = take ci M \<and>
           take (Suc ci) (log r) \<noteq> take (Suc ci) M)"
  using assms(4,5)
proof (induction n arbitrary: p)
  case 0
  then show ?case by simp
next
  case (Suc n)
  have p: "Suc p < length M" using Suc.prems(1) by simp
  have L: "Suc p \<le> length (log r)" using take_Suc_eq_length [OF Suc.prems(2)] p by simp
  have es: "take (Suc n) (drop (Suc p) M) = M ! Suc p # take n (drop (Suc (Suc p)) M)"
    using p by (simp add: Cons_nth_drop_Suc [symmetric])
  have idx: "lIndex (M ! Suc p) = Suc p" using assms(2) p by (simp add: wf_log_nth)
  show ?case
  proof (cases "Suc p < length (log r) \<and> lTerm (log r ! Suc p) = lTerm (M ! Suc p)")
    case True
    then have "take (Suc (Suc p)) (log r) = take (Suc (Suc p)) M"
      using assms(3) p by (simp add: matching_def)
    with Suc.IH [of "Suc p"] Suc.prems(1) True show ?thesis
      by (auto simp: es idx matchTerm_wf [OF assms(1)])
  next
    case False
    have "take (Suc (Suc p)) (log r) \<noteq> take (Suc (Suc p)) M"
    proof
      assume eq: "take (Suc (Suc p)) (log r) = take (Suc (Suc p)) M"
      have "Suc p < length (log r)" using take_Suc_eq_length [OF eq] p by simp
      moreover have "log r ! Suc p = M ! Suc p" using take_Suc_eq_nth [OF eq] by simp
      ultimately show False using False by simp
    qed
    moreover have "findConflict (take (Suc n) (drop (Suc p) M)) r = Inr (Suc p)"
      using False by (auto simp: es idx matchTerm_wf [OF assms(1)])
    ultimately show ?thesis using L Suc.prems(2) by auto
  qed
qed

lemma take_append_segment:
  assumes "p < ci" "ci \<le> p + n" "p + n < length M" "ci \<le> length L" "take ci L = take ci M"
  shows "take ci L @ drop (ci - Suc p) (take n (drop (Suc p) M)) = take (Suc (p + n)) M"
proof -
  have "drop (ci - Suc p) (take n (drop (Suc p) M)) = take (Suc (p + n) - ci) (drop ci M)"
    using assms by (simp add: drop_take add.commute)
  then have "take ci L @ drop (ci - Suc p) (take n (drop (Suc p) M)) = take ci M @ take (Suc (p + n) - ci) (drop ci M)"
    using assms by simp
  also have "\<dots> = take (ci + (Suc (p + n) - ci)) M" by (simp only: take_add)
  finally show ?thesis using assms by simp
qed

section \<open>Frame conditions\<close>

lemma persist_fields [simp, frame_simps]:
  "peers (persist r) = peers r" "me (persist r) = me r" "currentTerm (persist r) = currentTerm r"
  "votedFor (persist r) = votedFor r" "log (persist r) = log r" "commitIndex (persist r) = commitIndex r"
  "lastApplied (persist r) = lastApplied r" "nextIndex (persist r) = nextIndex r"
  "matchIndex (persist r) = matchIndex r" "state (persist r) = state r" "votes (persist r) = votes r"
  "stepf (persist r) = stepf r" "tickf (persist r) = tickf r" "commitc (persist r) = commitc r"
  "propc (persist r) = propc r"
  by (simp_all add: persist_def)

lemma resetRandomizedElectionTimeout_fields [simp]:
  "peers (resetRandomizedElectionTimeout r) = peers r" "me (resetRandomizedElectionTimeout r) = me r"
  "currentTerm (resetRandomizedElectionTimeout r) = currentTerm r"
  "votedFor (resetRandomizedElectionTimeout r) = votedFor r"
  "log (resetRandomizedElectionTimeout r) = log r"
  "commitIndex (resetRandomizedElectionTimeout r) = commitIndex r"
  "lastApplied (resetRandomizedElectionTimeout r) = lastApplied r"
  "commitc (resetRandomizedElectionTimeout r) = commitc r"
  "propc (resetRandomizedElectionTimeout r) = propc r"
  "persister (resetRandomizedElectionTimeout r) = persister r"
  "state (resetRandomizedElectionTimeout r) = state r"
  by (simp_all add: resetRandomizedElectionTimeout_def split: list.splits)

lemma reset_fields [simp]:
  "peers (reset t r) = peers r" "me (reset t r) = me r" "currentTerm (reset t r) = t"
  "votedFor (reset t r) = (if currentTerm r = t then votedFor r else None)"
  "log (reset t r) = (if log r = [] then [sentinel] else log r)"
  "commitIndex (reset t r) = commitIndex r" "lastApplied (reset t r) = lastApplied r"
  "commitc (reset t r) = commitc r" "propc (reset t r) = propc r"
  "persister (reset t r) = persister r" "votes (reset t r) = []"
  "nextIndex (reset t r) = replicate (peers r) 0" "matchIndex (reset t r) = replicate (peers r) 0"
  by (simp_all add: reset_def Let_def)

lemma becomeFollower_fields [simp]:
  "peers (becomeFollower t l r) = peers r" "me (becomeFollower t l r) = me r"
  "currentTerm (becomeFollower t l r) = t"
  "votedFor (becomeFollower t l r) = (if currentTerm r = t then votedFor r else None)"
  "log (becomeFollower t l r) = (if log r = [] then [sentinel] else log r)"
  "commitIndex (becomeFollower t l r) = commitIndex r"
  "lastApplied (becomeFollower t l r) = lastApplied r"
  "commitc (becomeFollower t l r) = commitc r" "propc (becomeFollower t l r) = propc r"
  "persister (becomeFollower t l r) = persister r" "votes (becomeFollower t l r) = []"
  "nextIndex (becomeFollower t l r) = replicate (peers r) 0"
  "matchIndex (becomeFollower t l r) = replicate (peers r) 0"
  "state (becomeFollower t l r) = StateFollower" "stepf (becomeFollower t l r) = StepFollower"
  "tickf (becomeFollower t l r) = TickElection"
  by (simp_all add: becomeFollower_def)

section \<open>Persistence\<close>

text \<open>What the persister holds is the state the peer would restart with.\<close>

definition encoded :: "'c Raft \<Rightarrow> 'c gobval list" where
  "encoded r = [GInt (int (currentTerm r)), GLog (log r), GInt (votedForInt (votedFor r))]"

lemma intVotedFor_votedForInt [simp]: "intVotedFor (votedForInt v) = v"
  by (cases v) (simp_all add: intVotedFor_def votedForInt_def)

lemma ReadRaftState_persist [simp]: "ReadRaftState (persister (persist r)) = encoded r"
  by (simp add: persist_def encoded_def persister_store.read1_save1)

lemma readPersist_encoded:
  "readPersist (encoded r) f = f\<lparr>currentTerm := currentTerm r, log := log r, votedFor := votedFor r\<rparr>"
  by (simp add: readPersist_def encoded_def)

lemma readPersist_Nil: "readPersist [] f = f"
  by (simp add: readPersist_def)

end
