(* ===== verification/Raft_System.thy ===== *)
theory Raft_System
  imports Raft_Local
begin

text \<open>
  A cluster of peers over an unreliable network, as a transition function on events. An event
  is what the \<open>select\<close> of a peer's \<open>run\<close> loop, the goroutines around it or the
  environment can do next: a clock tick, the delivery of a message, a \<open>Start\<close> call, the
  applier taking the next commit index, the peer being killed, a restart from the persister.
  Messages are never removed from the network, so every event sequence is a schedule with
  arbitrary loss, delay, reordering and duplication, of requests and of replies.
\<close>

section \<open>State and events\<close>

record 'c Sys =
  node :: "nat \<Rightarrow> 'c Raft"
  down :: "nat list"
  net :: "'c Message list"
  applied :: "(nat \<times> 'c ApplyMsg) list"
  panics :: "(nat \<times> panic) list"

text \<open>
  \<open>applied\<close> records every message a peer has put on its \<open>applyCh\<close>, and
  \<open>panics\<close> every panic that ended a peer.
\<close>

datatype 'c event =
    ETick nat
  | EDeliver "'c Message"
  | EStart nat 'c
  | EApply nat
  | EKill nat
  | ERestart nat "nat list"
  | ERand nat "nat list"

definition init_sys :: "nat \<Rightarrow> (nat \<Rightarrow> nat list) \<Rightarrow> 'c Sys" where
  "init_sys n rnd = \<lparr>node = (\<lambda>i. Make n i MakePersister (rnd i)), down = [], net = [],
     applied = [], panics = []\<rparr>"

section \<open>Moving messages\<close>

text \<open>\<open>serveChannels\<close> sends everything the peer has queued.\<close>

definition serveChannels :: "nat \<Rightarrow> 'c Raft \<Rightarrow> 'c Sys \<Rightarrow> 'c Sys" where
  "serveChannels i r s = s\<lparr>node := (node s)(i := r\<lparr>propc := []\<rparr>), net := net s @ propc r\<rparr>"

definition crash :: "nat \<Rightarrow> panic \<Rightarrow> 'c Sys \<Rightarrow> 'c Sys" where
  "crash i e s = s\<lparr>down := i # down s, panics := panics s @ [(i, e)]\<rparr>"

text \<open>
  The goroutine that made the call turns the filled-in reply into a message for its own peer.
\<close>

definition respond :: "'c Message \<Rightarrow> 'c Message list" where
  "respond m = (case mBody m of
     VoteB args reply \<Rightarrow> [\<lparr>mFrom = mTo m, mTo = mFrom m, mTerm = rvrTerm reply, mBody = VoteRespB args reply\<rparr>]
   | AppB args reply \<Rightarrow> [\<lparr>mFrom = mTo m, mTo = mFrom m, mTerm = aerTerm reply, mBody = AppRespB args reply\<rparr>]
   | _ \<Rightarrow> [])"

text \<open>A request reaches the RPC handler, which builds the message for \<open>recvc\<close>.\<close>

definition receive :: "'c Message \<Rightarrow> 'c Raft \<Rightarrow> 'c Message" where
  "receive m r = (case mBody m of
     VoteB args _ \<Rightarrow> RequestVote args zeroVoteReply r
   | AppB args _ \<Rightarrow> AppendEnties args zeroAppReply r
   | _ \<Rightarrow> m)"

section \<open>The transition function\<close>

text \<open>\<open>None\<close> means that the event cannot happen now.\<close>

definition sys_step :: "nat \<Rightarrow> 'c event \<Rightarrow> 'c Sys \<Rightarrow> 'c Sys option" where
  "sys_step n ev s = (case ev of
     ETick i \<Rightarrow> if i < n \<and> i \<notin> set (down s)
       then Some (case tick (node s i) of Inl e \<Rightarrow> crash i e s | Inr r \<Rightarrow> serveChannels i r s) else None
   | EDeliver m \<Rightarrow> let i = mTo m in if i < n \<and> i \<notin> set (down s) \<and> m \<in> set (net s)
       then Some (case Step (node s i) (receive m (node s i)) of Inl e \<Rightarrow> crash i e s
         | Inr (r, m') \<Rightarrow> (serveChannels i r s)\<lparr>net := net s @ propc r @ respond m'\<rparr>) else None
   | EStart i c \<Rightarrow> if i < n \<and> i \<notin> set (down s)
       then Some (case Start c (node s i) of Inl e \<Rightarrow> crash i e s | Inr (r, _) \<Rightarrow> serveChannels i r s) else None
   | EApply i \<Rightarrow> if i < n \<and> i \<notin> set (down s)
       then Some (case stateMachine (node s i) of Inl e \<Rightarrow> crash i e s
         | Inr (r, ms) \<Rightarrow> (serveChannels i r s)\<lparr>applied := applied s @ map (Pair i) ms\<rparr>) else None
   | EKill i \<Rightarrow> if i < n then Some (s\<lparr>down := i # down s\<rparr>) else None
   | ERestart i rnd \<Rightarrow> if i < n \<and> i \<in> set (down s)
       then Some (s\<lparr>node := (node s)(i := Make n i (Copy (persister (node s i))) rnd),
         down := removeAll i (down s)\<rparr>) else None
   | ERand i rnd \<Rightarrow> if i < n then Some (s\<lparr>node := (node s)(i := (node s i)\<lparr>globalRand := rnd\<rparr>)\<rparr>) else None)"

fun sys_run :: "nat \<Rightarrow> 'c event list \<Rightarrow> 'c Sys \<Rightarrow> 'c Sys option" where
  "sys_run n [] s = Some s"
| "sys_run n (ev # evs) s = (case sys_step n ev s of None \<Rightarrow> None | Some s' \<Rightarrow> sys_run n evs s')"

inductive reachable :: "nat \<Rightarrow> 'c Sys \<Rightarrow> bool" for n where
  init: "reachable n (init_sys n rnd)"
| more: "reachable n s \<Longrightarrow> sys_step n ev s = Some s' \<Longrightarrow> reachable n s'"

lemma sys_run_reachable: "reachable n s \<Longrightarrow> sys_run n evs s = Some s' \<Longrightarrow> reachable n s'"
  by (induction evs arbitrary: s) (auto split: option.splits intro: reachable.more)

lemma sys_run_append:
  "sys_run n (xs @ ys) s = (case sys_run n xs s of None \<Rightarrow> None | Some s' \<Rightarrow> sys_run n ys s')"
  by (induction xs arbitrary: s) (auto split: option.splits)

text \<open>Case rule: what an event that happened was, and its effect.\<close>

end
