(* ===== verification/Raft_Refinement.thy ===== *)
theory Raft_Refinement
  imports Raft_Spec Raft_System
begin

text \<open>
  The peers of \<open>raft.go\<close> implement the abstract protocol of \<open>Raft_Spec\<close>: a
  relation between a peer's record and the abstract state, a validity predicate for every
  message on the network, and for each handler the abstract steps it performs and the fact that
  it does not panic.
\<close>

section \<open>The relation\<close>

definition roles_agree :: "'c Raft \<Rightarrow> bool" where
  "roles_agree r \<longleftrightarrow> (case state r of
     StateFollower \<Rightarrow> stepf r = StepFollower \<and> tickf r = TickElection
   | StateCandidate \<Rightarrow> stepf r = StepCandidate \<and> tickf r = TickElection
   | StateLeader \<Rightarrow> stepf r = StepLeader \<and> tickf r = TickHeartbeat)"

definition node_wf :: "nat \<Rightarrow> nat \<Rightarrow> 'c Raft \<Rightarrow> bool" where
  "node_wf n i r \<longleftrightarrow> me r = i \<and> peers r = n \<and> wf_log (log r) \<and> length (nextIndex r) = n \<and>
     length (matchIndex r) = n \<and> roles_agree r \<and> distinct (map fst (votes r)) \<and>
     lastApplied r \<le> commitIndex r \<and> (\<forall>c \<in> set (commitc r). c \<le> commitIndex r)"

definition same_state :: "'c abs \<Rightarrow> nat \<Rightarrow> 'c Raft \<Rightarrow> bool" where
  "same_state a i r \<longleftrightarrow> aterm a i = currentTerm r \<and> avote a i = votedFor r \<and> alog a i = log r \<and>
     acommit a i = commitIndex r \<and> arole a i = state r"

definition votes_ok :: "nat \<Rightarrow> 'c abs \<Rightarrow> nat \<Rightarrow> 'c Raft \<Rightarrow> bool" where
  "votes_ok n a i r \<longleftrightarrow> (state r = StateCandidate \<longrightarrow>
     (\<forall>v. (v, True) \<in> set (votes r) \<longrightarrow> v < n \<and> (currentTerm r, v, i) \<in> votedH a))"

definition acks_ok :: "nat \<Rightarrow> 'c abs \<Rightarrow> 'c Raft \<Rightarrow> bool" where
  "acks_ok n a r \<longleftrightarrow> (state r = StateLeader \<longrightarrow>
     (\<forall>j < n. 1 \<le> nextIndex r ! j \<and> nextIndex r ! j \<le> length (log r) \<and>
        (0 < matchIndex r ! j \<longrightarrow> (\<exists>q. matchIndex r ! j \<le> int q \<and> (currentTerm r, j, q) \<in> ackH a))))"

definition rep :: "nat \<Rightarrow> 'c abs \<Rightarrow> nat \<Rightarrow> 'c Raft \<Rightarrow> bool" where
  "rep n a i r \<longleftrightarrow> node_wf n i r \<and> same_state a i r \<and> votes_ok n a i r \<and> acks_ok n a r"

text \<open>A position is known to be committed in a term up to \<open>t\<close>.\<close>

definition known_commit :: "'c abs \<Rightarrow> nat \<Rightarrow> nat \<Rightarrow> bool" where
  "known_commit a t c \<longleftrightarrow> (\<exists>t' k. (t', k) \<in> commitH a \<and> t' \<le> t \<and> c \<le> k)"

definition vote_ok :: "nat \<Rightarrow> 'c abs \<Rightarrow> RequestVoteArgs \<Rightarrow> bool" where
  "vote_ok n a args \<longleftrightarrow> rvCandidateId args < n \<and> (\<exists>L. clog a (rvTerm args) (rvCandidateId args) = Some L \<and>
     rvLastLogIndex args = length L - 1 \<and> rvLastLogTerm args = lTerm (last L))"

definition app_ok :: "nat \<Rightarrow> 'c abs \<Rightarrow> 'c AppendEntiesArgs \<Rightarrow> bool" where
  "app_ok n a args \<longleftrightarrow> aeLeaderId args < n \<and> known_commit a (aeTerm args) (aeLeaderCommit args) \<and>
     aeLeaderCommit args \<le> aePrevLogIndex args + length (aeEntries args) \<and>
     (\<exists>M. llog a (aeTerm args) = Some M \<and> aePrevLogIndex args + length (aeEntries args) < length M \<and>
        aePrevLogTerm args = lTerm (M ! aePrevLogIndex args) \<and>
        aeEntries args = take (length (aeEntries args)) (drop (Suc (aePrevLogIndex args)) M))"

definition vote_resp_ok :: "nat \<Rightarrow> 'c abs \<Rightarrow> nat \<Rightarrow> nat \<Rightarrow> RequestVoteReply \<Rightarrow> bool" where
  "vote_resp_ok n a from to reply \<longleftrightarrow> from < n \<and>
     (rvrVoteGranted reply \<longrightarrow> (rvrTerm reply, from, to) \<in> votedH a)"

definition app_resp_ok :: "nat \<Rightarrow> 'c abs \<Rightarrow> nat \<Rightarrow> AppendEntiesReply \<Rightarrow> bool" where
  "app_resp_ok n a from reply \<longleftrightarrow> from < n \<and> (aerTerm reply = 0 \<or> 1 \<le> aerNextIndex reply \<and>
     (if aerSuccess reply then (aerTerm reply, from, aerNextIndex reply - 1) \<in> ackH a
      else aerConflictIndex reply \<le> 0 \<and>
        (known_commit a (aerTerm reply) (aerNextIndex reply - 1) \<or>
         (\<exists>M. llog a (aerTerm reply) = Some M \<and> aerNextIndex reply \<le> length M))))"

definition msg_ok :: "nat \<Rightarrow> 'c abs \<Rightarrow> 'c Message \<Rightarrow> bool" where
  "msg_ok n a m \<longleftrightarrow> (case mBody m of
     VoteB args reply \<Rightarrow> vote_ok n a args
   | AppB args reply \<Rightarrow> app_ok n a args
   | VoteRespB args reply \<Rightarrow> mTerm m = rvrTerm reply \<and> vote_resp_ok n a (mFrom m) (mTo m) reply
   | AppRespB args reply \<Rightarrow> mTerm m = aerTerm reply \<and> app_resp_ok n a (mFrom m) reply)"

text \<open>The persister holds what the peer knows.\<close>

definition durable :: "'c Raft \<Rightarrow> bool" where
  "durable r \<longleftrightarrow> ReadRaftState (persister r) = encoded r \<or>
     ReadRaftState (persister r) = [] \<and> currentTerm r = 1 \<and> votedFor r = None \<and> log r = [sentinel]"

section \<open>Abstract runs of one peer\<close>

definition only_node :: "nat \<Rightarrow> 'c abs \<Rightarrow> 'c abs \<Rightarrow> bool" where
  "only_node i a b \<longleftrightarrow> (\<forall>j. j \<noteq> i \<longrightarrow> aterm b j = aterm a j \<and> avote b j = avote a j \<and>
     alog b j = alog a j \<and> acommit b j = acommit a j \<and> arole b j = arole a j)"

definition nstep :: "nat \<Rightarrow> nat \<Rightarrow> 'c abs \<Rightarrow> 'c abs \<Rightarrow> bool" where
  "nstep n i a b \<longleftrightarrow> astep (is_quorum n) a b \<and> only_node i a b"

abbreviation nsteps :: "nat \<Rightarrow> nat \<Rightarrow> 'c abs \<Rightarrow> 'c abs \<Rightarrow> bool" where
  "nsteps n i \<equiv> (nstep n i)\<^sup>*\<^sup>*"

abbreviation ainv :: "nat \<Rightarrow> 'c abs \<Rightarrow> bool" where
  "ainv n \<equiv> inv (is_quorum n)"

definition history_grows :: "'c abs \<Rightarrow> 'c abs \<Rightarrow> bool" where
  "history_grows a b \<longleftrightarrow> votedH a \<subseteq> votedH b \<and> ackH a \<subseteq> ackH b \<and> commitH a \<subseteq> commitH b \<and>
     (\<forall>t c L. clog a t c = Some L \<longrightarrow> clog b t c = Some L) \<and> llog_ext a b \<and>
     (\<forall>t i. leadH a t = Some i \<longrightarrow> leadH b t = Some i)"

lemma llog_ext_refl [simp, intro]: "llog_ext a a"
  by (simp add: llog_ext_def)

lemma llog_ext_trans: "llog_ext a b \<Longrightarrow> llog_ext b c \<Longrightarrow> llog_ext a c"
  unfolding llog_ext_def by (metis append.assoc)

lemma history_grows_refl [simp]: "history_grows a a"
  by (simp add: history_grows_def)

lemma history_grows_trans: "history_grows a b \<Longrightarrow> history_grows b c \<Longrightarrow> history_grows a c"
  unfolding history_grows_def using llog_ext_trans by blast

lemma only_node_refl [simp]: "only_node i a a"
  by (simp add: only_node_def)

lemma only_node_trans: "only_node i a b \<Longrightarrow> only_node i b c \<Longrightarrow> only_node i a c"
  by (simp add: only_node_def)

lemma nstep_grows:
  assumes "nstep n i a b" "ainv n a"
  shows "history_grows a b"
proof -
  have s: "astep (is_quorum n) a b" using assms(1) by (simp add: nstep_def)
  have i: "inv_vote a" "inv_lead (is_quorum n) a" "clog_current a"
    using assms(2) by (auto simp: inv_def inv_vote_def)
  show ?thesis unfolding history_grows_def
    using astep_votedH_mono [OF s] astep_ackH_mono [OF s] astep_commitH_mono [OF s]
      astep_clog_stable [OF s i(3)] majority.astep_llog_ext [OF s i(1,2)]
      majority.astep_lead_stable [OF s i(1,2)] by blast
qed

lemma nsteps_props:
  assumes "nsteps n i a b" "ainv n a"
  shows "ainv n b \<and> history_grows a b \<and> only_node i a b"
  using assms
proof (induction rule: rtranclp_induct)
  case (step b c)
  then have b: "ainv n b" "history_grows a b" "only_node i a b" by auto
  have "ainv n c" using step.hyps(2) b(1) by (auto simp: nstep_def intro: majority.astep_inv)
  moreover have "history_grows b c" using nstep_grows [OF step.hyps(2) b(1)] .
  moreover have "only_node i b c" using step.hyps(2) by (simp add: nstep_def)
  ultimately show ?case using b history_grows_trans only_node_trans by blast
qed simp

lemma nsteps_inv: "nsteps n i a b \<Longrightarrow> ainv n a \<Longrightarrow> ainv n b"
  using nsteps_props by blast

lemma nsteps_grows: "nsteps n i a b \<Longrightarrow> ainv n a \<Longrightarrow> history_grows a b"
  using nsteps_props by blast

section \<open>Validity is stable\<close>

lemma known_commit_mono:
  "known_commit a t c \<Longrightarrow> history_grows a b \<Longrightarrow> known_commit b t c"
  unfolding known_commit_def history_grows_def by blast

lemma app_ok_mono:
  assumes "app_ok n a args" "history_grows a b"
  shows "app_ok n b args"
proof -
  let ?p = "aePrevLogIndex args" and ?l = "length (aeEntries args)"
  from assms(1) obtain M where M: "llog a (aeTerm args) = Some M" "?p + ?l < length M"
    "aePrevLogTerm args = lTerm (M ! ?p)" "aeEntries args = take ?l (drop (Suc ?p) M)"
    unfolding app_ok_def by blast
  then obtain N where N: "llog b (aeTerm args) = Some (M @ N)"
    using assms(2) unfolding history_grows_def llog_ext_def by blast
  moreover have "take ?l (drop (Suc ?p) (M @ N)) = take ?l (drop (Suc ?p) M)" using M(2) by simp
  ultimately have "\<exists>M. llog b (aeTerm args) = Some M \<and> ?p + ?l < length M \<and>
      aePrevLogTerm args = lTerm (M ! ?p) \<and> aeEntries args = take ?l (drop (Suc ?p) M)"
    using M by (intro exI [of _ "M @ N"]) (auto simp: nth_append)
  with assms known_commit_mono show ?thesis unfolding app_ok_def by blast
qed

lemma app_resp_ok_mono:
  assumes "app_resp_ok n a from reply" "history_grows a b"
  shows "app_resp_ok n b from reply"
proof -
  have "\<exists>M. llog b t = Some M \<and> k \<le> length M" if "llog a t = Some M" "k \<le> length M" for t k M
    using that assms(2) unfolding history_grows_def llog_ext_def by (metis length_append trans_le_add1)
  moreover have "ackH a \<subseteq> ackH b" using assms(2) by (simp add: history_grows_def)
  ultimately show ?thesis using assms(1) known_commit_mono [OF _ assms(2)]
    unfolding app_resp_ok_def by (auto split: if_splits)
qed

lemma msg_ok_mono: "msg_ok n a m \<Longrightarrow> history_grows a b \<Longrightarrow> msg_ok n b m"
proof -
  assume m: "msg_ok n a m" and h: "history_grows a b"
  have "vote_ok n a args \<Longrightarrow> vote_ok n b args" for args
    using h unfolding vote_ok_def history_grows_def by blast
  moreover have "vote_resp_ok n a x y reply \<Longrightarrow> vote_resp_ok n b x y reply" for x y reply
    using h unfolding vote_resp_ok_def history_grows_def by blast
  ultimately show ?thesis using m app_ok_mono [OF _ h] app_resp_ok_mono [OF _ h]
    unfolding msg_ok_def by (auto split: Body.splits)
qed

lemma rep_other:
  assumes "rep n a j r" "history_grows a b" "only_node i a b" "j \<noteq> i"
  shows "rep n b j r"
proof -
  have "same_state b j r" using assms by (auto simp: rep_def same_state_def only_node_def)
  moreover have "votes_ok n b j r" "acks_ok n b r"
    using assms(1,2) unfolding rep_def votes_ok_def acks_ok_def history_grows_def by blast+
  ultimately show ?thesis using assms(1) by (simp add: rep_def)
qed

end
