(* ===== verification/Raft_Handlers.thy ===== *)
theory Raft_Handlers
  imports Raft_Refinement
begin

text \<open>
  Each handler of \<open>raft.go\<close> as a run of the abstract protocol. For a peer in the
  relation and a valid message, the handler returns (one index panic of the leader's rollback
  scan excepted), what it sends is valid, and the new record is in the relation with the
  abstract state after some steps of this peer.
\<close>

section \<open>What the relation gives\<close>

lemma rep_term: "rep n a i r \<Longrightarrow> aterm a i = currentTerm r"
  by (simp add: rep_def same_state_def)

lemma rep_log: "rep n a i r \<Longrightarrow> alog a i = log r"
  by (simp add: rep_def same_state_def)

lemma rep_role: "rep n a i r \<Longrightarrow> arole a i = state r"
  by (simp add: rep_def same_state_def)

lemma rep_vote: "rep n a i r \<Longrightarrow> avote a i = votedFor r"
  by (simp add: rep_def same_state_def)

lemma rep_commit: "rep n a i r \<Longrightarrow> acommit a i = commitIndex r"
  by (simp add: rep_def same_state_def)

lemma rep_me: "rep n a i r \<Longrightarrow> me r = i"
  by (simp add: rep_def node_wf_def)

lemma rep_peers: "rep n a i r \<Longrightarrow> peers r = n"
  by (simp add: rep_def node_wf_def)

lemma rep_wf: "rep n a i r \<Longrightarrow> wf_log (log r)"
  by (simp add: rep_def node_wf_def)

lemmas rep_fields = rep_term rep_log rep_role rep_vote rep_commit

lemma rep_from_leaders:
  assumes "rep n a i r" "ainv n a"
  shows "from_leaders a (log r)" "terms_upto (currentTerm r) (log r)"
  using assms by (auto simp: inv_def inv_log_def simp flip: rep_log rep_term)

lemma rep_term_pos:
  assumes "rep n a i r" "ainv n a"
  shows "1 \<le> currentTerm r"
proof -
  have "1 \<le> aterm a i" using assms(2) unfolding inv_def inv_vote_def by blast
  with assms(1) show ?thesis by (simp add: rep_term)
qed

lemma rep_leader:
  assumes "rep n a i r" "ainv n a" "state r = StateLeader"
  shows "llog a (currentTerm r) = Some (log r)" "leadH a (currentTerm r) = Some i"
proof -
  have "leadH a (aterm a i) = Some i \<and> llog a (aterm a i) = Some (alog a i)"
    using assms rep_role [OF assms(1)] unfolding inv_def inv_lead_def leader_log_def by auto
  with assms(1) show "llog a (currentTerm r) = Some (log r)" "leadH a (currentTerm r) = Some i"
    by (auto simp: rep_fields)
qed

lemma known_commit_take:
  assumes "ainv n a" "known_commit a t c" "llog a t = Some M"
  obtains t' k M' where "(t', k) \<in> commitH a" "t' \<le> t" "c \<le> k" "llog a t' = Some M'" "c < length M"
    "take (Suc c) M = take (Suc c) M'"
proof -
  from assms(2) obtain t' k where tk: "(t', k) \<in> commitH a" "t' \<le> t" "c \<le> k"
    unfolding known_commit_def by blast
  with assms(1) obtain M' where M': "llog a t' = Some M'" "k < length M'"
    unfolding inv_def inv_commit_def by blast
  have eq: "take (Suc k) M = take (Suc k) M'"
    by (rule majority.committed_in_later [OF assms(1) tk(1) M'(1) tk(2) assms(3)])
  have "k < length M" using take_Suc_eq_length [OF eq M'(2)] .
  with tk M' take_Suc_eq_mono [OF eq tk(3)] show ?thesis using that by auto
qed

lemma rep_commit_facts:
  assumes "rep n a i r" "ainv n a"
  shows "commitIndex r < length (log r)" "known_commit a (currentTerm r) (commitIndex r)"
    "llog a (currentTerm r) = Some M \<Longrightarrow>
       commitIndex r < length M \<and> take (Suc (commitIndex r)) (log r) = take (Suc (commitIndex r)) M"
proof -
  have "\<exists>t k M. (t, k) \<in> commitH a \<and> t \<le> aterm a i \<and> acommit a i \<le> k \<and> llog a t = Some M \<and>
      take (Suc (acommit a i)) (alog a i) = take (Suc (acommit a i)) M"
    using assms(2) unfolding inv_def inv_commit_def by blast
  then obtain t k N where N: "(t, k) \<in> commitH a" "t \<le> currentTerm r" "commitIndex r \<le> k"
    "llog a t = Some N" "take (Suc (commitIndex r)) (log r) = take (Suc (commitIndex r)) N"
    using assms(1) by (auto simp: rep_fields)
  moreover obtain N' where "llog a t = Some N'" "k < length N'"
    using assms(2) N(1) unfolding inv_def inv_commit_def by blast
  ultimately have k: "k < length N" by simp
  show "commitIndex r < length (log r)" using take_Suc_eq_length [OF N(5)] N(3) k by simp
  show kc: "known_commit a (currentTerm r) (commitIndex r)" using N unfolding known_commit_def by blast
  assume M: "llog a (currentTerm r) = Some M"
  have eq: "take (Suc k) M = take (Suc k) N"
    by (rule majority.committed_in_later [OF assms(2) N(1,4,2) M])
  have "k < length M" using take_Suc_eq_length [OF eq k] .
  with take_Suc_eq_mono [OF eq N(3)] N(3,5)
  show "commitIndex r < length M \<and> take (Suc (commitIndex r)) (log r) = take (Suc (commitIndex r)) M"
    by simp
qed

lemma rep_matching:
  assumes "rep n a i r" "ainv n a" "llog a t = Some M"
  shows "matching (log r) M" "wf_log M"
proof -
  have M: "from_leaders a M" using assms(2,3) unfolding inv_def inv_log_def by blast
  show "matching (log r) M"
    using log_matching [OF rep_from_leaders(1) [OF assms(1,2)] M] unfolding matching_def by blast
  show "wf_log M" using M by (simp add: from_leaders_def)
qed

section \<open>Becoming a follower, granting, timing out\<close>

lemma single_step: "astep (is_quorum n) a b \<Longrightarrow> only_node i a b \<Longrightarrow> nsteps n i a b"
  by (simp add: nstep_def r_into_rtranclp)

lemma rep_becomeFollower:
  assumes "rep n a i r" "currentTerm r \<le> t"
  shows "\<exists>b. nsteps n i a b \<and> rep n b i (becomeFollower t ld r)"
proof (cases "currentTerm r < t")
  case True
  let ?b = "a\<lparr>aterm := (aterm a)(i := t), avote := (avote a)(i := None), arole := (arole a)(i := StateFollower)\<rparr>"
  have "nsteps n i a ?b"
    by (rule single_step [OF newterm]) (use True assms(1) in \<open>simp_all add: rep_term only_node_def\<close>)
  moreover have "rep n ?b i (becomeFollower t ld r)"
    using assms True wf_log_not_Nil [OF rep_wf [OF assms(1)]]
    by (auto simp: rep_def node_wf_def same_state_def votes_ok_def acks_ok_def roles_agree_def)
  ultimately show ?thesis by blast
next
  case False
  let ?b = "a\<lparr>arole := (arole a)(i := StateFollower)\<rparr>"
  have "nsteps n i a ?b" by (rule single_step [OF stepdown]) (simp add: only_node_def)
  moreover have "rep n ?b i (becomeFollower t ld r)"
    using assms False wf_log_not_Nil [OF rep_wf [OF assms(1)]]
    by (auto simp: rep_def node_wf_def same_state_def votes_ok_def acks_ok_def roles_agree_def)
  ultimately show ?thesis by blast
qed

lemma clog_from_leaders:
  "ainv n a \<Longrightarrow> clog a t c = Some L \<Longrightarrow> from_leaders a L"
  unfolding inv_def inv_log_def by blast

lemma vote_ok_up_to_date:
  assumes "rep n a i r" "ainv n a" "vote_ok n a args"
  obtains L where "clog a (rvTerm args) (rvCandidateId args) = Some L"
    "reqMoreUpToDate args r = Inr (up_to_date L (log r))"
proof -
  from assms(3) obtain L where L: "clog a (rvTerm args) (rvCandidateId args) = Some L"
    "rvLastLogIndex args = length L - 1" "rvLastLogTerm args = lTerm (last L)"
    unfolding vote_ok_def by blast
  have "wf_log L" using clog_from_leaders [OF assms(2) L(1)] by (simp add: from_leaders_def)
  then have len: "0 < length L" "0 < length (log r)"
    using wf_log_length [OF rep_wf [OF assms(1)]] wf_log_length by auto
  then have "length (log r) - 1 \<le> length L - 1 \<longleftrightarrow> length (log r) \<le> length L" by arith
  then have "reqMoreUpToDate args r = Inr (up_to_date L (log r))"
    by (auto simp: reqMoreUpToDate_wf [OF rep_wf [OF assms(1)]] L up_to_date_def)
  with L(1) show ?thesis using that by blast
qed

lemma rep_grant:
  assumes "rep n a i r" "ainv n a" "state r = StateFollower" "vote_ok n a args" "rvTerm args = currentTerm r"
  obtains g where "grantVote args r = Inr g"
    "g \<Longrightarrow> \<exists>b. nsteps n i a b \<and> rep n b i (r\<lparr>electionElapsed := 0, votedFor := Some (rvCandidateId args)\<rparr>) \<and>
       (currentTerm r, i, rvCandidateId args) \<in> votedH b"
proof -
  let ?c = "rvCandidateId args" and ?r = "r\<lparr>electionElapsed := 0, votedFor := Some (rvCandidateId args)\<rparr>"
  obtain L where L: "clog a (rvTerm args) ?c = Some L" "reqMoreUpToDate args r = Inr (up_to_date L (log r))"
    using vote_ok_up_to_date [OF assms(1,2,4)] by blast
  let ?g = "(votedFor r = None \<or> votedFor r = Some ?c) \<and> up_to_date L (log r)"
  have "\<exists>b. nsteps n i a b \<and> rep n b i ?r \<and> (currentTerm r, i, ?c) \<in> votedH b" if g: ?g
  proof (cases "votedFor r = None")
    case True
    let ?b = "a\<lparr>avote := (avote a)(i := Some ?c), votedH := insert (currentTerm r, i, ?c) (votedH a),
      vlog := (vlog a)(currentTerm r := (vlog a (currentTerm r))(i := Some (alog a i)))\<rparr>"
    have "nsteps n i a ?b"
      by (rule single_step [OF grant [of _ _ i ?c L]])
        (use True g L assms in \<open>simp_all add: rep_fields only_node_def\<close>)
    moreover have "rep n ?b i ?r" using assms(1,3)
      by (auto simp: rep_def node_wf_def same_state_def votes_ok_def acks_ok_def roles_agree_def)
    ultimately show ?thesis by (intro exI [of _ ?b]) simp
  next
    case False
    then have v: "avote a i = Some ?c" using g assms(1) by (auto simp: rep_vote)
    have "votes_recorded a" using assms(2) by (simp add: inv_def inv_vote_def)
    with v have "(currentTerm r, i, ?c) \<in> votedH a"
      using rep_term [OF assms(1)] unfolding votes_recorded_def by metis
    moreover have "rep n a i ?r" using assms(1,3) v rep_vote [OF assms(1)]
      by (auto simp: rep_def node_wf_def same_state_def votes_ok_def acks_ok_def roles_agree_def)
    ultimately show ?thesis by blast
  qed
  moreover have "grantVote args r = Inr ?g" using L(2) by (simp add: grantVote_def)
  ultimately show ?thesis using that by blast
qed

lemma rep_campaign:
  assumes "rep n a i r" "state r \<noteq> StateLeader" "i < n"
  obtains b r' where "becomeCandidate r = Inr r'" "nsteps n i a b" "state r' = StateCandidate"
    "rep n b i (fst (poll i True r'))" "poll i True r' = (fst (poll i True r'), 1)"
    "clog b (currentTerm r') i = Some (log r')" "propc (fst (poll i True r')) = propc r"
proof -
  let ?t = "Suc (currentTerm r)"
  let ?b = "a\<lparr>aterm := (aterm a)(i := ?t), avote := (avote a)(i := Some i),
      arole := (arole a)(i := StateCandidate), votedH := insert (?t, i, i) (votedH a),
      clog := (clog a)(?t := (clog a ?t)(i := Some (alog a i))),
      vlog := (vlog a)(?t := (vlog a ?t)(i := Some (alog a i)))\<rparr>"
  let ?r = "(reset ?t r)\<lparr>tickf := TickElection, votedFor := Some (me r), state := StateCandidate, stepf := StepCandidate\<rparr>"
  have ne: "log r \<noteq> []" using wf_log_not_Nil [OF rep_wf [OF assms(1)]] .
  have "becomeCandidate r = Inr ?r" using assms(2) by (simp add: becomeCandidate_def)
  moreover have "nsteps n i a ?b"
    by (rule single_step [OF timeout]) (use assms in \<open>simp_all add: rep_fields only_node_def\<close>)
  moreover have "rep n ?b i (fst (poll i True ?r))" using assms ne
    by (auto simp: rep_def node_wf_def same_state_def votes_ok_def acks_ok_def roles_agree_def poll_def)
  moreover have "clog ?b (currentTerm ?r) i = Some (log ?r)" using assms(1) ne by (simp add: rep_log)
  ultimately show ?thesis using that [of ?r ?b] by (simp add: poll_def)
qed

section \<open>Broadcasts and elections\<close>

lemmas rep_unfold = rep_def node_wf_def same_state_def votes_ok_def acks_ok_def roles_agree_def

lemma rep_frame [simp]:
  "rep n a i (persist r) = rep n a i r" "rep n a i (r\<lparr>propc := ms\<rparr>) = rep n a i r"
  "rep n a i (r\<lparr>electionElapsed := e\<rparr>) = rep n a i r" "rep n a i (r\<lparr>heartbeatElapsed := e\<rparr>) = rep n a i r"
  "rep n a i (r\<lparr>lead := l\<rparr>) = rep n a i r" "rep n a i (r\<lparr>replyNextIndex := x\<rparr>) = rep n a i r"
  "rep n a i (r\<lparr>globalRand := g\<rparr>) = rep n a i r" "rep n a i (r\<lparr>persister := ps\<rparr>) = rep n a i r"
  by (simp_all add: rep_unfold cong: RaftState.case_cong)

lemma bcastRequestVoteRPC_ok:
  assumes "rep n a i r" "clog a (currentTerm r) i = Some (log r)" "i < n"
  obtains ms where "bcastRequestVoteRPC r = Inr ((persist r)\<lparr>propc := propc r @ ms\<rparr>)"
    "\<And>m. m \<in> set ms \<Longrightarrow> msg_ok n a m"
proof -
  define req :: "nat \<Rightarrow> 'a Message" where
    "req j = \<lparr>mFrom = me r, mTo = j, mTerm = currentTerm r,
       mBody = VoteB \<lparr>rvTerm = currentTerm r, rvCandidateId = me r,
         rvLastLogIndex = length (log r) - 1, rvLastLogTerm = lTerm (last (log r))\<rparr> zeroVoteReply\<rparr>" for j
  have "voteRequest (persist r) j = Inr (req j)" for j
    using rep_wf [OF assms(1)] by (simp add: voteRequest_def req_def lastIndex_wf lastTerm_wf)
  then have "bcastRequestVoteRPC r = Inr ((persist r)\<lparr>propc := propc r @ map req (otherPeers (persist r))\<rparr>)"
    by (simp add: bcastRequestVoteRPC_def Let_def mapGo_Inr [where g = req])
  moreover have "msg_ok n a (req j)" for j
    using assms rep_me [OF assms(1)] by (auto simp: msg_ok_def req_def vote_ok_def)
  ultimately show ?thesis using that [of "map req (otherPeers (persist r))"] by auto
qed

lemma appendRequest_ok:
  assumes "rep n a i r" "ainv n a" "state r = StateLeader" "i < n" "j < n"
  obtains m where "appendRequest r j = Inr m" "msg_ok n a m"
proof -
  let ?p = "nextIndex r ! j - 1"
  have nx: "1 \<le> nextIndex r ! j" "nextIndex r ! j \<le> length (log r)" "length (nextIndex r) = n"
    using assms(1,3,5) by (auto simp: rep_unfold)
  then have p: "?p < length (log r)" "nat (int (nextIndex r ! j) - 1) = ?p" by auto
  define args where "args = \<lparr>aeTerm = currentTerm r, aeLeaderId = me r, aeLeaderCommit = commitIndex r,
    aePrevLogIndex = ?p, aePrevLogTerm = lTerm (log r ! ?p), aeEntries = drop (Suc ?p) (log r)\<rparr>"
  have "\<not> int (nextIndex r ! j) - 1 < 0" "\<not> int (nextIndex r ! j) - 1 > int (length (log r) - 1)"
    using nx by auto
  then have "appendRequest r j = Inr \<lparr>mFrom = me r, mTo = j, mTerm = currentTerm r, mBody = AppB args zeroAppReply\<rparr>"
    using nx(3) assms(5) p rep_wf [OF assms(1)]
    by (simp add: appendRequest_def lastIndex_wf log_at_lt args_def Let_def del: of_nat_diff)
  moreover have "app_ok n a args"
    using rep_leader(1) [OF assms(1-3)] rep_commit_facts(1,2) [OF assms(1,2)] rep_me [OF assms(1)] assms(4) p(1)
    by (auto simp: app_ok_def args_def)
  ultimately show ?thesis using that by (auto simp: msg_ok_def)
qed

lemma mapGo_exists:
  "(\<And>x. x \<in> set xs \<Longrightarrow> \<exists>y. f x = Inr y \<and> P y) \<Longrightarrow> \<exists>ys. mapGo f xs = Inr ys \<and> (\<forall>y \<in> set ys. P y)"
proof (induction xs)
  case (Cons x xs)
  obtain y where "f x = Inr y" "P y" using Cons.prems by auto
  moreover obtain ys where "mapGo f xs = Inr ys" "\<forall>y \<in> set ys. P y" using Cons by auto
  ultimately show ?case by auto
qed simp

lemma bcastAppend_ok:
  assumes "rep n a i r" "ainv n a" "state r = StateLeader" "i < n"
  obtains ms where "bcastAppend r = Inr ((persist r)\<lparr>propc := propc r @ ms\<rparr>)"
    "\<And>m. m \<in> set ms \<Longrightarrow> msg_ok n a m"
proof -
  have r: "rep n a i (persist r)" "state (persist r) = StateLeader" using assms by simp_all
  have "\<exists>m. appendRequest (persist r) j = Inr m \<and> msg_ok n a m" if "j \<in> set (otherPeers (persist r))" for j
    using appendRequest_ok [OF r(1) assms(2) r(2) assms(4), of j] that rep_peers [OF r(1)]
    by (auto simp: otherPeers_def)
  then obtain ms where "mapGo (appendRequest (persist r)) (otherPeers (persist r)) = Inr ms"
    "\<forall>m \<in> set ms. msg_ok n a m" using mapGo_exists [of "otherPeers (persist r)"] by metis
  then show ?thesis using that [of ms] by (simp add: bcastAppend_def Let_def)
qed

lemma poll_fields [simp]:
  "propc (fst (poll v g r)) = propc r" "state (fst (poll v g r)) = state r"
  "snd (poll v g r) = length (filter snd (votes (fst (poll v g r))))"
  "currentTerm (fst (poll v g r)) = currentTerm r" "peers (fst (poll v g r)) = peers r"
  by (simp_all add: poll_def Let_def)

lemma rep_poll:
  assumes "rep n a i r" "v < n" "g \<Longrightarrow> (currentTerm r, v, i) \<in> votedH a"
  shows "rep n a i (fst (poll v g r))"
  using assms by (auto simp: rep_unfold poll_def map_of_eq_None_iff split: RaftState.splits)

lemma granted_card:
  "distinct (map fst vs) \<Longrightarrow> card {v. (v, True) \<in> set vs} = length (filter snd vs)"
proof (induction vs)
  case (Cons x vs)
  obtain v g where x: "x = (v, g)" by force
  have fin: "finite {v. (v, True) \<in> set vs}"
    by (rule finite_subset [of _ "fst ` set vs"]) force+
  have "v \<notin> {v. (v, True) \<in> set vs}" using Cons.prems x by force
  moreover have "{u. (u, True) \<in> set (x # vs)} =
      (if g then insert v {v. (v, True) \<in> set vs} else {v. (v, True) \<in> set vs})" using x by auto
  ultimately show ?case using Cons x fin by simp
qed simp

lemma rep_elect:
  assumes "rep n a i r" "state r = StateCandidate" "quorum r = length (filter snd (votes r))"
  obtains b r' where "becomeLeader r = Inr r'" "nsteps n i a b" "rep n b i r'" "state r' = StateLeader"
    "propc r' = propc r"
proof -
  let ?Q = "{v. (v, True) \<in> set (votes r)}" and ?t = "currentTerm r"
  let ?b = "a\<lparr>arole := (arole a)(i := StateLeader), leadH := (leadH a)(?t := Some i),
      llog := (llog a)(?t := Some (alog a i))\<rparr>"
  have Q: "is_quorum n ?Q" using assms granted_card [of "votes r"]
    by (auto simp: is_quorum_def rep_unfold quorum_def)
  have "nsteps n i a ?b"
    by (rule single_step [OF elect [of _ _ _ _ ?Q]])
      (use assms Q in \<open>auto simp: rep_unfold only_node_def\<close>)
  moreover obtain r' where r': "becomeLeader r = Inr r'" using assms(2) by (simp add: becomeLeader_def Let_def)
  moreover have "rep n ?b i r' \<and> state r' = StateLeader \<and> propc r' = propc r"
    using r' assms wf_log_not_Nil [OF rep_wf [OF assms(1)]]
    by (auto simp: becomeLeader_def Let_def rep_unfold Suc_le_eq split: if_splits)
  ultimately show ?thesis using that by blast
qed

end
