(* ===== verification/Raft_Replication.thy ===== *)
theory Raft_Replication
  imports Raft_Handlers
begin

text \<open>
  Log replication: the follower's and the leader's side of AppendEntries, appending a command,
  and the applier, as runs of the abstract protocol.
\<close>

section \<open>Single abstract steps of a follower\<close>

lemma rep_ack:
  assumes "rep n a i r" "llog a (currentTerm r) = Some M" "q < length M"
    "take (Suc q) (log r) = take (Suc q) M"
  obtains b where "nsteps n i a b" "rep n b i r" "(currentTerm r, i, q) \<in> ackH b"
    "llog b = llog a" "commitH b = commitH a"
proof -
  let ?b = "a\<lparr>ackH := insert (currentTerm r, i, q) (ackH a)\<rparr>"
  have "nsteps n i a ?b"
    by (rule single_step [OF ack]) (use assms in \<open>simp_all add: rep_fields only_node_def\<close>)
  moreover have "rep n ?b i r" using assms(1)
    by (auto simp: rep_def same_state_def votes_ok_def acks_ok_def)
  ultimately show ?thesis using that by simp
qed

lemma rep_learn:
  assumes "rep n a i r" "ainv n a" "known_commit a (currentTerm r) c" "llog a (currentTerm r) = Some M"
    "take (Suc c) (log r) = take (Suc c) M" "commitIndex r < c"
  shows "\<exists>b. nsteps n i a b \<and> rep n b i (r\<lparr>commitIndex := c, commitc := commitc r @ [c]\<rparr>) \<and> ackH b = ackH a"
proof -
  obtain t' k M' where k: "(t', k) \<in> commitH a" "t' \<le> currentTerm r" "c \<le> k" "llog a t' = Some M'"
    "take (Suc c) M = take (Suc c) M'"
    using known_commit_take [OF assms(2-4)] by metis
  let ?b = "a\<lparr>acommit := (acommit a)(i := c)\<rparr>"
  have "nsteps n i a ?b"
    by (rule single_step [OF learn [OF k(1)]]) (use assms k in \<open>simp_all add: rep_fields only_node_def\<close>)
  moreover have "rep n ?b i (r\<lparr>commitIndex := c, commitc := commitc r @ [c]\<rparr>)"
    using assms(1,6) by (auto simp: rep_unfold cong: RaftState.case_cong)
  ultimately show ?thesis by (intro exI [of _ ?b]) simp
qed

lemma rep_accept:
  assumes "rep n a i r" "state r = StateFollower" "llog a (currentTerm r) = Some M" "q < length M"
    "take (Suc q) (log r) \<noteq> take (Suc q) M" "wf_log M"
  obtains b where "nsteps n i a b" "rep n b i (r\<lparr>log := take (Suc q) M\<rparr>)"
    "llog b = llog a" "commitH b = commitH a"
proof -
  let ?b = "a\<lparr>alog := (alog a)(i := take (Suc q) M)\<rparr>"
  have "nsteps n i a ?b"
    by (rule single_step [OF accept]) (use assms in \<open>simp_all add: rep_fields only_node_def\<close>)
  moreover have "rep n ?b i (r\<lparr>log := take (Suc q) M\<rparr>)"
    using assms by (auto simp: rep_unfold wf_log_take)
  ultimately show ?thesis using that by simp
qed

section \<open>The follower\<close>

lemma appendLog_segment:
  assumes "wf_log M" "p < ci" "ci \<le> p + n" "p + n < length M" "ci \<le> length (log r)"
    "take ci (log r) = take ci M" "commitIndex r < ci"
  shows "appendLog (drop (ci - Suc p) (take n (drop (Suc p) M))) r = Inr (r\<lparr>log := take (Suc (p + n)) M\<rparr>)"
proof -
  let ?es = "drop (ci - Suc p) (take n (drop (Suc p) M))"
  have es: "?es = M ! ci # drop (Suc (ci - Suc p)) (take n (drop (Suc p) M))"
    using assms(2-4) by (subst Cons_nth_drop_Suc [symmetric]) auto
  have "lIndex (M ! ci) = ci" using assms(1,3,4) by (simp add: wf_log_nth)
  moreover have "take ci (log r) @ ?es = take (Suc (p + n)) M"
    using take_append_segment [OF assms(2-6)] .
  ultimately show ?thesis using assms(5,7) by (simp add: appendLog_def es)
qed

lemma mergeEntries_ok:
  assumes "rep n a i r" "ainv n a" "state r = StateFollower" "llog a (currentTerm r) = Some M"
    "aePrevLogIndex args + length (aeEntries args) = q" "q < length M"
    "aeEntries args = take (length (aeEntries args)) (drop (Suc (aePrevLogIndex args)) M)"
    "take (Suc (aePrevLogIndex args)) (log r) = take (Suc (aePrevLogIndex args)) M"
  obtains b L where "mergeEntries args r = Inr (r\<lparr>log := L\<rparr>)" "nsteps n i a b" "rep n b i (r\<lparr>log := L\<rparr>)"
    "take (Suc q) L = take (Suc q) M" "llog b = llog a" "commitH b = commitH a"
proof -
  let ?p = "aePrevLogIndex args" and ?n = "length (aeEntries args)"
  have M: "matching (log r) M" "wf_log M" using rep_matching [OF assms(1,2,4)] by auto
  have pn: "?p + ?n < length M" using assms(5,6) by simp
  have seg: "take ?n (drop (Suc ?p) M) = aeEntries args" using assms(7) by simp
  from findConflict_segment [OF rep_wf [OF assms(1)] M(2,1) pn assms(8), unfolded seg] show ?thesis
  proof (elim disjE conjE exE)
    assume "take (Suc (?p + ?n)) (log r) = take (Suc (?p + ?n)) M" "findConflict (aeEntries args) r = Inr 0"
    then show ?thesis using that [of "log r" a] assms(1,5) by (simp add: mergeEntries_def Let_def)
  next
    fix ci
    assume ci: "findConflict (aeEntries args) r = Inr ci" "?p < ci" "ci \<le> ?p + ?n" "ci \<le> length (log r)"
      "take ci (log r) = take ci M" "take (Suc ci) (log r) \<noteq> take (Suc ci) M"
    have "commitIndex r < ci"
      using rep_commit_facts(3) [OF assms(1,2,4)] ci(6) take_Suc_eq_mono by (metis not_le)
    then have "appendLog (drop (ci - Suc ?p) (aeEntries args)) r = Inr (r\<lparr>log := take (Suc q) M\<rparr>)"
      using appendLog_segment [OF M(2) ci(2,3) pn ci(4,5)] seg assms(5) by simp
    then have "mergeEntries args r = Inr (r\<lparr>log := take (Suc q) M\<rparr>)"
      using ci(1-3) \<open>commitIndex r < ci\<close> by (simp add: mergeEntries_def Let_def)
    moreover have "take (Suc q) (log r) \<noteq> take (Suc q) M"
      using ci(3,6) assms(5) take_Suc_eq_mono by metis
    ultimately show ?thesis using rep_accept [OF assms(1,3,4,6) _ M(2)] that by (metis take_Suc_take order_refl)
  qed
qed

lemma followCommit_ok:
  assumes "rep n a i r" "ainv n a" "known_commit a (currentTerm r) c" "llog a (currentTerm r) = Some M"
    "take (Suc q) (log r) = take (Suc q) M" "c \<le> q"
  obtains b r' where "followCommit c r = Inr r'" "nsteps n i a b" "rep n b i r'" "ackH b = ackH a"
    "log r' = log r" "currentTerm r' = currentTerm r" "propc r' = propc r" "state r' = state r"
proof (cases "commitIndex r < c")
  case True
  have eq: "take (Suc c) (log r) = take (Suc c) M" using take_Suc_eq_mono assms(5,6) by blast
  have "c < length M" using known_commit_take [OF assms(2-4)] by blast
  then have "c < length (log r)" using take_Suc_eq_length [OF eq] by simp
  then have "followCommit c r = Inr (r\<lparr>commitIndex := c, commitc := commitc r @ [c]\<rparr>)"
    using True rep_wf [OF assms(1)] by (simp add: followCommit_def lastIndex_wf commitTo_wf)
  with rep_learn [OF assms(1-4) eq True] that show ?thesis by force
next
  case False
  with that [of r a] assms(1) show ?thesis by (simp add: followCommit_def)
qed

lemma acceptEntries_ok:
  assumes "rep n a i r" "ainv n a" "state r = StateFollower" "app_ok n a args" "aeTerm args = currentTerm r"
    "aePrevLogIndex args < length (log r)" "lTerm (log r ! aePrevLogIndex args) = aePrevLogTerm args"
    "q = aePrevLogIndex args + length (aeEntries args)"
  obtains b r' where "acceptEntries args reply r =
      Inr (r', reply\<lparr>aerTerm := currentTerm r, aerSuccess := True, aerNextIndex := Suc q\<rparr>)"
    "nsteps n i a b" "rep n b i r'" "(currentTerm r, i, q) \<in> ackH b" "q < length (log r')" "propc r' = propc r"
proof -
  obtain M where M: "llog a (currentTerm r) = Some M" "q < length M"
    "aePrevLogTerm args = lTerm (M ! aePrevLogIndex args)"
    "aeEntries args = take (length (aeEntries args)) (drop (Suc (aePrevLogIndex args)) M)"
    using assms(4,5,8) unfolding app_ok_def by auto
  have c: "known_commit a (currentTerm r) (aeLeaderCommit args)" "aeLeaderCommit args \<le> q"
    using assms(4,5,8) unfolding app_ok_def by auto
  have eq: "take (Suc (aePrevLogIndex args)) (log r) = take (Suc (aePrevLogIndex args)) M"
    using rep_matching(1) [OF assms(1,2) M(1)] assms(6-8) M(2,3) by (simp add: matching_def)
  obtain b L where b: "mergeEntries args r = Inr (r\<lparr>log := L\<rparr>)" "nsteps n i a b" "rep n b i (r\<lparr>log := L\<rparr>)"
    "take (Suc q) L = take (Suc q) M" "llog b = llog a" "commitH b = commitH a"
    using mergeEntries_ok [OF assms(1-3) M(1) assms(8) [symmetric] M(2,4) eq] by metis
  obtain b2 where b2: "nsteps n i b b2" "rep n b2 i (r\<lparr>log := L\<rparr>)" "(currentTerm r, i, q) \<in> ackH b2"
    "llog b2 = llog a" "commitH b2 = commitH a"
    using rep_ack [OF b(3), of M q] M(1,2) b(4-6) by auto
  have i2: "ainv n b2" using nsteps_inv [OF b2(1) nsteps_inv [OF b(2) assms(2)]] .
  have pre: "known_commit b2 (currentTerm (r\<lparr>log := L\<rparr>)) (aeLeaderCommit args)"
    "llog b2 (currentTerm (r\<lparr>log := L\<rparr>)) = Some M" "take (Suc q) (log (r\<lparr>log := L\<rparr>)) = take (Suc q) M"
    using c M(1) b(4) b2(4,5) by (simp_all add: known_commit_def)
  obtain b3 r' where b3: "followCommit (aeLeaderCommit args) (r\<lparr>log := L\<rparr>) = Inr r'" "nsteps n i b2 b3"
    "rep n b3 i r'" "ackH b3 = ackH b2" "log r' = L" "currentTerm r' = currentTerm r" "propc r' = propc r"
    by (rule followCommit_ok [OF b2(2) i2 pre c(2)]) auto
  have "acceptEntries args reply r =
      Inr (r', reply\<lparr>aerTerm := currentTerm r, aerSuccess := True, aerNextIndex := Suc q\<rparr>)"
    using b(1) b3(1,6) rep_wf [OF b(3)] assms(8) by (simp add: acceptEntries_def Let_def checkLog_wf)
  moreover have "nsteps n i a b3" using b(2) b2(1) b3(2) by auto
  moreover have "q < length L" using take_Suc_eq_length [OF b(4) M(2)] .
  ultimately show ?thesis using that b3 b2(3) by auto
qed

text \<open>A refusal asks for the entries after the commit index, or for one entry more than was offered.\<close>

definition refusedNext :: "nat \<Rightarrow> nat \<Rightarrow> nat" where
  "refusedNext ci p = (let x = min (int ci + 1) (int p - 1) in if x < 1 then 1 else nat x)"

lemma rejectEntries_form:
  assumes "wf_log (log r)"
  shows "\<exists>ct cx. rejectEntries args reply r = Inr (r, reply\<lparr>aerConflictTerm := ct, aerConflictIndex := cx,
      aerTerm := currentTerm r, aerSuccess := False, aerNextIndex := refusedNext (commitIndex r) (aePrevLogIndex args)\<rparr>) \<and> cx \<le> 0"
proof (cases "aePrevLogIndex args \<le> length (log r) - 1")
  case True
  then have p: "aePrevLogIndex args < length (log r)" using wf_log_length [OF assms] by linarith
  with conflictScan_total [of "aePrevLogIndex args" "log r"] obtain j where
    "conflictScan (log r) (lTerm (log r ! aePrevLogIndex args)) (aePrevLogIndex args) = Inr j" by (metis less_imp_le)
  with p True show ?thesis using assms
    by (intro exI [of _ "int (lTerm (log r ! aePrevLogIndex args))"] exI [of _ 0])
      (simp add: rejectEntries_def lastIndex_wf log_at_lt refusedNext_def Let_def)
next
  case False
  then show ?thesis using assms
    by (intro exI [of _ "-1"]) (simp add: rejectEntries_def lastIndex_wf refusedNext_def Let_def)
qed

lemma rejectEntries_ok:
  assumes "rep n a i r" "ainv n a" "app_ok n a args" "aeTerm args = currentTerm r" "i < n"
  obtains reply' where "rejectEntries args reply r = Inr (r, reply')" "app_resp_ok n a i reply'"
    "1 \<le> aerNextIndex reply'" "aerNextIndex reply' \<le> length (log r)"
    "\<And>x. app_resp_ok n a i (reply'\<lparr>aerFollowerCommitIndex := x\<rparr>)"
proof -
  let ?p = "aePrevLogIndex args"
  obtain M where M: "llog a (currentTerm r) = Some M" "?p < length M"
    using assms(3,4) unfolding app_ok_def by auto
  let ?ni = "refusedNext (commitIndex r) ?p"
  have ni: "1 \<le> ?ni" "?ni \<le> length (log r)" "?ni \<le> length M"
    using rep_commit_facts(1) [OF assms(1,2)] M(2) by (auto simp: refusedNext_def Let_def)
  obtain ct cx where "rejectEntries args reply r = Inr (r, reply\<lparr>aerConflictTerm := ct, aerConflictIndex := cx,
      aerTerm := currentTerm r, aerSuccess := False, aerNextIndex := ?ni\<rparr>)" "cx \<le> 0"
    using rejectEntries_form [OF rep_wf [OF assms(1)]] by blast
  with that ni M(1) assms(5) show ?thesis by (auto simp: app_resp_ok_def)
qed

lemma appendBody_ok:
  assumes "rep n a i r" "ainv n a" "state r = StateFollower" "app_ok n a args" "aeTerm args = currentTerm r" "i < n"
  obtains b r' reply' where "appendBody args reply r = Inr (r', reply')" "nsteps n i a b" "rep n b i r'"
    "app_resp_ok n b i reply'" "aerNextIndex reply' \<le> length (log r')" "propc r' = propc r"
proof -
  let ?p = "aePrevLogIndex args" and ?q = "aePrevLogIndex args + length (aeEntries args)"
  obtain M where M: "llog a (currentTerm r) = Some M" using assms(4,5) unfolding app_ok_def by auto
  note cf = rep_commit_facts [OF assms(1,2)]
  consider (stale) "?p < commitIndex r"
    | (match) "commitIndex r \<le> ?p" "?p < length (log r)" "lTerm (log r ! ?p) = aePrevLogTerm args"
    | (nomatch) "commitIndex r \<le> ?p" "\<not> (?p < length (log r) \<and> lTerm (log r ! ?p) = aePrevLogTerm args)"
    by linarith
  then show ?thesis
  proof cases
    case stale
    obtain b where "nsteps n i a b" "rep n b i r" "(currentTerm r, i, commitIndex r) \<in> ackH b"
      using rep_ack [OF assms(1) M, of "commitIndex r"] cf(3) [OF M] by blast
    with stale that cf(1) assms(6) show ?thesis by (auto simp: appendBody_def app_resp_ok_def)
  next
    case match
    obtain b r' where b: "acceptEntries args reply r =
        Inr (r', reply\<lparr>aerTerm := currentTerm r, aerSuccess := True, aerNextIndex := Suc ?q\<rparr>)"
      "nsteps n i a b" "rep n b i r'" "(currentTerm r, i, ?q) \<in> ackH b" "?q < length (log r')" "propc r' = propc r"
      using acceptEntries_ok [OF assms(1-5) match(2,3) refl] by metis
    then show ?thesis using match assms(6) rep_wf [OF assms(1)]
      by (intro that [of "r'\<lparr>replyNextIndex := Suc ?q\<rparr>"]) (auto simp: appendBody_def matchTerm_wf app_resp_ok_def)
  next
    case nomatch
    obtain reply' where "rejectEntries args reply r = Inr (r, reply')" "1 \<le> aerNextIndex reply'"
      "aerNextIndex reply' \<le> length (log r)" "\<And>x. app_resp_ok n a i (reply'\<lparr>aerFollowerCommitIndex := x\<rparr>)"
      using rejectEntries_ok [OF assms(1,2,4-6)] by metis
    with nomatch rep_wf [OF assms(1)] show ?thesis
      by (intro that [of "r\<lparr>replyNextIndex := aerNextIndex reply'\<rparr>"
            "reply'\<lparr>aerFollowerCommitIndex := commitIndex r\<rparr>" a])
        (auto simp: appendBody_def matchTerm_wf assms(1))
  qed
qed

lemma handleAppendEntries_ok:
  assumes "rep n a i r" "ainv n a" "state r = StateFollower" "app_ok n a args" "aeTerm args = currentTerm r" "i < n"
  obtains b r' reply' where "handleAppendEntries from args reply r = Inr (r', reply')" "nsteps n i a b"
    "rep n b i r'" "app_resp_ok n b i reply'" "propc r' = propc r"
proof -
  let ?r = "r\<lparr>electionElapsed := 0, lead := Some from\<rparr>"
  have r: "rep n a i ?r" "state ?r = StateFollower" "aeTerm args = currentTerm ?r" using assms by simp_all
  obtain b r' reply' where "appendBody args reply ?r = Inr (r', reply')" "nsteps n i a b" "rep n b i r'"
    "app_resp_ok n b i reply'" "aerNextIndex reply' \<le> length (log r')" "propc r' = propc ?r"
    using appendBody_ok [OF r(1) assms(2) r(2) assms(4) r(3) assms(6)] by metis
  moreover from this have "lastIndex r' = Inr (length (log r') - 1)" "0 < length (log r')"
    using lastIndex_wf [OF rep_wf] wf_log_length [OF rep_wf] by blast+
  ultimately show ?thesis using that by (simp add: handleAppendEntries_def Let_def)
qed

section \<open>The leader\<close>

text \<open>The k-th largest of a list is reached by at least k of its elements.\<close>

lemma sorted_rank:
  assumes "k < length (xs :: int list)"
  shows "Suc k \<le> card {j. j < length xs \<and> rev (sort xs) ! k \<le> xs ! j}"
proof -
  let ?ys = "rev (sort xs)" let ?y = "rev (sort xs) ! k"
  have "filter (\<lambda>x. ?y \<le> x) (take (Suc k) ?ys) = take (Suc k) ?ys"
  proof (rule filter_True, rule ballI)
    fix x assume "x \<in> set (take (Suc k) ?ys)"
    then obtain l where l: "l < length (take (Suc k) ?ys)" "x = take (Suc k) ?ys ! l"
      by (metis in_set_conv_nth)
    have "sorted (rev ?ys)" by simp
    with l assms show "?y \<le> x" using sorted_rev_nth_mono [of ?ys l k] by simp
  qed
  then have "Suc k \<le> length (filter (\<lambda>x. ?y \<le> x) (take (Suc k) ?ys))" using assms by simp
  also have "\<dots> \<le> length (filter (\<lambda>x. ?y \<le> x) ?ys)"
    by (metis append_take_drop_id filter_append length_append le_add1)
  also have "\<dots> = length (filter (\<lambda>x. ?y \<le> x) xs)"
    by (simp add: filter_sort rev_filter [symmetric])
  also have "\<dots> = card {j. j < length xs \<and> ?y \<le> xs ! j}" by (simp add: length_filter_conv_card)
  finally show ?thesis .
qed

lemma updateCommitIndex_ok:
  assumes "rep n a i r" "ainv n a" "state r = StateLeader" "i < n"
  obtains b r' where "updateCommitIndex r = Inr r'" "nsteps n i a b" "rep n b i r'" "propc r' = propc r"
proof -
  let ?mci = "rev (sort (matchIndex r)) ! (quorum r - 1)"
  let ?Q = "{j. j < n \<and> ?mci \<le> matchIndex r ! j}"
  have len: "length (matchIndex r) = n" and q: "quorum r - 1 < n" "quorum r = n div 2 + 1"
    using assms(1,4) by (auto simp: rep_unfold quorum_def)
  have Q: "is_quorum n ?Q"
    using sorted_rank [of "quorum r - 1" "matchIndex r"] len q by (auto simp: is_quorum_def)
  note L = rep_leader(1) [OF assms(1-3)]
  show ?thesis
  proof (cases "int (commitIndex r) < ?mci")
    case False
    then show ?thesis using that [of r a] assms(1) len q by (simp add: updateCommitIndex_def Let_def)
  next
    case True
    have acked: "\<exists>x \<ge> nat ?mci. (currentTerm r, j, x) \<in> ackH a" if jQ: "j \<in> ?Q" for j
    proof -
      have "0 < matchIndex r ! j" using jQ True by simp
      then obtain x where "matchIndex r ! j \<le> int x" "(currentTerm r, j, x) \<in> ackH a"
        using assms(1,3) jQ unfolding rep_def acks_ok_def by blast
      moreover from this have "nat ?mci \<le> x" using jQ by (auto simp: nat_le_iff)
      ultimately show ?thesis by blast
    qed
    obtain j where "j \<in> ?Q" using majority.quorum_not_empty [OF Q] by blast
    from acked [OF this] obtain x where x: "nat ?mci \<le> x" "(currentTerm r, j, x) \<in> ackH a" by blast
    then have "x < length (log r)" using assms(2) L unfolding inv_def inv_ack_def by fastforce
    with x(1) have m: "nat ?mci < length (log r)" by linarith
    show ?thesis
    proof (cases "lTerm (log r ! nat ?mci) = currentTerm r")
      case trm: True
      let ?b = "a\<lparr>commitH := insert (currentTerm r, nat ?mci) (commitH a)\<rparr>"
      have s: "nsteps n i a ?b"
        by (rule single_step [OF decide [where quorum = "is_quorum n" and Q = ?Q, OF L m trm Q]])
          (use acked in \<open>auto simp: only_node_def\<close>)
      have rb: "rep n ?b i r" using assms(1) by (simp add: rep_def same_state_def votes_ok_def acks_ok_def)
      have "known_commit ?b (currentTerm r) (nat ?mci)" by (auto simp: known_commit_def)
      moreover have "commitIndex r < nat ?mci" using True by linarith
      ultimately obtain c where c: "nsteps n i ?b c"
        "rep n c i (r\<lparr>commitIndex := nat ?mci, commitc := commitc r @ [nat ?mci]\<rparr>)"
        using rep_learn [OF rb nsteps_inv [OF s assms(2)], of "nat ?mci" "log r"] L by auto
      have "updateCommitIndex r = Inr (r\<lparr>commitIndex := nat ?mci, commitc := commitc r @ [nat ?mci]\<rparr>)"
        using True trm m len q rep_wf [OF assms(1)] \<open>commitIndex r < nat ?mci\<close>
        by (simp add: updateCommitIndex_def Let_def log_at_lt commitTo_wf)
      then show ?thesis using that [OF _ rtranclp_trans [OF s c(1)] c(2)] by simp
    next
      case False
      then show ?thesis using that [of r a] assms(1) True m len q
        by (simp add: updateCommitIndex_def Let_def log_at_lt)
    qed
  qed
qed

lemma rep_indices:
  assumes "rep n a i r" "length nx = n" "length mx = n"
    "\<And>j. j < n \<Longrightarrow> 1 \<le> nx ! j \<and> nx ! j \<le> length (log r) \<and>
       (0 < mx ! j \<longrightarrow> (\<exists>q. mx ! j \<le> int q \<and> (currentTerm r, j, q) \<in> ackH a)) \<or> state r \<noteq> StateLeader"
  shows "rep n a i (r\<lparr>nextIndex := nx, matchIndex := mx\<rparr>)"
proof -
  have "acks_ok n a (r\<lparr>nextIndex := nx, matchIndex := mx\<rparr>)" using assms(4) by (auto simp: acks_ok_def)
  with assms(1-3) show ?thesis
    by (simp add: rep_def node_wf_def same_state_def votes_ok_def roles_agree_def cong: RaftState.case_cong)
qed

lemma rep_indexD:
  assumes "rep n a i r" "j < n" "state r = StateLeader"
  shows "1 \<le> nextIndex r ! j" "nextIndex r ! j \<le> length (log r)"
    "0 < matchIndex r ! j \<Longrightarrow> \<exists>q. matchIndex r ! j \<le> int q \<and> (currentTerm r, j, q) \<in> ackH a"
  using assms unfolding rep_def acks_ok_def by blast+

lemma rep_lengths: "rep n a i r \<Longrightarrow> length (nextIndex r) = n \<and> length (matchIndex r) = n"
  by (simp add: rep_def node_wf_def)

lemma rep_progress:
  assumes "rep n a i r" "1 \<le> x" "x \<le> length (log r)" "(currentTerm r, f, x - 1) \<in> ackH a"
  shows "rep n a i (r\<lparr>nextIndex := (nextIndex r)[f := x], matchIndex := (matchIndex r)[f := int x - 1]\<rparr>)"
proof (rule rep_indices [OF assms(1)])
  fix j assume j: "j < n"
  have "\<exists>q. int x - 1 \<le> int q \<and> (currentTerm r, f, q) \<in> ackH a"
    using assms(2,4) by (intro exI [of _ "x - 1"]) auto
  then show "1 \<le> (nextIndex r)[f := x] ! j \<and> (nextIndex r)[f := x] ! j \<le> length (log r) \<and>
    (0 < (matchIndex r)[f := int x - 1] ! j \<longrightarrow>
      (\<exists>q. (matchIndex r)[f := int x - 1] ! j \<le> int q \<and> (currentTerm r, j, q) \<in> ackH a)) \<or> state r \<noteq> StateLeader"
    using rep_indexD [OF assms(1) j] assms(2,3) j rep_lengths [OF assms(1)] by (cases "j = f") auto
qed (use rep_lengths [OF assms(1)] in auto)

lemma rep_back_off:
  assumes "rep n a i r" "1 \<le> x" "x \<le> length (log r)"
  shows "rep n a i (r\<lparr>nextIndex := (nextIndex r)[f := x]\<rparr>)"
proof -
  have "rep n a i (r\<lparr>nextIndex := (nextIndex r)[f := x], matchIndex := matchIndex r\<rparr>)"
  proof (rule rep_indices [OF assms(1)])
    fix j assume j: "j < n"
    show "1 \<le> (nextIndex r)[f := x] ! j \<and> (nextIndex r)[f := x] ! j \<le> length (log r) \<and>
      (0 < matchIndex r ! j \<longrightarrow>
        (\<exists>q. matchIndex r ! j \<le> int q \<and> (currentTerm r, j, q) \<in> ackH a)) \<or> state r \<noteq> StateLeader"
      using rep_indexD [OF assms(1) j] assms(2,3) j rep_lengths [OF assms(1)] by (cases "j = f") auto
  qed (use rep_lengths [OF assms(1)] in auto)
  then show ?thesis by simp
qed

lemma app_resp_bound:
  assumes "rep n a i r" "ainv n a" "state r = StateLeader" "app_resp_ok n a f reply" "aerTerm reply = currentTerm r"
  shows "1 \<le> aerNextIndex reply" "aerNextIndex reply \<le> length (log r)"
proof -
  note L = rep_leader(1) [OF assms(1-3)]
  have ok: "1 \<le> aerNextIndex reply" "if aerSuccess reply then (currentTerm r, f, aerNextIndex reply - 1) \<in> ackH a
      else known_commit a (currentTerm r) (aerNextIndex reply - 1) \<or>
        (\<exists>M. llog a (currentTerm r) = Some M \<and> aerNextIndex reply \<le> length M)"
    using assms(4,5) rep_term_pos [OF assms(1,2)] unfolding app_resp_ok_def by (auto split: if_splits)
  show "1 \<le> aerNextIndex reply" by (rule ok(1))
  consider "(currentTerm r, f, aerNextIndex reply - 1) \<in> ackH a"
    | "known_commit a (currentTerm r) (aerNextIndex reply - 1)" | "aerNextIndex reply \<le> length (log r)"
    using ok(2) L by (auto split: if_splits)
  then have "aerNextIndex reply - 1 < length (log r)"
  proof cases
    case 1
    then show ?thesis using assms(2) L unfolding inv_def inv_ack_def by fastforce
  next
    case 2
    then show ?thesis using known_commit_take [OF assms(2) _ L] by blast
  next
    case 3
    then show ?thesis using ok(1) by linarith
  qed
  then show "aerNextIndex reply \<le> length (log r)" by linarith
qed

lemma handleAppResp_ok:
  assumes "rep n a i r" "ainv n a" "state r = StateLeader" "i < n" "app_resp_ok n a f reply"
    "aerTerm reply = currentTerm r"
  shows "handleAppResp f args reply r = Inl IndexOutOfRangeRollback \<or>
    (\<exists>b r'. handleAppResp f args reply r = Inr r' \<and> nsteps n i a b \<and> rep n b i r' \<and> propc r' = propc r)"
proof -
  let ?x = "aerNextIndex reply"
  note bound = app_resp_bound [OF assms(1-3,5,6)]
  have f: "f < n" "length (nextIndex r) = n" "length (matchIndex r) = n"
    using assms(1,5) by (auto simp: app_resp_ok_def rep_unfold)
  have li: "lastIndex r = Inr (length (log r) - 1)" "\<not> ?x > length (log r) - 1 + 1"
    using lastIndex_wf [OF rep_wf [OF assms(1)]] bound by auto
  show ?thesis
  proof (cases "aerSuccess reply")
    case True
    let ?r = "r\<lparr>nextIndex := (nextIndex r)[f := ?x], matchIndex := (matchIndex r)[f := int ?x - 1]\<rparr>"
    have "(currentTerm r, f, ?x - 1) \<in> ackH a"
      using True assms(5,6) rep_term_pos [OF assms(1,2)] by (auto simp: app_resp_ok_def)
    then have rr: "rep n a i ?r" by (rule rep_progress [OF assms(1) bound])
    obtain b r' where "updateCommitIndex ?r = Inr r'" "nsteps n i a b" "rep n b i r'" "propc r' = propc r"
      by (rule updateCommitIndex_ok [OF rr assms(2) _ assms(4)]) (use assms(3) in auto)
    with True f li assms(1) show ?thesis
      by (cases "nextIndex r ! f \<le> ?x") (auto simp: handleAppResp_def)
  next
    case False
    have cx: "\<not> 0 < aerConflictIndex reply"
      using False assms(5,6) rep_term_pos [OF assms(1,2)] by (auto simp: app_resp_ok_def)
    have "rollbackScan (log r) ct j = Inl IndexOutOfRangeRollback \<or> (\<exists>y. rollbackScan (log r) ct j = Inr y)"
      for ct j by (induction j) auto
    from this [of "aerConflictTerm reply" "aePrevLogIndex args - 1"]
    have "handleAppResp f args reply r = Inl IndexOutOfRangeRollback \<or>
        handleAppResp f args reply r = Inr (r\<lparr>nextIndex := (nextIndex r)[f := ?x]\<rparr>)"
      using False f li cx by (auto simp: handleAppResp_def)
    moreover have "propc (r\<lparr>nextIndex := (nextIndex r)[f := ?x]\<rparr>) = propc r" by simp
    ultimately show ?thesis using rep_back_off [OF assms(1) bound] by blast
  qed
qed

section \<open>Commands and the applier\<close>

lemma handleStart_ok:
  assumes "rep n a i r" "ainv n a" "i < n"
  obtains b r' ms res where "handleStart c r = Inr (r', res)" "nsteps n i a b" "rep n b i r'"
    "propc r' = propc r @ ms" "\<And>m. m \<in> set ms \<Longrightarrow> msg_ok n b m"
    "r' = r \<or> ReadRaftState (persister r') = encoded r'"
proof (cases "state r = StateLeader")
  case False
  then show ?thesis using that [of r _ a "[]"] assms(1) by (simp add: handleStart_def)
next
  case True
  let ?e = "\<lparr>lTerm = currentTerm r, lCommand = Some c, lIndex = length (log r)\<rparr>"
  let ?b = "a\<lparr>alog := (alog a)(i := alog a i @ [?e]), llog := (llog a)(currentTerm r := Some (alog a i @ [?e])),
      ackH := insert (currentTerm r, i, length (alog a i)) (ackH a)\<rparr>"
  let ?r = "r\<lparr>log := log r @ [?e]\<rparr>"
  let ?r2 = "?r\<lparr>nextIndex := (nextIndex ?r)[i := length (log r) + 1], matchIndex := (matchIndex ?r)[i := int (length (log r) + 1) - 1]\<rparr>"
  have s: "nsteps n i a ?b"
    by (rule single_step [OF append]) (use assms True in \<open>simp_all add: rep_fields only_node_def\<close>)
  have "rep n ?b i ?r" using assms(1) True wf_log_snoc [OF rep_wf [OF assms(1)], of ?e]
    by (auto simp: rep_unfold le_SucI)
  then have r2: "rep n ?b i ?r2"
    by (rule rep_progress) (use assms(1) in \<open>auto simp: rep_log\<close>)
  obtain ms where ms: "bcastAppend ?r2 = Inr ((persist ?r2)\<lparr>propc := propc ?r2 @ ms\<rparr>)"
    "\<And>m. m \<in> set ms \<Longrightarrow> msg_ok n ?b m"
    by (rule bcastAppend_ok [OF r2 nsteps_inv [OF s assms(2)] _ assms(3)]) (use True in auto)
  have "length (nextIndex r) = n" "length (matchIndex r) = n" "me r = i" using assms(1) by (auto simp: rep_unfold)
  then have "handleStart c r = Inr ((persist ?r2)\<lparr>propc := propc r @ ms\<rparr>, int (length (log r)), int (currentTerm r), True)"
    using True assms(3) ms(1) by (simp add: handleStart_def Let_def)
  then show ?thesis using that [OF _ s, of _ _ ms] r2 ms(2) ReadRaftState_persist [of ?r2]
    by (simp add: encoded_def)
qed

end
