(* ===== verification/Raft_Safety.thy ===== *)
theory Raft_Safety
  imports Raft_Replication
begin

text \<open>
  The whole event handling of a peer, the whole cluster, and the safety theorems of the Raft
  implementation: every reachable state of \<open>Raft_System\<close> is related to a state of the
  abstract protocol.
\<close>

section \<open>Handling a message\<close>

definition received :: "nat \<Rightarrow> 'c abs \<Rightarrow> nat \<Rightarrow> 'c Message \<Rightarrow> bool" where
  "received n a i m \<longleftrightarrow> msg_ok n a m \<and> mTo m = i \<and> i < n \<and> (case mBody m of
     VoteB args reply \<Rightarrow> reply = zeroVoteReply \<and> mFrom m = rvCandidateId args \<and> mTerm m = rvTerm args
   | AppB args reply \<Rightarrow> reply = zeroAppReply \<and> mFrom m = aeLeaderId args \<and> mTerm m = aeTerm args
   | _ \<Rightarrow> True)"

definition simulated ::
  "nat \<Rightarrow> 'c abs \<Rightarrow> nat \<Rightarrow> 'c Raft \<Rightarrow> panic + 'c Raft \<times> 'c Message \<Rightarrow> bool" where
  "simulated n a i r x \<longleftrightarrow> (case x of Inl e \<Rightarrow> e = IndexOutOfRangeRollback
     | Inr (r', m') \<Rightarrow> \<exists>b ms. nsteps n i a b \<and> rep n b i r' \<and> propc r' = propc r @ ms \<and>
         (\<forall>m \<in> set (ms @ respond m'). msg_ok n b m))"

lemma simulatedI:
  "nsteps n i a b \<Longrightarrow> rep n b i r' \<Longrightarrow> propc r' = propc r @ ms \<Longrightarrow> (\<And>m. m \<in> set ms \<Longrightarrow> msg_ok n b m) \<Longrightarrow>
     (\<And>m. m \<in> set (respond m') \<Longrightarrow> msg_ok n b m) \<Longrightarrow> simulated n a i r (Inr (r', m'))"
  unfolding simulated_def by auto

lemma simulated_stutter:
  "rep n a i r \<Longrightarrow> (\<And>m. m \<in> set (respond m') \<Longrightarrow> msg_ok n a m) \<Longrightarrow> simulated n a i r (Inr (r, m'))"
  by (rule simulatedI [of _ _ _ a _ _ "[]"]) auto

lemma simulated_after:
  assumes "nsteps n i a b" "simulated n b i r1 x" "propc r1 = propc r"
  shows "simulated n a i r x"
  using assms by (auto simp: simulated_def split: sum.splits) (meson rtranclp_trans)

lemma received_mono: "received n a i m \<Longrightarrow> history_grows a b \<Longrightarrow> received n b i m"
  using msg_ok_mono unfolding received_def by blast

lemma app_request_ok:
  assumes "rep n a i r" "ainv n a" "state r = StateFollower" "received n a i m" "mTerm m = currentTerm r"
    "mBody m = AppB args reply"
  obtains b r' reply' where "handleAppendEntries (mFrom m) args reply r = Inr (r', reply')"
    "nsteps n i a b" "rep n b i r'" "propc r' = propc r"
    "\<And>x. x \<in> set (respond (m\<lparr>mBody := AppB args reply'\<rparr>)) \<Longrightarrow> msg_ok n b x"
proof -
  have args: "app_ok n a args" "aeTerm args = currentTerm r" "i < n" "mTo m = i"
    using assms(4-6) by (auto simp: received_def msg_ok_def)
  obtain b r' reply' where h: "handleAppendEntries (mFrom m) args reply r = Inr (r', reply')"
    "nsteps n i a b" "rep n b i r'" "app_resp_ok n b i reply'" "propc r' = propc r"
    by (rule handleAppendEntries_ok [OF assms(1-3) args(1-3)])
  show ?thesis by (rule that [OF h(1-3,5)]) (use h(4) args(4) in \<open>simp add: respond_def msg_ok_def\<close>)
qed

lemma stepFollower_ok:
  assumes "rep n a i r" "ainv n a" "state r = StateFollower" "received n a i m" "mTerm m = currentTerm r"
  shows "simulated n a i r (stepFollower r m)"
proof (cases "mBody m")
  case (VoteB args reply)
  have args: "vote_ok n a args" "rvTerm args = currentTerm r" "i < n" "mTo m = i" "mFrom m = rvCandidateId args"
    using assms(4,5) VoteB by (auto simp: received_def msg_ok_def)
  obtain g where g: "grantVote args r = Inr g"
    "g \<Longrightarrow> \<exists>b. nsteps n i a b \<and> rep n b i (r\<lparr>electionElapsed := 0, votedFor := Some (rvCandidateId args)\<rparr>) \<and>
       (currentTerm r, i, rvCandidateId args) \<in> votedH b"
    by (rule rep_grant [OF assms(1-3) args(1,2)]) blast
  show ?thesis
  proof (cases g)
    case True
    with g obtain b where b: "nsteps n i a b"
      "rep n b i (r\<lparr>electionElapsed := 0, votedFor := Some (rvCandidateId args)\<rparr>)"
      "(currentTerm r, i, rvCandidateId args) \<in> votedH b" by blast
    have eq: "stepFollower r m = Inr (r\<lparr>electionElapsed := 0, votedFor := Some (rvCandidateId args)\<rparr>,
        m\<lparr>mBody := VoteB args (reply\<lparr>rvrTerm := currentTerm r, rvrVoteGranted := True\<rparr>)\<rparr>)"
      using g(1) True by (simp add: stepFollower_def VoteB)
    show ?thesis unfolding eq
      by (rule simulatedI [OF b(1,2), of _ "[]"])
        (use args b(3) in \<open>auto simp: respond_def msg_ok_def vote_resp_ok_def\<close>)
  next
    case False
    then show ?thesis unfolding stepFollower_def VoteB using g(1) args assms(1)
      by (auto intro!: simulated_stutter simp: respond_def msg_ok_def vote_resp_ok_def)
  qed
next
  case (AppB args reply)
  obtain b r' reply' where h: "handleAppendEntries (mFrom m) args reply r = Inr (r', reply')"
    "nsteps n i a b" "rep n b i r'" "propc r' = propc r"
    "\<And>x. x \<in> set (respond (m\<lparr>mBody := AppB args reply'\<rparr>)) \<Longrightarrow> msg_ok n b x"
    by (rule app_request_ok [OF assms AppB]) blast
  then show ?thesis unfolding stepFollower_def AppB using simulatedI [OF h(2,3), of r "[]"] h(1,4,5) by simp
qed (use assms(1) in \<open>auto simp: stepFollower_def respond_def intro!: simulated_stutter\<close>)

lemma vote_resp_step_ok:
  assumes "rep n a i r" "ainv n a" "state r = StateCandidate" "received n a i m" "mTerm m = currentTerm r"
    "mBody m = VoteRespB args reply"
  shows "simulated n a i r (stepCandidate r m)"
proof -
  have m: "i < n" "mTo m = i" "vote_resp_ok n a (mFrom m) i reply" "rvrTerm reply = currentTerm r"
    using assms(4-6) by (auto simp: received_def msg_ok_def)
  define p where "p = fst (poll (mFrom m) (rvrVoteGranted reply) r)"
  have poll: "poll (mFrom m) (rvrVoteGranted reply) r = (p, length (filter snd (votes p)))"
    by (simp add: p_def prod_eq_iff)
  have p: "rep n a i p" "state p = StateCandidate" "propc p = propc r" "currentTerm p = currentTerm r"
    using rep_poll [OF assms(1), of "mFrom m" "rvrVoteGranted reply"] m(3,4) assms(3)
    by (auto simp: p_def vote_resp_ok_def)
  have none: "respond m = []" using assms(6) by (simp add: respond_def)
  consider (won) "quorum p = length (filter snd (votes p))"
    | (lost) "quorum p \<noteq> length (filter snd (votes p))" "quorum p = length (votes p) - length (filter snd (votes p))"
    | (pending) "quorum p \<noteq> length (filter snd (votes p))" "quorum p \<noteq> length (votes p) - length (filter snd (votes p))"
    by blast
  then show ?thesis
  proof cases
    case won
    obtain b r1 where b: "becomeLeader p = Inr r1" "nsteps n i a b" "rep n b i r1" "state r1 = StateLeader"
      "propc r1 = propc p" by (rule rep_elect [OF p(1,2) won])
    obtain ms where ms: "bcastAppend r1 = Inr ((persist r1)\<lparr>propc := propc r1 @ ms\<rparr>)"
      "\<And>x. x \<in> set ms \<Longrightarrow> msg_ok n b x"
      by (rule bcastAppend_ok [OF b(3) nsteps_inv [OF b(2) assms(2)] b(4) m(1)]) blast
    have eq: "stepCandidate r m = Inr ((persist r1)\<lparr>propc := propc r1 @ ms\<rparr>, m)"
      using assms(6) poll won b(1) ms(1) by (simp add: stepCandidate_def)
    show ?thesis unfolding eq
      by (rule simulatedI [OF b(2), of _ _ ms]) (use b(3,5) ms(2) p(3) none in auto)
  next
    case lost
    obtain b where b: "nsteps n i a b" "rep n b i (becomeFollower (currentTerm p) None p)"
      using rep_becomeFollower [OF p(1) order_refl] by blast
    have eq: "stepCandidate r m = Inr (becomeFollower (currentTerm p) None p, m)"
      using assms(6) poll lost by (simp add: stepCandidate_def)
    show ?thesis unfolding eq by (rule simulatedI [OF b, of _ "[]"]) (use p(3) none in auto)
  next
    case pending
    then have eq: "stepCandidate r m = Inr (p, m)" using assms(6) poll by (simp add: stepCandidate_def)
    show ?thesis unfolding eq by (rule simulatedI [OF _ p(1), of _ _ "[]"]) (use p(3) none in auto)
  qed
qed

lemma stepCandidate_ok:
  assumes "rep n a i r" "ainv n a" "state r = StateCandidate" "received n a i m" "mTerm m = currentTerm r"
  shows "simulated n a i r (stepCandidate r m)"
proof (cases "mBody m")
  case (VoteB args reply)
  then show ?thesis unfolding stepCandidate_def using assms(1,4)
    by (auto intro!: simulated_stutter simp: respond_def msg_ok_def vote_resp_ok_def received_def)
next
  case (AppB args reply)
  let ?r = "becomeFollower (currentTerm r) (Some (mFrom m)) r"
  obtain b where b: "nsteps n i a b" "rep n b i ?r" using rep_becomeFollower [OF assms(1) order_refl] by blast
  have b': "ainv n b" "received n b i m" "mTerm m = currentTerm ?r" "state ?r = StateFollower"
    using nsteps_inv [OF b(1) assms(2)] received_mono [OF assms(4) nsteps_grows [OF b(1) assms(2)]] assms(5) by auto
  obtain c r' reply' where h: "handleAppendEntries (mFrom m) args reply ?r = Inr (r', reply')"
    "nsteps n i b c" "rep n c i r'" "propc r' = propc ?r"
    "\<And>x. x \<in> set (respond (m\<lparr>mBody := AppB args reply'\<rparr>)) \<Longrightarrow> msg_ok n c x"
    by (rule app_request_ok [OF b(2) b'(1,4,2,3) AppB]) blast
  show ?thesis unfolding stepCandidate_def AppB
    using simulatedI [OF rtranclp_trans [OF b(1) h(2)] h(3), of r "[]"] h(1,4,5) by simp
next
  case (VoteRespB args reply)
  then show ?thesis by (rule vote_resp_step_ok [OF assms])
qed (use assms(1) in \<open>auto simp: stepCandidate_def respond_def intro!: simulated_stutter\<close>)

lemma stepLeader_ok:
  assumes "rep n a i r" "ainv n a" "state r = StateLeader" "received n a i m" "mTerm m = currentTerm r"
  shows "simulated n a i r (stepLeader r m)"
proof (cases "mBody m")
  case (AppRespB args reply)
  have m: "i < n" "app_resp_ok n a (mFrom m) reply" "aerTerm reply = currentTerm r" "respond m = []"
    using assms(4,5) AppRespB by (auto simp: received_def msg_ok_def respond_def)
  from handleAppResp_ok [OF assms(1-3) m(1-3), of args] show ?thesis
  proof (elim disjE exE conjE)
    fix b r' assume h: "handleAppResp (mFrom m) args reply r = Inr r'" "nsteps n i a b" "rep n b i r'" "propc r' = propc r"
    show ?thesis unfolding stepLeader_def AppRespB using simulatedI [OF h(2,3), of r "[]" m] h(1,4) m(4) by simp
  qed (simp add: stepLeader_def AppRespB simulated_def)
qed (use assms(1,4) in \<open>auto simp: stepLeader_def respond_def received_def msg_ok_def
       vote_resp_ok_def app_resp_ok_def zeroVoteReply_def zeroAppReply_def intro!: simulated_stutter\<close>)

lemma step_ok:
  assumes "rep n a i r" "ainv n a" "received n a i m" "mTerm m = currentTerm r"
  shows "simulated n a i r (step r m)"
proof (cases "state r")
  case StateFollower
  then have "stepf r = StepFollower" using assms(1) by (simp add: rep_unfold)
  with stepFollower_ok [OF assms(1,2) StateFollower assms(3,4)] show ?thesis by (simp add: step_def)
next
  case StateCandidate
  then have "stepf r = StepCandidate" using assms(1) by (simp add: rep_unfold)
  with stepCandidate_ok [OF assms(1,2) StateCandidate assms(3,4)] show ?thesis by (simp add: step_def)
next
  case StateLeader
  then have "stepf r = StepLeader" using assms(1) by (simp add: rep_unfold)
  with stepLeader_ok [OF assms(1,2) StateLeader assms(3,4)] show ?thesis by (simp add: step_def)
qed

lemma refuse_ok:
  assumes "rep n a i r" "ainv n a" "received n a i m"
  shows "simulated n a i r (Inr (r, refuse r m))"
proof (rule simulated_stutter [OF assms(1)])
  fix x assume "x \<in> set (respond (refuse r m))"
  then show "msg_ok n a x" using assms(3) rep_commit_facts(2) [OF assms(1,2)]
    by (cases "mBody m") (auto simp: refuse_def respond_def msg_ok_def received_def vote_resp_ok_def
        app_resp_ok_def zeroAppReply_def)
qed

lemma simulated_persist:
  "simulated n a i r x \<Longrightarrow> simulated n a i r (case x of Inl e \<Rightarrow> Inl e | Inr (r, m) \<Rightarrow> Inr (persist r, m))"
  by (auto simp: simulated_def split: sum.splits prod.splits)

lemma Step_ok:
  assumes "rep n a i r" "ainv n a" "received n a i m"
  shows "simulated n a i r (Step r m)"
  unfolding Step_def
proof (rule simulated_persist)
  consider "mTerm m > currentTerm r" | "mTerm m < currentTerm r" | "mTerm m = currentTerm r" by linarith
  then show "simulated n a i r (if mTerm m > currentTerm r then step (becomeFollower (mTerm m) None r) m
      else if mTerm m < currentTerm r then Inr (r, refuse r m) else step r m)"
  proof cases
    case 1
    let ?r = "becomeFollower (mTerm m) None r"
    obtain b where b: "nsteps n i a b" "rep n b i ?r"
      using rep_becomeFollower [OF assms(1) less_imp_le [OF 1]] by blast
    have "simulated n b i ?r (step ?r m)"
      by (rule step_ok [OF b(2) nsteps_inv [OF b(1) assms(2)]
            received_mono [OF assms(3) nsteps_grows [OF b(1) assms(2)]]]) simp
    from simulated_after [OF b(1) this] 1 show ?thesis by simp
  next
    case 2
    with refuse_ok [OF assms] show ?thesis by simp
  next
    case 3
    with step_ok [OF assms] show ?thesis by simp
  qed
qed

end
