(* ===== verification/Raft_Cluster.thy ===== *)
theory Raft_Cluster
  imports Raft_Safety
begin

text \<open>
  The cluster: ticks, the applier and restarts as runs of the abstract protocol, the simulation
  of every event, and the safety theorems for every reachable state of \<open>Raft_System\<close>.
\<close>

section \<open>Ticks\<close>

lemma durable_persist [simp]: "durable ((persist r)\<lparr>propc := ms\<rparr>)" "durable (persist r)"
  using ReadRaftState_persist [of r] by (simp_all add: durable_def encoded_def)

lemma durable_cong:
  "durable r \<Longrightarrow> persister r' = persister r \<Longrightarrow> currentTerm r' = currentTerm r \<Longrightarrow>
     votedFor r' = votedFor r \<Longrightarrow> log r' = log r \<Longrightarrow> durable r'"
  by (simp add: durable_def encoded_def)

definition tick_result :: "nat \<Rightarrow> 'c abs \<Rightarrow> nat \<Rightarrow> 'c Raft \<Rightarrow> panic + 'c Raft \<Rightarrow> bool" where
  "tick_result n a i r x \<longleftrightarrow> (\<exists>r' b ms. x = Inr r' \<and> nsteps n i a b \<and> rep n b i r' \<and>
     propc r' = propc r @ ms \<and> (\<forall>m \<in> set ms. msg_ok n b m) \<and> (durable r \<longrightarrow> durable r'))"

lemma campaign_ok:
  assumes "rep n a i r" "state r \<noteq> StateLeader" "i < n" "2 \<le> n"
  shows "tick_result n a i r (campaign r)"
proof -
  obtain b r1 where b: "becomeCandidate r = Inr r1" "nsteps n i a b" "state r1 = StateCandidate"
    "rep n b i (fst (poll i True r1))" "poll i True r1 = (fst (poll i True r1), 1)"
    "clog b (currentTerm r1) i = Some (log r1)" "propc (fst (poll i True r1)) = propc r"
    by (rule rep_campaign [OF assms(1-3)])
  let ?p = "fst (poll i True r1)"
  have p: "me r1 = i" "quorum ?p \<noteq> 1" "clog b (currentTerm ?p) i = Some (log ?p)"
    using b(4,6) assms(4) rep_me [OF b(4)] rep_peers [OF b(4)]
    by (auto simp: quorum_def poll_def Let_def split: if_splits)
  obtain ms where ms: "bcastRequestVoteRPC ?p = Inr ((persist ?p)\<lparr>propc := propc ?p @ ms\<rparr>)"
    "\<And>m. m \<in> set ms \<Longrightarrow> msg_ok n b m"
    by (rule bcastRequestVoteRPC_ok [OF b(4) p(3) assms(3)]) blast
  have "campaign r = Inr ((persist ?p)\<lparr>propc := propc r @ ms\<rparr>)"
    unfolding campaign_def b(1) using p(1,2) ms(1) b(7)
    by (subst sum.case, subst p(1), subst b(5)) simp
  then show ?thesis unfolding tick_result_def
    by (intro exI [of _ "(persist ?p)\<lparr>propc := propc r @ ms\<rparr>"] exI [of _ b] exI [of _ ms])
      (use b(2,4) ms(2) in simp)
qed

lemma tick_ok:
  assumes "rep n a i r" "ainv n a" "i < n" "2 \<le> n"
  shows "tick_result n a i r (tick r)"
proof (cases "state r = StateLeader")
  case True
  then have t: "tickf r = TickHeartbeat" using assms(1) by (simp add: rep_unfold)
  let ?r = "r\<lparr>heartbeatElapsed := 0\<rparr>"
  have r: "rep n a i ?r" "state ?r = StateLeader" using assms(1) True by simp_all
  obtain ms where ms: "bcastAppend ?r = Inr ((persist ?r)\<lparr>propc := propc ?r @ ms\<rparr>)"
    "\<And>m. m \<in> set ms \<Longrightarrow> msg_ok n a m"
    by (rule bcastAppend_ok [OF r(1) assms(2) r(2) assms(3)]) blast
  have "tick_result n a i r (bcastAppend ?r)" unfolding tick_result_def ms(1)
    by (intro exI [of _ "(persist ?r)\<lparr>propc := propc r @ ms\<rparr>"] exI [of _ a] exI [of _ ms])
      (use r(1) ms(2) in simp)
  moreover have "tick_result n a i r (Inr (r\<lparr>heartbeatElapsed := x\<rparr>))" for x
    unfolding tick_result_def using assms(1) by (auto intro!: exI [of _ a] elim: durable_cong)
  ultimately show ?thesis by (simp add: tick_def t tickHeartbeat_def Let_def)
next
  case False
  then have t: "tickf r = TickElection" using assms(1) by (cases "state r") (auto simp: rep_unfold)
  have "tick_result n a i (r\<lparr>electionElapsed := 0\<rparr>) (campaign (r\<lparr>electionElapsed := 0\<rparr>))"
    using campaign_ok [of n a i "r\<lparr>electionElapsed := 0\<rparr>"] assms False by simp
  then have "tick_result n a i r (campaign (r\<lparr>electionElapsed := 0\<rparr>))"
    unfolding tick_result_def by (simp add: durable_def encoded_def)
  moreover have "tick_result n a i r (Inr (r\<lparr>electionElapsed := x\<rparr>))" for x
    unfolding tick_result_def using assms(1) by (auto intro!: exI [of _ a] elim: durable_cong)
  ultimately show ?thesis by (simp add: tick_def t tickElection_def Let_def)
qed

section \<open>The applier\<close>

definition applied_ok :: "'c abs \<Rightarrow> 'c ApplyMsg \<Rightarrow> bool" where
  "applied_ok a am \<longleftrightarrow> (\<exists>t k M. (t, k) \<in> commitH a \<and> llog a t = Some M \<and> amIndex am \<le> k \<and> k < length M \<and>
     amCommand am = lCommand (M ! amIndex am))"

lemma applied_ok_mono:
  assumes "applied_ok a am" "history_grows a b"
  shows "applied_ok b am"
proof -
  obtain t k M where M: "(t, k) \<in> commitH a" "llog a t = Some M" "amIndex am \<le> k" "k < length M"
    "amCommand am = lCommand (M ! amIndex am)" using assms(1) unfolding applied_ok_def by blast
  moreover obtain N where "llog b t = Some (M @ N)"
    using assms(2) M(2) unfolding history_grows_def llog_ext_def by blast
  moreover have "(t, k) \<in> commitH b" using assms(2) M(1) unfolding history_grows_def by blast
  ultimately show ?thesis unfolding applied_ok_def
    by (intro exI [of _ t] exI [of _ k] exI [of _ "M @ N"]) (auto simp: nth_append)
qed

lemma committed_entry_ok:
  assumes "rep n a i r" "ainv n a" "k \<le> commitIndex r"
  shows "k < length (log r)" "applied_ok a \<lparr>amIndex = k, amCommand = lCommand (log r ! k)\<rparr>"
proof -
  show "k < length (log r)" using rep_commit_facts(1) [OF assms(1,2)] assms(3) by simp
  have "\<exists>t k M. (t, k) \<in> commitH a \<and> t \<le> aterm a i \<and> acommit a i \<le> k \<and> llog a t = Some M \<and>
      take (Suc (acommit a i)) (alog a i) = take (Suc (acommit a i)) M"
    using assms(2) unfolding inv_def inv_commit_def by blast
  then obtain t l M where M: "(t, l) \<in> commitH a" "commitIndex r \<le> l" "llog a t = Some M"
    "take (Suc (commitIndex r)) (log r) = take (Suc (commitIndex r)) M"
    using assms(1) by (auto simp: rep_fields)
  moreover have "l < length M" using assms(2) M(1,3) unfolding inv_def inv_commit_def by fastforce
  moreover have "log r ! k = M ! k" using take_Suc_eq_nth [OF M(4) assms(3)] .
  ultimately show "applied_ok a \<lparr>amIndex = k, amCommand = lCommand (log r ! k)\<rparr>"
    unfolding applied_ok_def using assms(3) by (intro exI [of _ t] exI [of _ l] exI [of _ M]) auto
qed

lemma stateMachine_wf:
  assumes "wf_log (log r)" "commitc r = ci # rest" "ci < length (log r)"
  shows "stateMachine r = (if ci > lastApplied r
     then Inr (r\<lparr>commitc := rest, lastApplied := ci\<rparr>,
       map (\<lambda>k. \<lparr>amIndex = k, amCommand = lCommand (log r ! k)\<rparr>) [lastApplied r + 1..<ci + 1])
     else Inr (r\<lparr>commitc := rest\<rparr>, []))"
proof -
  have "mapGo (applyMsg (r\<lparr>commitc := rest\<rparr>)) [lastApplied r + 1..<ci + 1] =
      Inr (map (\<lambda>k. \<lparr>amIndex = k, amCommand = lCommand (log r ! k)\<rparr>) [lastApplied r + 1..<ci + 1])"
    using assms(1,3) by (intro mapGo_Inr) (auto simp: applyMsg_def log_at_def wf_log_nth)
  moreover have "\<not> length (log r) - 1 < ci" using assms(3) by linarith
  ultimately show ?thesis using assms(1,2) by (simp add: stateMachine_def lastIndex_wf Let_def del: upt_Suc)
qed

lemma stateMachine_ok:
  assumes "rep n a i r" "ainv n a"
  obtains r' ms where "stateMachine r = Inr (r', ms)" "rep n a i r'" "propc r' = propc r"
    "durable r \<Longrightarrow> durable r'" "\<And>am. am \<in> set ms \<Longrightarrow> applied_ok a am"
proof (cases "commitc r")
  case Nil
  then show ?thesis using that [of r "[]"] assms(1) by (simp add: stateMachine_def)
next
  case (Cons ci rest)
  then have ci: "ci \<le> commitIndex r" using assms(1) by (simp add: rep_unfold)
  have len: "ci < length (log r)" using committed_entry_ok(1) [OF assms ci] .
  note sm = stateMachine_wf [OF rep_wf [OF assms(1)] Cons len]
  show ?thesis
  proof (cases "ci > lastApplied r")
    case True
    let ?r = "r\<lparr>commitc := rest, lastApplied := ci\<rparr>"
    have "rep n a i ?r" using assms(1) Cons ci by (simp add: rep_unfold cong: RaftState.case_cong)
    moreover have "durable r \<Longrightarrow> durable ?r" by (erule durable_cong) simp_all
    moreover have "applied_ok a am" if
      "am \<in> set (map (\<lambda>k. \<lparr>amIndex = k, amCommand = lCommand (log r ! k)\<rparr>) [lastApplied r + 1..<ci + 1])" for am
      using that committed_entry_ok(2) [OF assms] ci by auto
    ultimately show ?thesis using that [of ?r] sm True by simp
  next
    case False
    let ?r = "r\<lparr>commitc := rest\<rparr>"
    have "rep n a i ?r" using assms(1) Cons by (simp add: rep_unfold cong: RaftState.case_cong)
    moreover have "durable r \<Longrightarrow> durable ?r" by (erule durable_cong) simp_all
    ultimately show ?thesis using that [of ?r "[]"] sm False by simp
  qed
qed

section \<open>Restart\<close>

lemma Make_fields:
  assumes "durable r"
  shows "currentTerm (Make n i (Copy (persister r)) rnd) = currentTerm r"
    "votedFor (Make n i (Copy (persister r)) rnd) = votedFor r"
    "log (Make n i (Copy (persister r)) rnd) = log r"
  using assms unfolding durable_def
  by (auto simp: Make_def persister_store.read1_dup readPersist_encoded readPersist_Nil zeroRaft_def)

lemma Make_volatile:
  "me (Make n i ps rnd) = i" "peers (Make n i ps rnd) = n" "commitIndex (Make n i ps rnd) = 0"
  "lastApplied (Make n i ps rnd) = 0" "commitc (Make n i ps rnd) = []" "propc (Make n i ps rnd) = []"
  "state (Make n i ps rnd) = StateFollower" "stepf (Make n i ps rnd) = StepFollower"
  "tickf (Make n i ps rnd) = TickElection" "votes (Make n i ps rnd) = []"
  "length (nextIndex (Make n i ps rnd)) = n" "length (matchIndex (Make n i ps rnd)) = n"
  "persister (Make n i ps rnd) = ps"
  by (simp_all add: Make_def readPersist_def zeroRaft_def split: prod.splits)

lemma restart_ok:
  assumes "rep n a i r" "ainv n a" "durable r"
  obtains b where "nsteps n i a b" "rep n b i (Make n i (Copy (persister r)) rnd)"
    "durable (Make n i (Copy (persister r)) rnd)"
proof -
  let ?r = "Make n i (Copy (persister r)) rnd"
  have "\<exists>t k M. (t, k) \<in> commitH a \<and> t \<le> aterm a i \<and> acommit a i \<le> k \<and> llog a t = Some M \<and>
      take (Suc (acommit a i)) (alog a i) = take (Suc (acommit a i)) M"
    using assms(2) unfolding inv_def inv_commit_def by blast
  then obtain t k M where M: "(t, k) \<in> commitH a" "t \<le> aterm a i" "llog a t = Some M"
    "take (Suc (acommit a i)) (alog a i) = take (Suc (acommit a i)) M" by blast
  let ?a = "a\<lparr>arole := (arole a)(i := StateFollower)\<rparr>"
  let ?b = "?a\<lparr>acommit := (acommit ?a)(i := 0)\<rparr>"
  have s1: "nsteps n i a ?a" by (rule single_step [OF stepdown]) (simp add: only_node_def)
  have s2: "nsteps n i ?a ?b"
    by (rule single_step [OF learn [of t k _ i 0 M]])
      (use M take_Suc_eq_mono [OF M(4), of 0] in \<open>auto simp: only_node_def\<close>)
  have "rep n ?b i ?r" using assms(1) Make_fields [OF assms(3)]
    by (simp add: rep_unfold Make_volatile)
  moreover have "durable ?r" using assms(3) Make_fields [OF assms(3)]
    by (simp add: durable_def Make_volatile encoded_def persister_store.read1_dup)
  ultimately show ?thesis using that rtranclp_trans [OF s1 s2] by blast
qed

end
