(* ===== verification/Raft_Correct.thy ===== *)
theory Raft_Correct
  imports Raft_Cluster
begin

text \<open>
  Every event of the cluster is a run of the abstract protocol, and what follows for the
  reachable states: the five safety properties that \<open>src/mit/src/raft/doc.go\<close> lists,
  absence of panics, and durability of what a peer has promised.
\<close>

section \<open>The simulation\<close>

definition cluster :: "nat \<Rightarrow> 'c Sys \<Rightarrow> 'c abs \<Rightarrow> bool" where
  "cluster n s a \<longleftrightarrow> ainv n a \<and>
     (\<forall>i < n. rep n a i (node s i) \<and> durable (node s i) \<and> propc (node s i) = []) \<and>
     (\<forall>m \<in> set (net s). msg_ok n a m) \<and> (\<forall>x \<in> set (applied s). applied_ok a (snd x)) \<and>
     (\<forall>x \<in> set (panics s). snd x = IndexOutOfRangeRollback)"

lemma cluster_node:
  assumes "cluster n s a" "i < n"
  shows "ainv n a" "rep n a i (node s i)" "durable (node s i)" "propc (node s i) = []"
  using assms by (auto simp: cluster_def)

lemma cluster_down [simp]: "cluster n (s\<lparr>down := d\<rparr>) a = cluster n s a"
  by (simp add: cluster_def)

lemma cluster_crash: "cluster n s a \<Longrightarrow> e = IndexOutOfRangeRollback \<Longrightarrow> cluster n (crash i e s) a"
  by (auto simp: cluster_def crash_def)

lemma durable_propc [simp]: "durable (r\<lparr>propc := ms\<rparr>) = durable r"
  by (simp add: durable_def encoded_def)

lemma cluster_update:
  assumes "cluster n s a" "nsteps n i a b" "rep n b i r" "durable r"
    "\<And>m. m \<in> set ms \<Longrightarrow> msg_ok n b m" "\<And>am. am \<in> set ams \<Longrightarrow> applied_ok b am"
  shows "cluster n (s\<lparr>node := (node s)(i := r\<lparr>propc := []\<rparr>), net := net s @ ms,
    applied := applied s @ map (Pair i) ams\<rparr>) b"
proof -
  have a: "ainv n a" using assms(1) by (simp add: cluster_def)
  have b: "ainv n b" "history_grows a b" "only_node i a b" using nsteps_props [OF assms(2) a] by auto
  have "rep n b j (((node s)(i := r\<lparr>propc := []\<rparr>)) j)" if "j < n" for j
    using assms(1,3) that rep_other [OF _ b(2,3)] by (cases "j = i") (auto simp: cluster_def)
  moreover have "msg_ok n b m" if "m \<in> set (net s @ ms)" for m
    using that assms(1,5) msg_ok_mono [OF _ b(2)] by (auto simp: cluster_def)
  moreover have "applied_ok b (snd x)" if "x \<in> set (applied s @ map (Pair i) ams)" for x
    using that assms(1,6) applied_ok_mono [OF _ b(2)] by (auto simp: cluster_def)
  ultimately show ?thesis using assms(1,4) b(1) by (auto simp: cluster_def)
qed

lemma serveChannels_eq:
  "serveChannels i r s = s\<lparr>node := (node s)(i := r\<lparr>propc := []\<rparr>), net := net s @ propc r,
     applied := applied s @ map (Pair i) []\<rparr>"
  by (simp add: serveChannels_def)

lemma received_receive:
  assumes "cluster n s a" "m \<in> set (net s)" "mTo m < n"
  shows "received n a (mTo m) (receive m (node s (mTo m)))"
proof -
  have "msg_ok n a m" "me (node s (mTo m)) = mTo m"
    using assms rep_me [OF cluster_node(2) [OF assms(1,3)]] by (auto simp: cluster_def)
  with assms(3) show ?thesis
    by (cases "mBody m") (auto simp: received_def receive_def msg_ok_def RequestVote_def AppendEnties_def)
qed

lemma sim_deliver:
  assumes "cluster n s a" "m \<in> set (net s)" "mTo m < n"
  shows "\<exists>b. nsteps n (mTo m) a b \<and> cluster n (case Step (node s (mTo m)) (receive m (node s (mTo m))) of
     Inl e \<Rightarrow> crash (mTo m) e s
   | Inr (r, m') \<Rightarrow> (serveChannels (mTo m) r s)\<lparr>net := net s @ propc r @ respond m'\<rparr>) b"
proof -
  let ?i = "mTo m" and ?x = "Step (node s (mTo m)) (receive m (node s (mTo m)))"
  note c = cluster_node [OF assms(1,3)]
  have sim: "simulated n a ?i (node s ?i) ?x"
    by (rule Step_ok [OF c(2,1) received_receive [OF assms]])
  show ?thesis
  proof (cases ?x)
    case (Inl e)
    with sim cluster_crash [OF assms(1)] show ?thesis by (auto simp: simulated_def)
  next
    case (Inr y)
    obtain r m' where y: "y = (r, m')" by force
    from sim obtain b ms where b: "nsteps n ?i a b" "rep n b ?i r" "propc r = ms"
      "\<forall>x \<in> set (ms @ respond m'). msg_ok n b x" unfolding simulated_def Inr y using c(4) by auto
    have "durable r" using Inr y by (auto simp: Step_def split: sum.splits)
    from cluster_update [OF assms(1) b(1,2) this, of "ms @ respond m'" "[]"] b
    show ?thesis by (auto simp: Inr y serveChannels_eq)
  qed
qed

lemma sim_tick:
  assumes "cluster n s a" "i < n" "2 \<le> n"
  shows "\<exists>b. nsteps n i a b \<and> cluster n (case tick (node s i) of Inl e \<Rightarrow> crash i e s
    | Inr r \<Rightarrow> serveChannels i r s) b"
proof -
  note c = cluster_node [OF assms(1,2)]
  obtain r b ms where b: "tick (node s i) = Inr r" "nsteps n i a b" "rep n b i r" "propc r = ms"
    "\<forall>m \<in> set ms. msg_ok n b m" "durable r"
    using tick_ok [OF c(2,1) assms(2,3)] c(3,4) unfolding tick_result_def by auto
  from cluster_update [OF assms(1) b(2,3,6), of ms "[]"] b show ?thesis by (auto simp: serveChannels_eq)
qed

lemma sim_start:
  assumes "cluster n s a" "i < n"
  shows "\<exists>b. nsteps n i a b \<and> cluster n (case Start cmd (node s i) of Inl e \<Rightarrow> crash i e s
    | Inr (r, _) \<Rightarrow> serveChannels i r s) b"
proof -
  note c = cluster_node [OF assms]
  obtain b r ms res where b: "handleStart cmd (node s i) = Inr (r, res)" "nsteps n i a b" "rep n b i r"
    "propc r = propc (node s i) @ ms" "\<And>m. m \<in> set ms \<Longrightarrow> msg_ok n b m"
    "r = node s i \<or> ReadRaftState (persister r) = encoded r"
    by (rule handleStart_ok [OF c(2,1) assms(2)]) blast
  have d: "durable r" using b(6) c(3) by (auto simp: durable_def)
  have "Start cmd (node s i) = Inr (r, res)"
    using b(1) by (auto simp: Start_def handleCommand_def handleStart_def)
  with cluster_update [OF assms(1) b(2,3) d, of ms "[]"] b(2,4,5) c(4) show ?thesis
    by (auto simp: serveChannels_eq)
qed

lemma sim_apply:
  assumes "cluster n s a" "i < n"
  shows "\<exists>b. nsteps n i a b \<and> cluster n (case stateMachine (node s i) of Inl e \<Rightarrow> crash i e s
    | Inr (r, ms) \<Rightarrow> (serveChannels i r s)\<lparr>applied := applied s @ map (Pair i) ms\<rparr>) b"
proof -
  note c = cluster_node [OF assms]
  obtain r ms where r: "stateMachine (node s i) = Inr (r, ms)" "rep n a i r" "propc r = propc (node s i)"
    "durable (node s i) \<Longrightarrow> durable r" "\<And>am. am \<in> set ms \<Longrightarrow> applied_ok a am"
    by (rule stateMachine_ok [OF c(2,1)]) blast
  from cluster_update [OF assms(1) rtranclp.rtrancl_refl r(2) r(4) [OF c(3)], of "[]" ms] r(1,3,5) c(4)
  show ?thesis by (auto simp: serveChannels_def)
qed

lemma sim_restart:
  assumes "cluster n s a" "i < n"
  shows "\<exists>b. nsteps n i a b \<and>
    cluster n (s\<lparr>node := (node s)(i := Make n i (Copy (persister (node s i))) rnd), down := d\<rparr>) b"
proof -
  note c = cluster_node [OF assms]
  let ?r = "Make n i (Copy (persister (node s i))) rnd"
  obtain b where b: "nsteps n i a b" "rep n b i ?r" "durable ?r" by (rule restart_ok [OF c(2,1,3)])
  have "?r\<lparr>propc := []\<rparr> = ?r" using Make_volatile(6) by (metis Raft.surjective Raft.update_convs(20))
  with cluster_update [OF assms(1) b, of "[]" "[]"] b(1) show ?thesis
    by (intro exI [of _ b]) (simp add: cluster_def)
qed

lemma sim_rand:
  assumes "cluster n s a" "i < n"
  shows "cluster n (s\<lparr>node := (node s)(i := (node s i)\<lparr>globalRand := rnd\<rparr>)\<rparr>) a"
  using assms by (auto simp: cluster_def durable_def encoded_def)

lemma nsteps_asteps: "nsteps n i a b \<Longrightarrow> (astep (is_quorum n))\<^sup>*\<^sup>* a b"
  by (erule rtranclp_mono [THEN predicate2D, rotated]) (auto simp: nstep_def)

lemma sys_step_sim:
  assumes "cluster n s a" "sys_step n ev s = Some s'" "2 \<le> n"
  shows "\<exists>i b. nsteps n i a b \<and> cluster n s' b"
  using assms(2)
proof (cases ev)
  case (ETick i)
  with assms sim_tick [OF assms(1) _ assms(3), of i] show ?thesis by (auto simp: sys_step_def split: if_splits)
next
  case (EDeliver m)
  then have m: "m \<in> set (net s)" "mTo m < n" using assms(2) by (auto simp: sys_step_def Let_def split: if_splits)
  from sim_deliver [OF assms(1) m] assms(2) EDeliver show ?thesis
    by (auto simp: sys_step_def Let_def split: if_splits)
next
  case (EStart i c)
  with assms(2) sim_start [OF assms(1), of i c] show ?thesis by (auto simp: sys_step_def split: if_splits)
next
  case (EApply i)
  with assms(2) sim_apply [OF assms(1), of i] show ?thesis by (auto simp: sys_step_def split: if_splits)
next
  case (EKill i)
  with assms(1,2) show ?thesis by (intro exI [of _ i] exI [of _ a]) (auto simp: sys_step_def split: if_splits)
next
  case (ERestart i rnd)
  with assms(2) sim_restart [OF assms(1), where i = i and rnd = rnd] show ?thesis
    by (intro exI [of _ i]) (auto simp: sys_step_def split: if_splits)
next
  case (ERand i rnd)
  with assms(2) sim_rand [OF assms(1), of i rnd] show ?thesis
    by (intro exI [of _ i] exI [of _ a]) (auto simp: sys_step_def split: if_splits)
qed

lemma sys_run_sim:
  assumes "cluster n s a" "sys_run n evs s = Some s'" "2 \<le> n"
  shows "\<exists>b. (astep (is_quorum n))\<^sup>*\<^sup>* a b \<and> history_grows a b \<and> cluster n s' b"
  using assms(1,2)
proof (induction evs arbitrary: s a)
  case Nil
  then show ?case by auto
next
  case (Cons ev evs)
  then obtain s1 where s1: "sys_step n ev s = Some s1" "sys_run n evs s1 = Some s'" by (auto split: option.splits)
  obtain i b where b: "nsteps n i a b" "cluster n s1 b" using sys_step_sim [OF Cons.prems(1) s1(1) assms(3)] by blast
  have h: "history_grows a b" using nsteps_grows [OF b(1)] Cons.prems(1) by (simp add: cluster_def)
  from Cons.IH [OF b(2) s1(2)] obtain c where "(astep (is_quorum n))\<^sup>*\<^sup>* b c" "history_grows b c" "cluster n s' c" by blast
  with h nsteps_asteps [OF b(1)] history_grows_trans show ?case by (meson rtranclp_trans)
qed

lemma Make_fresh:
  "currentTerm (Make n i MakePersister rnd) = 1" "votedFor (Make n i MakePersister rnd) = None"
  "log (Make n i MakePersister rnd) = [sentinel]" "ReadRaftState MakePersister = []"
  by (simp_all add: Make_def ReadRaftState_def MakePersister_def readPersist_Nil zeroRaft_def)

lemma cluster_init:
  assumes "0 < n"
  shows "cluster n (init_sys n rnd) (ainit :: 'c abs)"
proof -
  have "rep n (ainit :: 'c abs) i (Make n i MakePersister (rnd i)) \<and>
      durable (Make n i MakePersister (rnd i) :: 'c Raft)" for i
    by (simp add: rep_unfold Make_volatile Make_fresh durable_def ainit_def)
  with inv_init [where 'a = 'c, of "is_quorum n", OF is_quorum_all [OF assms]] show ?thesis
    by (simp add: cluster_def init_sys_def Make_volatile)
qed

lemma reachable_cluster:
  assumes "reachable n s" "2 \<le> n"
  obtains a where "areach (is_quorum n) a" "cluster n s a"
proof -
  have "\<exists>a. areach (is_quorum n) a \<and> cluster n s a"
    using assms(1)
  proof induction
    case (init rnd)
    show ?case by (intro exI [of _ ainit] conjI cluster_init) (use assms(2) in \<open>auto simp: areach_def\<close>)
  next
    case (more s ev s')
    then obtain a where a: "areach (is_quorum n) a" "cluster n s a" by blast
    from sys_step_sim [OF a(2) more.hyps(2) assms(2)] obtain i b where "nsteps n i a b" "cluster n s' b" by blast
    with a(1) nsteps_asteps show ?case unfolding areach_def by (meson rtranclp_trans)
  qed
  with that show ?thesis by blast
qed

section \<open>What the relation gives for the peers\<close>

lemma cluster_leader_unique:
  assumes "cluster n s a" "cluster n s' b" "history_grows a b" "i < n" "j < n"
    "state (node s i) = StateLeader" "state (node s' j) = StateLeader"
    "currentTerm (node s i) = currentTerm (node s' j)"
  shows "i = j"
proof -
  have "leadH b (currentTerm (node s i)) = Some i"
    using rep_leader(2) [OF cluster_node(2,1) [OF assms(1,4)] assms(6)] assms(3) unfolding history_grows_def by blast
  with rep_leader(2) [OF cluster_node(2,1) [OF assms(2,5)] assms(7)] assms(8) show ?thesis by simp
qed

lemma cluster_log_matching:
  assumes "cluster n s a" "i < n" "j < n" "k < length (log (node s i))" "k < length (log (node s j))"
    "lTerm (log (node s i) ! k) = lTerm (log (node s j) ! k)"
  shows "take (Suc k) (log (node s i)) = take (Suc k) (log (node s j))"
  by (rule log_matching [OF rep_from_leaders(1) [OF cluster_node(2,1) [OF assms(1,2)]]
        rep_from_leaders(1) [OF cluster_node(2,1) [OF assms(1,3)]] assms(4-6)])

lemma cluster_committed:
  assumes "cluster n s a" "i < n"
  obtains t k M where "(t, k) \<in> commitH a" "t \<le> currentTerm (node s i)" "commitIndex (node s i) \<le> k"
    "llog a t = Some M"
    "take (Suc (commitIndex (node s i))) (log (node s i)) = take (Suc (commitIndex (node s i))) M"
proof -
  note c = cluster_node [OF assms]
  have "\<exists>t k M. (t, k) \<in> commitH a \<and> t \<le> aterm a i \<and> acommit a i \<le> k \<and> llog a t = Some M \<and>
      take (Suc (acommit a i)) (alog a i) = take (Suc (acommit a i)) M"
    using c(1) unfolding inv_def inv_commit_def by blast
  with that c(2) show ?thesis by (auto simp: rep_fields)
qed

lemma committed_later:
  assumes "cluster n s a" "cluster n s' b" "history_grows a b" "i < n"
  obtains t k M where "(t, k) \<in> commitH b" "t \<le> currentTerm (node s i)" "commitIndex (node s i) \<le> k"
    "llog b t = Some M"
    "take (Suc (commitIndex (node s i))) (log (node s i)) = take (Suc (commitIndex (node s i))) M"
proof -
  obtain t k M where M: "(t, k) \<in> commitH a" "t \<le> currentTerm (node s i)" "commitIndex (node s i) \<le> k"
    "llog a t = Some M"
    "take (Suc (commitIndex (node s i))) (log (node s i)) = take (Suc (commitIndex (node s i))) M"
    by (rule cluster_committed [OF assms(1,4)])
  obtain N where N: "llog b t = Some (M @ N)"
    using assms(3) M(4) unfolding history_grows_def llog_ext_def by blast
  have "k < length M" using assms(1) M(1,4) unfolding cluster_def inv_def inv_commit_def by fastforce
  then have "take (Suc (commitIndex (node s i))) (log (node s i)) = take (Suc (commitIndex (node s i))) (M @ N)"
    using M(3,5) by simp
  moreover have "(t, k) \<in> commitH b" using assms(3) M(1) unfolding history_grows_def by blast
  ultimately show ?thesis using that N M(2,3) by blast
qed

lemma reachable_command:
  assumes "reachable n s" "2 \<le> n" "i < n" "0 < k" "k < length (log (node s i))"
  shows "lCommand (log (node s i) ! k) \<noteq> None"
proof -
  obtain a where a: "areach (is_quorum n) a" "cluster n s a" by (rule reachable_cluster [OF assms(1,2)])
  have "is_quorum n {..<n}" using assms(2) by (intro is_quorum_all) simp
  from from_leaders_cmds [OF majority.areach_cmds_ok [OF a(1) this]
      rep_from_leaders(1) [OF cluster_node(2,1) [OF a(2) assms(3)]] assms(4,5)]
  show ?thesis .
qed

lemma reachable_peer:
  assumes "reachable n s" "2 \<le> n" "i < n"
  shows "wf_log (log (node s i))" "lastApplied (node s i) \<le> commitIndex (node s i)"
    "commitIndex (node s i) < length (log (node s i))"
    "c \<in> set (commitc (node s i)) \<Longrightarrow> c \<le> commitIndex (node s i)"
proof -
  obtain a where "cluster n s a" by (rule reachable_cluster [OF assms(1,2)])
  note c = cluster_node [OF this assms(3)]
  show "wf_log (log (node s i))" "lastApplied (node s i) \<le> commitIndex (node s i)"
    "commitIndex (node s i) < length (log (node s i))"
    "c \<in> set (commitc (node s i)) \<Longrightarrow> c \<le> commitIndex (node s i)"
    using c(2) rep_commit_facts(1) [OF c(2,1)] by (auto simp: rep_def node_wf_def)
qed

lemma committed_prefix_agree:
  assumes "reachable n s" "2 \<le> n" "sys_run n evs s = Some s'" "i < n" "j < n"
    "k \<le> commitIndex (node s i)" "k \<le> commitIndex (node s' j)"
  shows "take (Suc k) (log (node s i)) = take (Suc k) (log (node s' j))"
proof -
  obtain a where a: "cluster n s a" by (rule reachable_cluster [OF assms(1,2)])
  obtain b where b: "history_grows a b" "cluster n s' b" using sys_run_sim [OF a assms(3,2)] by blast
  obtain t l M where M: "(t, l) \<in> commitH b" "commitIndex (node s i) \<le> l" "llog b t = Some M"
    "take (Suc (commitIndex (node s i))) (log (node s i)) = take (Suc (commitIndex (node s i))) M"
    by (rule committed_later [OF a b(2,1) assms(4)])
  obtain u m U where U: "(u, m) \<in> commitH b" "commitIndex (node s' j) \<le> m" "llog b u = Some U"
    "take (Suc (commitIndex (node s' j))) (log (node s' j)) = take (Suc (commitIndex (node s' j))) U"
    by (rule cluster_committed [OF b(2) assms(5)])
  have "take (Suc k) M = take (Suc k) U"
    by (rule majority.committed_agree [OF cluster_node(1) [OF b(2) assms(5)] M(1,3) U(1,3)])
      (use M(2) U(2) assms(6,7) in simp_all)
  with take_Suc_eq_mono [OF M(4) assms(6)] take_Suc_eq_mono [OF U(4) assms(7)] show ?thesis by simp
qed

text \<open>All messages ever put on an apply channel with one index carry one command.\<close>

lemma applied_agree:
  assumes "reachable n s" "2 \<le> n" "(i, x) \<in> set (applied s)" "(j, y) \<in> set (applied s)"
    "amIndex x = amIndex y"
  shows "amCommand x = amCommand y"
proof -
  obtain a where a: "cluster n s a" by (rule reachable_cluster [OF assms(1,2)])
  then have inv: "ainv n a" "applied_ok a x" "applied_ok a y" using assms(3,4) by (auto simp: cluster_def)
  from inv(2,3) obtain t k M u l U where M: "(t, k) \<in> commitH a" "llog a t = Some M" "amIndex x \<le> k"
    "amCommand x = lCommand (M ! amIndex x)"
    and U: "(u, l) \<in> commitH a" "llog a u = Some U" "amIndex y \<le> l" "amCommand y = lCommand (U ! amIndex y)"
    unfolding applied_ok_def by blast
  have "take (Suc (amIndex x)) M = take (Suc (amIndex x)) U"
    by (rule majority.committed_agree [OF inv(1) M(1,2) U(1,2) M(3)]) (use U(3) assms(5) in simp)
  then show ?thesis using take_Suc_eq_nth M(4) U(4) assms(5) by (metis order_refl)
qed

lemma leader_unique:
  assumes "reachable n s" "2 \<le> n" "sys_run n evs s = Some s'" "i < n" "j < n"
    "state (node s i) = StateLeader" "state (node s' j) = StateLeader"
    "currentTerm (node s i) = currentTerm (node s' j)"
  shows "i = j"
proof -
  obtain a where a: "cluster n s a" by (rule reachable_cluster [OF assms(1,2)])
  obtain b where "history_grows a b" "cluster n s' b" using sys_run_sim [OF a assms(3,2)] by blast
  from cluster_leader_unique [OF a this(2,1) assms(4-8)] show ?thesis .
qed

end
