(* ===== verification/Raft_Frame.thy ===== *)
theory Raft_Frame
  imports Raft_System
begin

text \<open>
  Only the applier moves \<open>lastApplied\<close>, and only a restart resets it: every other handler
  of a peer leaves it alone.
\<close>

section \<open>Handlers\<close>

lemma bcastRequestVoteRPC_lastApplied:
  "bcastRequestVoteRPC r = Inr r' \<Longrightarrow> lastApplied r' = lastApplied r"
  by (auto simp: bcastRequestVoteRPC_def Let_def split: sum.splits)

lemma bcastAppend_lastApplied: "bcastAppend r = Inr r' \<Longrightarrow> lastApplied r' = lastApplied r"
  by (auto simp: bcastAppend_def Let_def split: sum.splits)

lemma becomeCandidate_lastApplied: "becomeCandidate r = Inr r' \<Longrightarrow> lastApplied r' = lastApplied r"
  by (auto simp: becomeCandidate_def split: if_splits)

lemma becomeLeader_lastApplied: "becomeLeader r = Inr r' \<Longrightarrow> lastApplied r' = lastApplied r"
  by (auto simp: becomeLeader_def Let_def split: if_splits)

lemma poll_lastApplied: "lastApplied (fst (poll v g r)) = lastApplied r"
  by (simp add: poll_def Let_def)

lemma poll_lastApplied': "poll v g r = (r', k) \<Longrightarrow> lastApplied r' = lastApplied r"
  using poll_lastApplied [of v g r] by simp

lemma commitTo_lastApplied: "commitTo c r = Inr r' \<Longrightarrow> lastApplied r' = lastApplied r"
  by (auto simp: commitTo_def split: sum.splits if_splits)

lemma updateCommitIndex_lastApplied: "updateCommitIndex r = Inr r' \<Longrightarrow> lastApplied r' = lastApplied r"
  by (auto simp: updateCommitIndex_def Let_def split: sum.splits if_splits dest: commitTo_lastApplied)

lemma appendLog_lastApplied: "appendLog es r = Inr r' \<Longrightarrow> lastApplied r' = lastApplied r"
  by (auto simp: appendLog_def split: list.splits if_splits)

lemma mergeEntries_lastApplied: "mergeEntries args r = Inr r' \<Longrightarrow> lastApplied r' = lastApplied r"
  by (auto simp: mergeEntries_def Let_def split: sum.splits if_splits dest: appendLog_lastApplied)

lemma followCommit_lastApplied: "followCommit c r = Inr r' \<Longrightarrow> lastApplied r' = lastApplied r"
  by (auto simp: followCommit_def split: sum.splits if_splits dest: commitTo_lastApplied)

lemma acceptEntries_lastApplied: "acceptEntries args reply r = Inr (r', reply') \<Longrightarrow> lastApplied r' = lastApplied r"
  by (auto simp: acceptEntries_def Let_def split: sum.splits
      dest!: mergeEntries_lastApplied followCommit_lastApplied)

lemma rejectEntries_lastApplied: "rejectEntries args reply r = Inr (r', reply') \<Longrightarrow> lastApplied r' = lastApplied r"
  by (auto simp: rejectEntries_def Let_def split: sum.splits if_splits)

lemma appendBody_lastApplied: "appendBody args reply r = Inr (r', reply') \<Longrightarrow> lastApplied r' = lastApplied r"
  by (auto simp: appendBody_def split: sum.splits if_splits
      dest!: acceptEntries_lastApplied rejectEntries_lastApplied)

lemma handleAppendEntries_lastApplied:
  "handleAppendEntries f args reply r = Inr (r', reply') \<Longrightarrow> lastApplied r' = lastApplied r"
  by (auto simp: handleAppendEntries_def Let_def split: sum.splits if_splits dest!: appendBody_lastApplied)

lemma handleAppResp_lastApplied: "handleAppResp f args reply r = Inr r' \<Longrightarrow> lastApplied r' = lastApplied r"
  by (auto simp: handleAppResp_def split: sum.splits if_splits dest!: updateCommitIndex_lastApplied)

lemma step_lastApplied: "step r m = Inr (r', m') \<Longrightarrow> lastApplied r' = lastApplied r"
  by (auto simp: step_def stepFollower_def stepCandidate_def stepLeader_def Let_def
      split: stepFn.splits Body.splits sum.splits prod.splits if_splits
      dest!: handleAppendEntries_lastApplied handleAppResp_lastApplied poll_lastApplied'
        becomeLeader_lastApplied bcastAppend_lastApplied)

lemma Step_lastApplied: "Step r m = Inr (r', m') \<Longrightarrow> lastApplied r' = lastApplied r"
  by (auto simp: Step_def split: sum.splits if_splits dest!: step_lastApplied)

lemma campaign_lastApplied: "campaign r = Inr r' \<Longrightarrow> lastApplied r' = lastApplied r"
  by (auto simp: campaign_def split: sum.splits prod.splits if_splits
      dest!: becomeCandidate_lastApplied poll_lastApplied' becomeLeader_lastApplied
        bcastRequestVoteRPC_lastApplied)

lemma tick_lastApplied: "tick r = Inr r' \<Longrightarrow> lastApplied r' = lastApplied r"
  by (auto simp: tick_def tickElection_def tickHeartbeat_def Let_def split: tickFn.splits if_splits
      dest!: campaign_lastApplied bcastAppend_lastApplied)

lemma Start_lastApplied: "Start c r = Inr (r', res) \<Longrightarrow> lastApplied r' = lastApplied r"
  by (auto simp: Start_def handleCommand_def handleStart_def Let_def split: if_splits sum.splits
      dest!: bcastAppend_lastApplied)

section \<open>Events\<close>

definition applies :: "'c event \<Rightarrow> nat \<Rightarrow> bool" where
  "applies ev i \<longleftrightarrow> ev = EApply i \<or> (\<exists>rnd. ev = ERestart i rnd)"

lemma sys_step_lastApplied:
  assumes "sys_step n ev s = Some s'" "\<not> applies ev i"
  shows "lastApplied (node s' i) = lastApplied (node s i)"
  using assms
  by (cases ev) (auto simp: sys_step_def applies_def Let_def crash_def serveChannels_def
      split: if_splits sum.splits dest: Step_lastApplied tick_lastApplied Start_lastApplied)

lemma sys_step_applied:
  assumes "sys_step n ev s = Some s'" "\<And>i. ev \<noteq> EApply i"
  shows "applied s' = applied s"
  using assms
  by (cases ev) (auto simp: sys_step_def Let_def crash_def serveChannels_def split: if_splits sum.splits)

end
