(* ===== verification/Raft_Service.thy ===== *)
theory Raft_Service
  imports Raft_Correct Raft_Frame
begin

text \<open>
  What a cluster of Raft peers promises the service above it, the interface \<open>replicated_log\<close>:
  the sequence of commands each peer has handed over, how it grows, and that the sequences of any
  two peers agree.
\<close>

section \<open>What Raft promises a service\<close>

text \<open>
  The entries each peer has handed to its service so far; of any two peers one has handed over
  a prefix of what the other has.
\<close>

locale replicated_log =
  fixes view :: "nat \<Rightarrow> 'e list"
  assumes prefix: "length (view i) \<le> length (view j) \<Longrightarrow> view i = take (length (view i)) (view j)"
begin

lemma same_length_same_view: "length (view i) = length (view j) \<Longrightarrow> view i = view j"
  using prefix [of i j] by simp

text \<open>Deterministic state machines fed from the views agree, and a slower one catches up.\<close>

lemma same_state: "length (view i) = length (view j) \<Longrightarrow> fold f (view i) x = fold f (view j) x"
  using same_length_same_view by metis

lemma catch_up:
  assumes "length (view i) \<le> length (view j)"
  shows "fold f (view j) x = fold f (drop (length (view i)) (view j)) (fold f (view i) x)"
proof -
  have "view j = view i @ drop (length (view i)) (view j)"
    using prefix [OF assms] by (metis append_take_drop_id)
  then show ?thesis by (metis fold_append comp_apply)
qed

end

definition handed_over :: "nat \<Rightarrow> 'c Sys \<Rightarrow> nat \<Rightarrow> 'c list" where
  "handed_over n s i = (if reachable n s \<and> 2 \<le> n \<and> i < n
     then map (\<lambda>k. the (lCommand (log (node s i) ! k))) [1..<Suc (lastApplied (node s i))] else [])"

lemma handed_over_length: "reachable n s \<Longrightarrow> 2 \<le> n \<Longrightarrow> i < n \<Longrightarrow> length (handed_over n s i) = lastApplied (node s i)"
  by (simp add: handed_over_def)

interpretation raft_log: replicated_log "handed_over n s"
proof
  fix i j assume len: "length (handed_over n s i) \<le> length (handed_over n s j)"
  show "handed_over n s i = take (length (handed_over n s i)) (handed_over n s j)"
  proof (cases "reachable n s \<and> 2 \<le> n \<and> i < n \<and> j < n \<and> 0 < lastApplied (node s i)")
    case True
    let ?k = "lastApplied (node s i)"
    have k: "?k \<le> commitIndex (node s i)" "?k \<le> commitIndex (node s j)" "?k \<le> lastApplied (node s j)"
      using True len reachable_peer(2) [of n s i] reachable_peer(2) [of n s j]
      by (auto simp: handed_over_def simp del: upt_Suc)
    have "take (Suc ?k) (log (node s i)) = take (Suc ?k) (log (node s j))"
      by (rule committed_prefix_agree [of n s "[]"]) (use True k in auto)
    then have "log (node s i) ! m = log (node s j) ! m" if "m \<le> ?k" for m
      using that take_Suc_eq_nth by blast
    moreover have "take ?k [1..<Suc (lastApplied (node s j))] = [1..<Suc ?k]"
      using k(3) by (simp add: take_upt del: upt_Suc)
    ultimately show ?thesis using True by (simp add: handed_over_def take_map del: upt_Suc)
  next
    case False
    then have "handed_over n s i = []" using len by (auto simp: handed_over_def split: if_splits)
    then show ?thesis by simp
  qed
qed

lemma handed_over_same:
  assumes "reachable n r" "sys_step n ev r = Some r'" "\<not> applies ev i" "2 \<le> n" "i < n"
  shows "handed_over n r' i = handed_over n r i"
proof -
  have r': "reachable n r'" using assms(1,2) by (rule reachable.more)
  have la: "lastApplied (node r' i) = lastApplied (node r i)" by (rule sys_step_lastApplied [OF assms(2,3)])
  have "take (Suc (lastApplied (node r i))) (log (node r i)) = take (Suc (lastApplied (node r i))) (log (node r' i))"
    by (rule committed_prefix_agree [OF assms(1,4), of "[ev]"])
      (use assms la reachable_peer(2) [OF assms(1,4,5)] reachable_peer(2) [OF r' assms(4,5)] in auto)
  then have "log (node r i) ! k = log (node r' i) ! k" if "k \<le> lastApplied (node r i)" for k
    using that take_Suc_eq_nth by blast
  then show ?thesis using la assms(1,4,5) r' by (auto simp: handed_over_def simp del: upt_Suc)
qed

lemma apply_messages:
  assumes "reachable n r" "2 \<le> n" "sys_step n (EApply i) r = Some r'"
  obtains ms ops where "applied r' = applied r @ map (Pair i) ms"
    "map amIndex ms = [Suc (lastApplied (node r i))..<Suc (lastApplied (node r i)) + length ms]"
    "lastApplied (node r' i) = lastApplied (node r i) + length ms"
    "map amCommand ms = map Some ops" "handed_over n r' i = handed_over n r i @ ops"
proof -
  let ?x = "node r i" and ?la = "lastApplied (node r i)"
  have i: "i < n" using assms(3) by (auto simp: sys_step_def split: if_splits)
  have r': "reachable n r'" using assms(1,3) by (rule reachable.more)
  note w = reachable_peer [OF assms(1,2) i]
  show ?thesis
  proof (cases "commitc ?x = [] \<or> hd (commitc ?x) \<le> ?la")
    case True
    then have "\<exists>x'. stateMachine ?x = Inr (x', []) \<and> log x' = log ?x \<and> lastApplied x' = ?la"
      using w(1) by (cases "commitc ?x") (auto simp: stateMachine_def)
    then have "applied r' = applied r" "log (node r' i) = log ?x" "lastApplied (node r' i) = ?la"
      using assms(3) by (auto simp: sys_step_def serveChannels_def split: if_splits)
    then show ?thesis using that [of "[]" "[]"] assms(1,2) r' i by (simp add: handed_over_def)
  next
    case False
    then obtain ci rest where ci: "commitc ?x = ci # rest" "?la < ci" by (cases "commitc ?x") auto
    have len: "ci < length (log ?x)" using w(3) w(4) [of ci] ci(1) by simp
    let ?ms = "map (\<lambda>k. \<lparr>amIndex = k, amCommand = lCommand (log ?x ! k)\<rparr>) [?la + 1..<ci + 1]"
    let ?ops = "map (\<lambda>k. the (lCommand (log ?x ! k))) [?la + 1..<ci + 1]"
    have sm: "stateMachine ?x = Inr (?x\<lparr>commitc := rest, lastApplied := ci\<rparr>, ?ms)"
      using stateMachine_wf [OF w(1) ci(1) len] ci(2) by simp
    then have s': "applied r' = applied r @ map (Pair i) ?ms" "log (node r' i) = log ?x" "lastApplied (node r' i) = ci"
      using assms(3) by (auto simp: sys_step_def serveChannels_def split: if_splits)
    have "map amCommand ?ms = map Some ?ops"
      using reachable_command [OF assms(1,2) i] len by (auto simp del: upt_Suc)
    moreover have "[1..<Suc ci] = [1..<Suc ?la] @ [?la + 1..<ci + 1]"
      using ci(2) upt_add_eq_append [of 1 "Suc ?la" "ci - ?la"] by simp
    ultimately show ?thesis using that [of ?ms ?ops] s' assms(1,2) r' i ci(2)
      by (simp add: handed_over_def comp_def del: upt_Suc)
  qed
qed

end
