(* ===== verification/Raft_Validity.thy ===== *)
theory Raft_Validity
  imports Raft_Service
begin

text \<open>
  Validity: every command in a log, in a message and handed over to a service was given to
  \<open>Start\<close> before. The handlers only move commands between logs and messages.
\<close>

section \<open>Where the commands of a peer come from\<close>

definition cmds :: "('c \<Rightarrow> bool) \<Rightarrow> 'c Log list \<Rightarrow> bool" where
  "cmds P L \<longleftrightarrow> (\<forall>e \<in> set L. \<forall>c. lCommand e = Some c \<longrightarrow> P c)"

definition msg_cmds :: "('c \<Rightarrow> bool) \<Rightarrow> 'c Message \<Rightarrow> bool" where
  "msg_cmds P m = (case mBody m of AppB args _ \<Rightarrow> cmds P (aeEntries args) | _ \<Rightarrow> True)"

definition peer_cmds :: "('c \<Rightarrow> bool) \<Rightarrow> 'c Raft \<Rightarrow> bool" where
  "peer_cmds P r \<longleftrightarrow> cmds P (log r) \<and> (\<forall>m \<in> set (propc r). msg_cmds P m)"

definition sys_cmds :: "('c \<Rightarrow> bool) \<Rightarrow> nat \<Rightarrow> 'c Sys \<Rightarrow> bool" where
  "sys_cmds P n s \<longleftrightarrow> (\<forall>i < n. peer_cmds P (node s i)) \<and> (\<forall>m \<in> set (net s). msg_cmds P m)"

lemma cmds_simps [simp]:
  "cmds P []" "cmds P (L @ K) \<longleftrightarrow> cmds P L \<and> cmds P K" "cmds P [sentinel]"
  "cmds P [\<lparr>lTerm = t, lCommand = Some c, lIndex = k\<rparr>] \<longleftrightarrow> P c"
  by (auto simp: cmds_def)

lemma cmds_parts: "cmds P L \<Longrightarrow> cmds P (take k L)" "cmds P L \<Longrightarrow> cmds P (drop k L)"
  by (auto simp: cmds_def dest: in_set_takeD in_set_dropD)

lemma peer_cmds_cong: "log r' = log r \<Longrightarrow> propc r' = propc r \<Longrightarrow> peer_cmds P r' = peer_cmds P r"
  by (simp add: peer_cmds_def)

section \<open>Handlers\<close>

lemma mapGo_all: "mapGo f xs = Inr ys \<Longrightarrow> (\<And>x y. f x = Inr y \<Longrightarrow> Q y) \<Longrightarrow> \<forall>y \<in> set ys. Q y"
  by (induction xs arbitrary: ys) (auto split: sum.splits)

lemma bcastAppend_cmds:
  assumes "bcastAppend r = Inr r'" "peer_cmds P r"
  shows "peer_cmds P r'"
proof -
  obtain ms where ms: "mapGo (appendRequest (persist r)) (otherPeers (persist r)) = Inr ms" "r' = (persist r)\<lparr>propc := propc r @ ms\<rparr>"
    using assms(1) by (auto simp: bcastAppend_def Let_def persist_def split: sum.splits)
  have q: "msg_cmds P m" if "appendRequest (persist r) i = Inr m" for i m
    using that assms(2) by (auto simp: appendRequest_def msg_cmds_def peer_cmds_def persist_def Let_def cmds_parts split: if_splits sum.splits)
  have "\<forall>m \<in> set ms. msg_cmds P m" by (rule mapGo_all [OF ms(1)]) (rule q)
  then show ?thesis using assms(2) by (auto simp: ms(2) peer_cmds_def persist_def)
qed

lemma bcastRequestVoteRPC_cmds:
  assumes "bcastRequestVoteRPC r = Inr r'" "peer_cmds P r"
  shows "peer_cmds P r'"
proof -
  obtain ms where ms: "mapGo (voteRequest (persist r)) (otherPeers (persist r)) = Inr ms" "r' = (persist r)\<lparr>propc := propc r @ ms\<rparr>"
    using assms(1) by (auto simp: bcastRequestVoteRPC_def Let_def persist_def split: sum.splits)
  have q: "msg_cmds P m" if "voteRequest (persist r) i = Inr m" for i m
    using that by (auto simp: voteRequest_def msg_cmds_def split: sum.splits)
  have "\<forall>m \<in> set ms. msg_cmds P m" by (rule mapGo_all [OF ms(1)]) (rule q)
  then show ?thesis using assms(2) by (auto simp: ms(2) peer_cmds_def persist_def)
qed

lemma reset_cmds [simp]: "peer_cmds P r \<Longrightarrow> peer_cmds P (reset t r)"
  by (auto simp: peer_cmds_def reset_def resetRandomizedElectionTimeout_def Let_def split: list.splits)

lemma becomeFollower_cmds [simp]: "peer_cmds P r \<Longrightarrow> peer_cmds P (becomeFollower t l r)"
  using reset_cmds [of P r t] by (simp add: becomeFollower_def peer_cmds_def)

lemma becomeCandidate_cmds: "becomeCandidate r = Inr r' \<Longrightarrow> peer_cmds P r \<Longrightarrow> peer_cmds P r'"
  using reset_cmds [of P r "currentTerm r + 1"] by (auto simp: becomeCandidate_def peer_cmds_def split: if_splits)

lemma becomeLeader_cmds: "becomeLeader r = Inr r' \<Longrightarrow> peer_cmds P r \<Longrightarrow> peer_cmds P r'"
  using reset_cmds [of P r "currentTerm r"] by (auto simp: becomeLeader_def peer_cmds_def Let_def split: if_splits)

lemma poll_cmds: "poll v g r = (r', k) \<Longrightarrow> peer_cmds P r \<Longrightarrow> peer_cmds P r'"
  by (auto simp: poll_def Let_def peer_cmds_def split: if_splits)

lemma commitTo_cmds: "commitTo c r = Inr r' \<Longrightarrow> peer_cmds P r \<Longrightarrow> peer_cmds P r'"
  by (auto simp: commitTo_def peer_cmds_def split: sum.splits if_splits)

lemma updateCommitIndex_cmds: "updateCommitIndex r = Inr r' \<Longrightarrow> peer_cmds P r \<Longrightarrow> peer_cmds P r'"
  by (auto simp: updateCommitIndex_def Let_def split: sum.splits if_splits dest: commitTo_cmds)

lemma appendLog_cmds: "appendLog es r = Inr r' \<Longrightarrow> cmds P es \<Longrightarrow> peer_cmds P r \<Longrightarrow> peer_cmds P r'"
  by (auto simp: appendLog_def peer_cmds_def cmds_parts split: list.splits if_splits)

lemma mergeEntries_cmds: "mergeEntries args r = Inr r' \<Longrightarrow> cmds P (aeEntries args) \<Longrightarrow> peer_cmds P r \<Longrightarrow> peer_cmds P r'"
  by (auto simp: mergeEntries_def Let_def split: sum.splits if_splits dest!: appendLog_cmds [OF _ cmds_parts(2)])

lemma followCommit_cmds: "followCommit c r = Inr r' \<Longrightarrow> peer_cmds P r \<Longrightarrow> peer_cmds P r'"
  by (auto simp: followCommit_def split: sum.splits if_splits dest: commitTo_cmds)

lemma acceptEntries_cmds:
  "acceptEntries args reply r = Inr (r', reply') \<Longrightarrow> cmds P (aeEntries args) \<Longrightarrow> peer_cmds P r \<Longrightarrow> peer_cmds P r'"
  by (auto simp: acceptEntries_def Let_def split: sum.splits intro: followCommit_cmds mergeEntries_cmds)

lemma rejectEntries_cmds: "rejectEntries args reply r = Inr (r', reply') \<Longrightarrow> peer_cmds P r \<Longrightarrow> peer_cmds P r'"
  by (auto simp: rejectEntries_def Let_def split: sum.splits if_splits)

lemma appendBody_cmds:
  assumes "appendBody args reply r = Inr (r', reply')" "cmds P (aeEntries args)" "peer_cmds P r"
  shows "peer_cmds P r'"
proof (cases "aePrevLogIndex args < commitIndex r")
  case False
  then obtain r1 reply1 where r1: "acceptEntries args reply r = Inr (r1, reply1) \<or> rejectEntries args reply r = Inr (r1, reply1)"
    "r' = r1\<lparr>replyNextIndex := aerNextIndex reply1\<rparr>"
    using assms(1) by (simp add: appendBody_def split: sum.splits if_splits prod.splits) blast+
  then have "peer_cmds P r1" using acceptEntries_cmds rejectEntries_cmds assms(2,3) by blast
  then show ?thesis by (simp add: r1(2) peer_cmds_def)
qed (use assms in \<open>simp add: appendBody_def\<close>)

lemma handleAppendEntries_cmds:
  assumes "handleAppendEntries f args reply r = Inr (r', reply')" "cmds P (aeEntries args)" "peer_cmds P r"
  shows "peer_cmds P r'"
proof -
  have "peer_cmds P (r\<lparr>electionElapsed := 0, lead := Some f\<rparr>)" using assms(3) by (simp add: peer_cmds_def)
  then show ?thesis using assms(1,2) appendBody_cmds by (auto simp: handleAppendEntries_def Let_def split: sum.splits if_splits)
qed

lemma handleAppResp_cmds: "handleAppResp f args reply r = Inr r' \<Longrightarrow> peer_cmds P r \<Longrightarrow> peer_cmds P r'"
  by (auto simp: handleAppResp_def split: sum.splits if_splits dest!: updateCommitIndex_cmds [where P = P]) (auto simp: peer_cmds_def)

lemma step_cmds:
  assumes "step r m = Inr (r', m')" "msg_cmds P m" "peer_cmds P r"
  shows "peer_cmds P r'"
proof (cases "stepf r")
  case StepFollower
  then show ?thesis using assms
    by (auto simp: step_def stepFollower_def msg_cmds_def peer_cmds_cong [of "_\<lparr>electionElapsed := _, votedFor := _\<rparr>"]
        split: Body.splits sum.splits if_splits intro: handleAppendEntries_cmds)
next
  case StepCandidate
  then show ?thesis using assms
    by (auto simp: step_def stepCandidate_def msg_cmds_def Let_def split: Body.splits sum.splits prod.splits if_splits
        intro: handleAppendEntries_cmds dest: poll_cmds [where P = P] becomeLeader_cmds [where P = P] bcastAppend_cmds [where P = P])
next
  case StepLeader
  then show ?thesis using assms
    by (auto simp: step_def stepLeader_def split: Body.splits sum.splits intro: handleAppResp_cmds)
qed

lemma Step_cmds:
  assumes "Step r m = Inr (r', m')" "msg_cmds P m" "peer_cmds P r"
  shows "peer_cmds P r'"
proof -
  obtain r1 where r1: "r' = persist r1"
    "(if mTerm m > currentTerm r then step (becomeFollower (mTerm m) None r) m
      else if mTerm m < currentTerm r then Inr (r, refuse r m) else step r m) = Inr (r1, m')"
    using assms(1) by (auto simp: Step_def split: sum.splits)
  then have "peer_cmds P r1" using assms(2,3) step_cmds [OF _ assms(2) assms(3)] step_cmds [OF _ assms(2) becomeFollower_cmds [OF assms(3)]]
    by (auto split: if_splits)
  then show ?thesis by (simp add: r1(1) peer_cmds_def persist_def)
qed

lemma tick_cmds:
  assumes "tick r = Inr r'" "peer_cmds P r"
  shows "peer_cmds P r'"
proof -
  have campaign: "peer_cmds P r'" if "campaign r = Inr r'" "peer_cmds P r" for r
    using that by (auto simp: campaign_def split: sum.splits prod.splits if_splits
        dest: becomeCandidate_cmds [where P = P] poll_cmds [where P = P] becomeLeader_cmds [where P = P] bcastRequestVoteRPC_cmds [where P = P])
  have "peer_cmds P (r\<lparr>electionElapsed := k\<rparr>)" "peer_cmds P (r\<lparr>heartbeatElapsed := k\<rparr>)" for k using assms(2) by (simp_all add: peer_cmds_def)
  then show ?thesis using assms(1)
    by (auto simp: tick_def tickElection_def tickHeartbeat_def Let_def split: tickFn.splits if_splits intro: campaign bcastAppend_cmds)
qed

lemma Start_cmds:
  assumes "Start c r = Inr (r', res)" "peer_cmds P r" "P c"
  shows "peer_cmds P r'"
proof -
  have "peer_cmds P (r\<lparr>log := log r @ [\<lparr>lTerm = currentTerm r, lCommand = Some c, lIndex = length (log r)\<rparr>], nextIndex := xs, matchIndex := ys\<rparr>)" for xs ys
    using assms(2,3) by (simp add: peer_cmds_def)
  then show ?thesis using assms(1,2)
    by (auto simp: Start_def handleCommand_def handleStart_def Let_def split: if_splits sum.splits intro: bcastAppend_cmds)
qed

section \<open>The cluster\<close>

lemma respond_cmds: "\<forall>m' \<in> set (respond m). msg_cmds P m'"
  by (auto simp: respond_def msg_cmds_def split: Body.splits)

lemma receive_cmds: "msg_cmds P m \<Longrightarrow> msg_cmds P (receive m r)"
  by (auto simp: receive_def msg_cmds_def RequestVote_def AppendEnties_def split: Body.splits)

lemma serve_cmds: "sys_cmds P n s \<Longrightarrow> peer_cmds P r \<Longrightarrow> sys_cmds P n (serveChannels i r s)"
  by (auto simp: sys_cmds_def serveChannels_def peer_cmds_def)

lemma crash_cmds [simp]: "sys_cmds P n (crash i e s) = sys_cmds P n s"
  by (simp add: sys_cmds_def crash_def)

lemma sys_cmds_node: "sys_cmds P n s \<Longrightarrow> i < n \<Longrightarrow> peer_cmds P (node s i)"
  by (simp add: sys_cmds_def)

lemma sys_step_cmds:
  assumes "reachable n s" "2 \<le> n" "sys_cmds P n s" "sys_step n ev s = Some s'" "\<And>i c. ev = EStart i c \<Longrightarrow> P c"
  shows "sys_cmds P n s'"
proof (cases ev)
  case (ETick i)
  then show ?thesis using assms(3,4) by (auto simp: sys_step_def split: if_splits sum.splits intro: serve_cmds tick_cmds sys_cmds_node)
next
  case (EDeliver m)
  have m: "mTo m < n" "m \<in> set (net s)" using assms(4) EDeliver by (auto simp: sys_step_def Let_def split: if_splits)
  show ?thesis
  proof (cases "Step (node s (mTo m)) (receive m (node s (mTo m)))")
    case (Inl e)
    then show ?thesis using assms(3,4) EDeliver m by (auto simp: sys_step_def Let_def sys_cmds_def crash_def split: if_splits)
  next
    case (Inr rm)
    then obtain r m' where r: "Step (node s (mTo m)) (receive m (node s (mTo m))) = Inr (r, m')" by (cases rm) auto
    have "peer_cmds P r" using Step_cmds [OF r receive_cmds] assms(3) m by (auto simp: sys_cmds_def)
    then have "sys_cmds P n (serveChannels (mTo m) r s)" using assms(3) serve_cmds by blast
    moreover have "s' = (serveChannels (mTo m) r s)\<lparr>net := net s @ propc r @ respond m'\<rparr>"
      using assms(4) EDeliver r by (auto simp: sys_step_def Let_def split: if_splits)
    ultimately show ?thesis using respond_cmds [of m' P] by (auto simp: sys_cmds_def serveChannels_def)
  qed
next
  case (EStart i c)
  then show ?thesis using assms(3,4,5) by (auto simp: sys_step_def split: if_splits sum.splits intro: serve_cmds Start_cmds sys_cmds_node)
next
  case (EApply i)
  have "peer_cmds P r" if "stateMachine x = Inr (r, ms)" "peer_cmds P x" for x r ms
    using that by (auto simp: stateMachine_def peer_cmds_def Let_def split: list.splits if_splits sum.splits)
  then have "sys_cmds P n (serveChannels i r s)" if "stateMachine (node s i) = Inr (r, ms)" "i < n" for r ms
    using that assms(3) serve_cmds sys_cmds_node by metis
  then show ?thesis using EApply assms(3,4) by (auto simp: sys_step_def split: if_splits sum.splits) (auto simp: sys_cmds_def)
next
  case (ERestart i rnd)
  then have s': "i < n" "s' = s\<lparr>node := (node s)(i := Make n i (Copy (persister (node s i))) rnd), down := removeAll i (down s)\<rparr>"
    using assms(4) by (auto simp: sys_step_def split: if_splits)
  obtain a where "cluster n s a" by (rule reachable_cluster [OF assms(1,2)])
  then have "durable (node s i)" using cluster_node(3) s'(1) by blast
  then have "peer_cmds P (Make n i (Copy (persister (node s i))) rnd)"
    using assms(3) s'(1) by (simp add: peer_cmds_def Make_fields Make_volatile sys_cmds_def)
  then show ?thesis using assms(3) by (simp add: s'(2) sys_cmds_def)
qed (use assms(3,4) in \<open>auto simp: sys_step_def sys_cmds_def peer_cmds_def split: if_splits\<close>)

lemma sys_run_cmds:
  "reachable n s \<Longrightarrow> 2 \<le> n \<Longrightarrow> sys_cmds P n s \<Longrightarrow> sys_run n evs s = Some s' \<Longrightarrow> (\<And>i c. EStart i c \<in> set evs \<Longrightarrow> P c) \<Longrightarrow> sys_cmds P n s'"
proof (induction evs arbitrary: s)
  case (Cons ev evs)
  then obtain s1 where s1: "sys_step n ev s = Some s1" "sys_run n evs s1 = Some s'" by (auto split: option.splits)
  have "sys_cmds P n s1" by (rule sys_step_cmds [OF Cons.prems(1-3) s1(1)]) (use Cons.prems(5) in auto)
  then show ?case using Cons.IH [OF reachable.more [OF Cons.prems(1) s1(1)] Cons.prems(2) _ s1(2)] Cons.prems(5) by auto
qed simp

lemma init_cmds: "sys_cmds P n (init_sys n rnd)"
  by (simp add: sys_cmds_def init_sys_def peer_cmds_def Make_fresh Make_volatile)

lemma handed_over_cmds:
  assumes "sys_cmds P n s" "c \<in> set (handed_over n s i)"
  shows "P c"
proof -
  have r: "reachable n s" "2 \<le> n" "i < n" using assms(2) by (auto simp: handed_over_def split: if_splits)
  obtain k where k: "Suc 0 \<le> k" "k < Suc (lastApplied (node s i))" "c = the (lCommand (log (node s i) ! k))"
    using assms(2) by (auto simp: handed_over_def simp del: upt_Suc split: if_splits)
  then have len: "k < length (log (node s i))" using reachable_peer(2,3) [OF r] by simp
  then obtain d where "lCommand (log (node s i) ! k) = Some d" using reachable_command [OF r, of k] k(1) by auto
  then show ?thesis using sys_cmds_node [OF assms(1) r(3)] len k(3) by (auto simp: peer_cmds_def cmds_def)
qed

section \<open>What is applied\<close>

lemma applied_cmds:
  assumes "reachable n s" "2 \<le> n" "sys_cmds P n s" "sys_run n evs s = Some s'" "\<And>i c. EStart i c \<in> set evs \<Longrightarrow> P c"
    "\<forall>x \<in> set (applied s). \<exists>c. amCommand (snd x) = Some c \<and> P c"
  shows "\<forall>x \<in> set (applied s'). \<exists>c. amCommand (snd x) = Some c \<and> P c"
  using assms
proof (induction evs arbitrary: s)
  case (Cons ev evs)
  then obtain s1 where s1: "sys_step n ev s = Some s1" "sys_run n evs s1 = Some s'" by (auto split: option.splits)
  have c1: "sys_cmds P n s1" by (rule sys_step_cmds [OF Cons.prems(1-3) s1(1)]) (use Cons.prems(5) in auto)
  have "\<forall>x \<in> set (applied s1). \<exists>c. amCommand (snd x) = Some c \<and> P c"
  proof (cases "\<exists>i. ev = EApply i")
    case True
    then obtain i where i: "sys_step n (EApply i) s = Some s1" using s1(1) by blast
    obtain ms ops where ms: "applied s1 = applied s @ map (Pair i) ms" "map amCommand ms = map Some ops" "handed_over n s1 i = handed_over n s i @ ops"
      by (rule apply_messages [OF Cons.prems(1,2) i])
    have "P c" if "c \<in> set ops" for c using handed_over_cmds [OF c1, of c i] ms(3) that by simp
    moreover have "amCommand m \<in> Some ` set ops" if "m \<in> set ms" for m using ms(2) that by (metis image_set image_eqI)
    ultimately show ?thesis using ms(1) Cons.prems(6) by fastforce
  next
    case False
    then show ?thesis using sys_step_applied [OF s1(1)] Cons.prems(6) by simp
  qed
  then show ?case using Cons.IH [OF reachable.more [OF Cons.prems(1) s1(1)] Cons.prems(2) c1 s1(2)] Cons.prems(5) by auto
qed simp

end
