(* ===== verification/Raft_Progress.thy ===== *)
theory Raft_Progress
  imports Raft_Service
begin

text \<open>
  A cluster is never stuck. From every reachable state, whatever messages were lost and whichever
  peers have crashed or panicked, there is a continuation in which a leader is elected and a given
  command is committed and applied. The continuation restarts every peer, lets the peer with the
  most up-to-date log campaign until its term is above all others, and delivers the votes of a
  majority, the leader's append requests to it and its replies; a follower whose log does not match
  is sent the whole log after one refusal.
\<close>

section \<open>Runs\<close>

text \<open>
  The runs of the continuation: ticks and deliveries only; before them, peers are killed and
  restarted.
\<close>

fun quiet :: "'c event \<Rightarrow> bool" where
  "quiet (ETick _) = True"
| "quiet (EDeliver _) = True"
| "quiet _ = False"

fun revival :: "'c event \<Rightarrow> bool" where
  "revival (EKill _) = True"
| "revival (ERestart _ _) = True"
| "revival _ = False"

definition runs_by :: "('c event \<Rightarrow> bool) \<Rightarrow> nat \<Rightarrow> 'c Sys \<Rightarrow> 'c Sys \<Rightarrow> bool" where
  "runs_by P n s s' \<longleftrightarrow> (\<exists>evs. sys_run n evs s = Some s' \<and> (\<forall>ev \<in> set evs. P ev))"

abbreviation runs_to :: "nat \<Rightarrow> 'c Sys \<Rightarrow> 'c Sys \<Rightarrow> bool" where
  "runs_to \<equiv> runs_by quiet"

lemma runs_to_refl [simp]: "runs_by P n s s"
  unfolding runs_by_def by (rule exI [of _ "[]"]) simp

lemma runs_to_trans [trans]:
  assumes "runs_by P n s s'" "runs_by P n s' s''"
  shows "runs_by P n s s''"
proof -
  obtain evs evs' where "sys_run n evs s = Some s'" "sys_run n evs' s' = Some s''" "\<forall>ev \<in> set (evs @ evs'). P ev"
    using assms by (auto simp: runs_by_def)
  then show ?thesis unfolding runs_by_def by (intro exI [of _ "evs @ evs'"]) (simp add: sys_run_append)
qed

lemma runs_by_step: "sys_step n ev s = Some s' \<Longrightarrow> P ev \<Longrightarrow> runs_by P n s s'"
  unfolding runs_by_def by (rule exI [of _ "[ev]"]) simp

lemmas runs_to_step = runs_by_step [where P = quiet]

lemma runs_to_reachable: "runs_by P n s s' \<Longrightarrow> reachable n s \<Longrightarrow> reachable n s'"
  unfolding runs_by_def using sys_run_reachable by blast

definition all_up :: "nat \<Rightarrow> 'c Sys \<Rightarrow> bool" where
  "all_up n s \<longleftrightarrow> (\<forall>j < n. j \<notin> set (down s))"

lemma propc_same: "propc r = [] \<Longrightarrow> r\<lparr>propc := []\<rparr> = r"
  by (cases r) simp

lemma tick_runs:
  "tick (node s i) = Inr r \<Longrightarrow> i < n \<Longrightarrow> all_up n s \<Longrightarrow> sys_step n (ETick i) s = Some (serveChannels i r s)"
  by (simp add: sys_step_def all_up_def)

lemma deliver:
  assumes "m \<in> set (net s)" "mTo m = i" "i < n" "all_up n s" "Step (node s i) (receive m (node s i)) = Inr (r, m')"
  obtains s' where "runs_to n s s'" "node s' i = r\<lparr>propc := []\<rparr>" "\<And>k. k \<noteq> i \<Longrightarrow> node s' k = node s k"
    "set (net s) \<subseteq> set (net s')" "set (respond m') \<subseteq> set (net s')" "all_up n s'" "applied s' = applied s"
proof -
  let ?s = "(serveChannels i r s)\<lparr>net := net s @ propc r @ respond m'\<rparr>"
  have "sys_step n (EDeliver m) s = Some ?s" using assms by (simp add: sys_step_def all_up_def Let_def)
  then show ?thesis by (intro that [of ?s] runs_to_step [of n "EDeliver m"]) (use assms(4) in \<open>auto simp: serveChannels_def all_up_def\<close>)
qed

lemma reachable_wf:
  assumes "reachable n s" "2 \<le> n" "i < n"
  shows "me (node s i) = i" "peers (node s i) = n" "wf_log (log (node s i))" "length (nextIndex (node s i)) = n"
    "length (matchIndex (node s i)) = n" "roles_agree (node s i)" "propc (node s i) = []" "durable (node s i)"
proof -
  obtain a where "cluster n s a" by (rule reachable_cluster [OF assms(1,2)])
  from cluster_node [OF this assms(3)] show "me (node s i) = i" "peers (node s i) = n" "wf_log (log (node s i))"
    "length (nextIndex (node s i)) = n" "length (matchIndex (node s i)) = n" "roles_agree (node s i)"
    "propc (node s i) = []" "durable (node s i)" by (simp_all add: rep_def node_wf_def)
qed

section \<open>Restarting the cluster\<close>

definition idle :: "'c Raft \<Rightarrow> bool" where
  "idle r \<longleftrightarrow> state r \<noteq> StateLeader \<and> tickf r = TickElection \<and> globalRand r = [] \<and>
     randomizedElectionTimeout r = electionTimeout \<and> electionElapsed r = 0 \<and>
     commitIndex r = 0 \<and> lastApplied r = 0 \<and> commitc r = [] \<and> propc r = []"

lemma Make_idle: "idle (Make n i ps [])"
  by (simp add: idle_def Make_volatile)
    (simp add: Make_def readPersist_def becomeFollower_def reset_def Let_def resetRandomizedElectionTimeout_def zeroRaft_def split: prod.splits)

lemma restart_some:
  assumes "k \<le> n"
  shows "\<exists>s'. runs_by revival n s s' \<and> applied s' = applied s \<and> (\<forall>i < k. i \<notin> set (down s') \<and> idle (node s' i))"
  using assms
proof (induction k)
  case 0
  then show ?case by (intro exI [of _ s]) simp
next
  case (Suc k)
  then obtain s' where s': "runs_by revival n s s'" "applied s' = applied s" "\<forall>i < k. i \<notin> set (down s') \<and> idle (node s' i)" by auto
  let ?s1 = "s'\<lparr>down := k # down s'\<rparr>"
  let ?s2 = "?s1\<lparr>node := (node ?s1)(k := Make n k (Copy (persister (node ?s1 k))) []), down := removeAll k (down ?s1)\<rparr>"
  have "runs_by revival n s' ?s1" by (rule runs_by_step [of _ "EKill k"]) (use Suc.prems in \<open>simp_all add: sys_step_def\<close>)
  moreover have "runs_by revival n ?s1 ?s2" by (rule runs_by_step [of _ "ERestart k []"]) (use Suc.prems in \<open>simp_all add: sys_step_def\<close>)
  ultimately have "runs_by revival n s ?s2" using s'(1) runs_to_trans by blast
  moreover have "\<forall>i < Suc k. i \<notin> set (down ?s2) \<and> idle (node ?s2 i)" using s'(3) Make_idle by (auto simp: less_Suc_eq)
  ultimately show ?case using s'(2) by (intro exI [of _ ?s2]) simp
qed

lemma restart_all:
  "\<exists>s'. runs_by revival n s s' \<and> applied s' = applied s \<and> all_up n s' \<and> (\<forall>i < n. idle (node s' i))"
  using restart_some [of n n s] unfolding all_up_def by auto

section \<open>Campaigning\<close>

definition voteReq :: "nat \<Rightarrow> nat \<Rightarrow> 'c Log list \<Rightarrow> nat \<Rightarrow> 'c Message" where
  "voteReq i T L j = \<lparr>mFrom = i, mTo = j, mTerm = T, mBody = VoteB \<lparr>rvTerm = T, rvCandidateId = i,
     rvLastLogIndex = length L - 1, rvLastLogTerm = lTerm (last L)\<rparr> zeroVoteReply\<rparr>"

lemma campaign_result:
  assumes "idle r" "wf_log (log r)" "me r = i" "peers r = n" "2 \<le> n"
  shows "\<exists>r'. campaign r = Inr r' \<and> state r' = StateCandidate \<and> currentTerm r' = Suc (currentTerm r) \<and> log r' = log r \<and>
    votes r' = [(i, True)] \<and> idle (r'\<lparr>propc := []\<rparr>) \<and> (\<forall>j < n. j \<noteq> i \<longrightarrow> voteReq i (Suc (currentTerm r)) (log r) j \<in> set (propc r'))"
proof -
  let ?r1 = "(reset (currentTerm r + 1) r)\<lparr>tickf := TickElection, votedFor := Some (me r), state := StateCandidate, stepf := StepCandidate\<rparr>"
  let ?r2 = "?r1\<lparr>votes := [(i, True)]\<rparr>"
  let ?r3 = "(persist ?r2)\<lparr>propc := map (voteReq i (Suc (currentTerm r)) (log r)) (otherPeers (persist ?r2))\<rparr>"
  have ne: "log r \<noteq> []" using assms(2) by (rule wf_log_not_Nil)
  have "voteRequest (persist ?r2) j = Inr (voteReq i (Suc (currentTerm r)) (log r) j)" for j
    using assms(2,3) ne by (simp add: voteRequest_def voteReq_def lastIndex_wf lastTerm_wf)
  then have b: "bcastRequestVoteRPC ?r2 = Inr ?r3" using assms(1)
    by (simp add: bcastRequestVoteRPC_def Let_def idle_def mapGo_Inr [where g = "voteReq i (Suc (currentTerm r)) (log r)"])
  have "becomeCandidate r = Inr ?r1" using assms(1) by (simp add: becomeCandidate_def idle_def)
  moreover have "poll (me ?r1) True ?r1 = (?r2, 1)" using assms(3) by (simp add: poll_def)
  moreover have "quorum ?r2 \<noteq> 1" using assms(4,5) by (simp add: quorum_def)
  ultimately have "campaign r = Inr ?r3" using b by (simp add: campaign_def)
  moreover have "idle (?r3\<lparr>propc := []\<rparr>)" using assms(1)
    by (simp add: idle_def) (simp add: reset_def Let_def persist_def resetRandomizedElectionTimeout_def)
  ultimately show ?thesis using assms(3,4) ne by (intro exI [of _ ?r3]) (simp add: otherPeers_def)
qed

text \<open>Until the timeout a tick only counts.\<close>

lemma idle_ticks:
  assumes "idle (node s i)" "i < n" "all_up n s" "m < electionTimeout"
  shows "runs_to n s (s\<lparr>node := (node s)(i := (node s i)\<lparr>electionElapsed := m\<rparr>)\<rparr>)"
  using assms(4)
proof (induction m)
  case 0
  have "(node s i)\<lparr>electionElapsed := 0\<rparr> = node s i" using assms(1) by (cases "node s i") (simp add: idle_def)
  then show ?case by simp
next
  case (Suc m)
  let ?r = "\<lambda>m. (node s i)\<lparr>electionElapsed := m\<rparr>"
  let ?s = "\<lambda>m. s\<lparr>node := (node s)(i := ?r m)\<rparr>"
  have "tick (?r m) = Inr (?r (Suc m))" using assms(1) Suc.prems
    by (simp add: tick_def tickElection_def Let_def pastElectionTimeout_def idle_def)
  then have "sys_step n (ETick i) (?s m) = Some (serveChannels i (?r (Suc m)) (?s m))"
    by (intro tick_runs) (use assms(2,3) in \<open>simp_all add: all_up_def\<close>)
  moreover have p: "propc (node s i) = []" using assms(1) by (simp add: idle_def)
  moreover have "(?r (Suc m))\<lparr>propc := []\<rparr> = ?r (Suc m)" by (rule propc_same) (simp add: p)
  ultimately have "sys_step n (ETick i) (?s m) = Some (?s (Suc m))" by (simp add: serveChannels_def)
  then have "runs_to n (?s m) (?s (Suc m))" by (rule runs_to_step) simp
  then show ?case using Suc runs_to_trans by fastforce
qed

definition campaigning :: "nat \<Rightarrow> nat \<Rightarrow> nat \<Rightarrow> 'c Log list \<Rightarrow> 'c Sys \<Rightarrow> bool" where
  "campaigning n i T L s \<longleftrightarrow> idle (node s i) \<and> state (node s i) = StateCandidate \<and> currentTerm (node s i) = T \<and> log (node s i) = L \<and>
     votes (node s i) = [(i, True)] \<and> (\<forall>j < n. j \<noteq> i \<longrightarrow> voteReq i T L j \<in> set (net s))"

text \<open>What an event of peer \<open>i\<close> leaves alone.\<close>

definition only_at :: "nat \<Rightarrow> 'c Sys \<Rightarrow> 'c Sys \<Rightarrow> bool" where
  "only_at i s s' \<longleftrightarrow> (\<forall>j. j \<noteq> i \<longrightarrow> node s' j = node s j) \<and> down s' = down s \<and> applied s' = applied s \<and> set (net s) \<subseteq> set (net s')"

lemma only_at_trans: "only_at i s s' \<Longrightarrow> only_at i s' s'' \<Longrightarrow> only_at i s s''"
  unfolding only_at_def by auto

lemma only_at_up: "only_at i s s' \<Longrightarrow> all_up n s \<Longrightarrow> all_up n s'"
  by (simp add: only_at_def all_up_def)

lemma campaign_round:
  assumes "reachable n s" "2 \<le> n" "i < n" "all_up n s" "idle (node s i)"
  shows "\<exists>s'. runs_to n s s' \<and> only_at i s s' \<and> campaigning n i (Suc (currentTerm (node s i))) (log (node s i)) s'"
proof -
  let ?r = "(node s i)\<lparr>electionElapsed := 9\<rparr>"
  let ?s = "s\<lparr>node := (node s)(i := ?r)\<rparr>"
  note wf = reachable_wf [OF assms(1-3)]
  have run: "runs_to n s ?s" using idle_ticks [OF assms(5,3,4), of 9] by (simp add: electionTimeout_def)
  have r0: "(node s i)\<lparr>electionElapsed := 0\<rparr> = node s i" using assms(5) by (cases "node s i") (simp add: idle_def)
  obtain r' where r': "campaign (node s i) = Inr r'" "state r' = StateCandidate" "currentTerm r' = Suc (currentTerm (node s i))"
    "log r' = log (node s i)" "votes r' = [(i, True)]" "idle (r'\<lparr>propc := []\<rparr>)"
    "\<forall>j < n. j \<noteq> i \<longrightarrow> voteReq i (Suc (currentTerm (node s i))) (log (node s i)) j \<in> set (propc r')"
    using campaign_result [OF assms(5) wf(3,1,2) assms(2)] by blast
  have "tick ?r = Inr r'" using assms(5) r'(1)
    by (simp add: r0 tick_def tickElection_def Let_def pastElectionTimeout_def idle_def electionTimeout_def)
  then have "sys_step n (ETick i) ?s = Some (serveChannels i r' ?s)"
    by (intro tick_runs) (use assms(3,4) in \<open>simp_all add: all_up_def\<close>)
  then have "runs_to n s (serveChannels i r' ?s)" using run runs_to_trans runs_to_step quiet.simps(1) by metis
  moreover have "only_at i s (serveChannels i r' ?s)" by (simp add: only_at_def serveChannels_def)
  moreover have "campaigning n i (Suc (currentTerm (node s i))) (log (node s i)) (serveChannels i r' ?s)"
    using r'(2-7) by (simp add: campaigning_def serveChannels_def)
  ultimately show ?thesis by blast
qed

lemma raise_term:
  assumes "reachable n s" "2 \<le> n" "i < n" "all_up n s" "idle (node s i)"
  shows "\<exists>s'. runs_to n s s' \<and> only_at i s s' \<and> campaigning n i (Suc (currentTerm (node s i) + d)) (log (node s i)) s'"
proof (induction d)
  case 0
  then show ?case using campaign_round [OF assms] by simp
next
  case (Suc d)
  then obtain s' where s': "runs_to n s s'" "only_at i s s'" "campaigning n i (Suc (currentTerm (node s i) + d)) (log (node s i)) s'" by blast
  from campaign_round [OF runs_to_reachable [OF s'(1) assms(1)] assms(2,3) only_at_up [OF s'(2) assms(4)]] s'(3)
  obtain s'' where "runs_to n s' s''" "only_at i s' s''" "campaigning n i (Suc (currentTerm (node s i) + Suc d)) (log (node s i)) s''"
    by (auto simp: campaigning_def)
  then show ?case using s'(1,2) runs_to_trans only_at_trans by blast
qed

section \<open>Winning the election\<close>

definition voteResp :: "nat \<Rightarrow> nat \<Rightarrow> 'c Log list \<Rightarrow> nat \<Rightarrow> 'c Message" where
  "voteResp i T L j = \<lparr>mFrom = j, mTo = i, mTerm = T, mBody = VoteRespB \<lparr>rvTerm = T, rvCandidateId = i,
     rvLastLogIndex = length L - 1, rvLastLogTerm = lTerm (last L)\<rparr> \<lparr>rvrTerm = T, rvrVoteGranted = True\<rparr>\<rparr>"

lemma addressees: "mTo (voteReq i T L j) = j" "mTo (voteResp i T L j) = i"
  by (simp_all add: voteReq_def voteResp_def)

lemma vote_given:
  assumes "currentTerm r < T" "wf_log (log r)" "up_to_date L (log r)" "me r = j"
  shows "\<exists>r' m'. Step r (receive (voteReq i T L j) r) = Inr (r', m') \<and> respond m' = [voteResp i T L j] \<and>
    state r' = StateFollower \<and> currentTerm r' = T \<and> log r' = log r \<and> commitIndex r' = commitIndex r \<and> propc r' = propc r"
proof -
  let ?r = "becomeFollower T None r"
  have "grantVote \<lparr>rvTerm = T, rvCandidateId = i, rvLastLogIndex = length L - 1, rvLastLogTerm = lTerm (last L)\<rparr> ?r = Inr True"
    using assms(1-3) wf_log_not_Nil [OF assms(2)] reqMoreUpToDate_wf [of ?r] by (auto simp: grantVote_def up_to_date_def)
  then show ?thesis using assms(1,4) wf_log_not_Nil [OF assms(2)]
    by (auto simp: Step_def step_def stepFollower_def receive_def RequestVote_def voteReq_def voteResp_def respond_def)
qed

definition appReq :: "'c Raft \<Rightarrow> nat \<Rightarrow> 'c Message" where
  "appReq r j = \<lparr>mFrom = me r, mTo = j, mTerm = currentTerm r, mBody = AppB \<lparr>aeTerm = currentTerm r, aeLeaderId = me r,
     aeLeaderCommit = commitIndex r, aePrevLogIndex = nextIndex r ! j - 1, aePrevLogTerm = lTerm (log r ! (nextIndex r ! j - 1)),
     aeEntries = drop (nextIndex r ! j) (log r)\<rparr> zeroAppReply\<rparr>"

lemma appendRequest_eq:
  assumes "wf_log (log r)" "j < length (nextIndex r)" "1 \<le> nextIndex r ! j" "nextIndex r ! j \<le> length (log r)"
  shows "appendRequest r j = Inr (appReq r j)"
proof -
  have p: "nextIndex r ! j - 1 < length (log r)" "nat (int (nextIndex r ! j) - 1) = nextIndex r ! j - 1" "Suc (nextIndex r ! j - 1) = nextIndex r ! j"
    "\<not> int (nextIndex r ! j) - 1 < 0" "\<not> int (nextIndex r ! j) - 1 > int (length (log r) - 1)" using assms(3,4) by auto
  then show ?thesis using assms(1,2) by (simp add: appendRequest_def lastIndex_wf log_at_lt appReq_def Let_def del: of_nat_diff)
qed

lemma bcastAppend_eq:
  assumes "wf_log (log r)" "length (nextIndex r) = peers r" "\<And>j. j < peers r \<Longrightarrow> 1 \<le> nextIndex r ! j \<and> nextIndex r ! j \<le> length (log r)"
  shows "bcastAppend r = Inr ((persist r)\<lparr>propc := propc r @ map (appReq r) (otherPeers r)\<rparr>)"
proof -
  have "appendRequest (persist r) j = Inr (appReq r j)" if "j \<in> set (otherPeers (persist r))" for j
    using appendRequest_eq [of "persist r" j] assms that by (simp add: otherPeers_def appReq_def)
  then have "mapGo (appendRequest (persist r)) (otherPeers (persist r)) = Inr (map (appReq r) (otherPeers (persist r)))"
    by (rule mapGo_Inr)
  then show ?thesis by (simp add: bcastAppend_def Let_def otherPeers_def)
qed

text \<open>What a peer that has just won looks like.\<close>

definition newLeader :: "nat \<Rightarrow> nat \<Rightarrow> nat \<Rightarrow> 'c Log list \<Rightarrow> 'c Raft \<Rightarrow> bool" where
  "newLeader n i T L r \<longleftrightarrow> state r = StateLeader \<and> currentTerm r = T \<and> log r = L \<and> commitIndex r = 0 \<and> commitc r = [] \<and>
     lastApplied r = 0 \<and> heartbeatElapsed r = 0 \<and> nextIndex r = replicate n (length L) \<and> matchIndex r = replicate n 0"

lemma vote_counted:
  assumes "idle r" "state r = StateCandidate" "roles_agree r" "currentTerm r = T" "wf_log (log r)" "peers r = n" "me r = i" "log r = L"
    "votes r = (i, True) # map (\<lambda>j. (j, True)) js" "j \<noteq> i" "j \<notin> set js"
  shows "if length js + 2 = quorum r
    then \<exists>r' m'. Step r (receive (voteResp i T L j) r) = Inr (r', m') \<and> respond m' = [] \<and> newLeader n i T L r'
    else \<exists>r' m'. Step r (receive (voteResp i T L j) r) = Inr (r', m') \<and> respond m' = [] \<and> idle r' \<and> state r' = StateCandidate \<and>
      currentTerm r' = T \<and> log r' = L \<and> votes r' = (i, True) # map (\<lambda>j. (j, True)) (js @ [j])"
proof -
  let ?m = "voteResp i T L j :: 'a Message"
  let ?r1 = "r\<lparr>votes := votes r @ [(j, True)]\<rparr>"
  have pl: "poll j True r = (?r1, length js + 2)" using assms(9-11) by (auto simp: poll_def map_of_eq_None_iff filter_map comp_def)
  have "stepf r = StepCandidate" using assms(2,3) by (simp add: roles_agree_def)
  then have st: "Step r (receive ?m r) = (case stepCandidate r ?m of Inl e \<Rightarrow> Inl e | Inr (r, m) \<Rightarrow> Inr (persist r, m))"
    using assms(4) by (simp add: Step_def step_def receive_def voteResp_def)
  show ?thesis
  proof (cases "length js + 2 = quorum r")
    case True
    let ?r2 = "(reset T ?r1)\<lparr>lead := Some (me ?r1), state := StateLeader, tickf := TickHeartbeat, stepf := StepLeader, nextIndex := replicate n (length L)\<rparr>"
    have ne: "L \<noteq> []" using assms(5,8) wf_log_not_Nil by blast
    have bl: "becomeLeader ?r1 = Inr ?r2" using assms(2,4,6,8) ne by (simp add: becomeLeader_def Let_def)
    have "bcastAppend ?r2 = Inr ((persist ?r2)\<lparr>propc := propc ?r2 @ map (appReq ?r2) (otherPeers ?r2)\<rparr>)"
      by (rule bcastAppend_eq) (use assms(5,6,8) ne in \<open>simp_all add: Suc_le_eq\<close>)
    then have "stepCandidate r ?m = Inr ((persist ?r2)\<lparr>propc := propc ?r2 @ map (appReq ?r2) (otherPeers ?r2)\<rparr>, ?m)"
      using pl bl True by (simp add: stepCandidate_def voteResp_def quorum_def)
    moreover have "newLeader n i T L (persist ((persist ?r2)\<lparr>propc := propc ?r2 @ map (appReq ?r2) (otherPeers ?r2)\<rparr>))"
      using assms(1,6,8) ne by (simp add: newLeader_def idle_def) (simp add: persist_def reset_def Let_def resetRandomizedElectionTimeout_def)
    ultimately show ?thesis using True st by (simp add: respond_def voteResp_def)
  next
    case False
    have "length (votes ?r1) - (length js + 2) = 0" "0 < quorum ?r1" using assms(9) by (simp_all add: quorum_def)
    then have "stepCandidate r ?m = Inr (?r1, ?m)" using pl False by (simp add: stepCandidate_def voteResp_def quorum_def)
    then show ?thesis using False st assms(1,2,4,8,9) by (simp add: respond_def voteResp_def idle_def) (simp add: persist_def)
  qed
qed

text \<open>Voters of the term, and the state of the cluster while the candidate collects their votes.\<close>

definition voter :: "nat \<Rightarrow> 'c Raft \<Rightarrow> bool" where
  "voter T r \<longleftrightarrow> currentTerm r = T \<and> state r = StateFollower \<and> commitIndex r = 0"

definition canvass :: "nat \<Rightarrow> nat \<Rightarrow> nat \<Rightarrow> 'c Log list \<Rightarrow> nat list \<Rightarrow> 'c Sys \<Rightarrow> bool" where
  "canvass n i T L js s \<longleftrightarrow> reachable n s \<and> all_up n s \<and> idle (node s i) \<and> state (node s i) = StateCandidate \<and>
     currentTerm (node s i) = T \<and> log (node s i) = L \<and> votes (node s i) = (i, True) # map (\<lambda>j. (j, True)) js \<and>
     (\<forall>j < n. j \<noteq> i \<longrightarrow> voteReq i T L j \<in> set (net s)) \<and>
     (\<forall>j < n. j \<noteq> i \<longrightarrow> (if j \<in> set js then voter T (node s j)
        else currentTerm (node s j) < T \<and> up_to_date L (log (node s j)) \<and> commitIndex (node s j) = 0))"

definition elected :: "nat \<Rightarrow> nat \<Rightarrow> nat \<Rightarrow> 'c Log list \<Rightarrow> nat list \<Rightarrow> 'c Sys \<Rightarrow> bool" where
  "elected n i T L js s \<longleftrightarrow> reachable n s \<and> all_up n s \<and> newLeader n i T L (node s i) \<and> (\<forall>j \<in> set js. voter T (node s j))"

definition majority :: "nat \<Rightarrow> nat" where
  "majority n = n div 2 + 1"

lemma one_vote:
  assumes "canvass n i T L js s" "2 \<le> n" "i < n" "j < n" "j \<noteq> i" "j \<notin> set js" "set js \<subseteq> {..<n} - {i}"
  shows "\<exists>s'. runs_to n s s' \<and> applied s' = applied s \<and>
    (if length js + 2 = majority n then elected n i T L (js @ [j]) s' else canvass n i T L (js @ [j]) s')"
proof -
  note c = assms(1) [unfolded canvass_def]
  have r: "reachable n s" "all_up n s" using c by blast+
  note wj = reachable_wf [OF r(1) assms(2,4)] and wi = reachable_wf [OF r(1) assms(2,3)]
  have vj: "currentTerm (node s j) < T" "up_to_date L (log (node s j))" "commitIndex (node s j) = 0" "voteReq i T L j \<in> set (net s)"
    using c assms(4-6) by auto
  obtain r1 m1 where r1: "Step (node s j) (receive (voteReq i T L j) (node s j)) = Inr (r1, m1)" "respond m1 = [voteResp i T L j]"
    "state r1 = StateFollower" "currentTerm r1 = T" "log r1 = log (node s j)" "commitIndex r1 = 0"
    using vote_given [OF vj(1) wj(3) vj(2) wj(1), of i] vj(3) by auto
  obtain s1 where s1: "runs_to n s s1" "node s1 j = r1\<lparr>propc := []\<rparr>" "\<And>k. k \<noteq> j \<Longrightarrow> node s1 k = node s k"
    "set (net s) \<subseteq> set (net s1)" "voteResp i T L j \<in> set (net s1)" "all_up n s1" "applied s1 = applied s"
    using deliver [OF vj(4) addressees(1) assms(4) r(2) r1(1)] unfolding r1(2) by auto
  have cand: "idle (node s i)" "state (node s i) = StateCandidate" "currentTerm (node s i) = T" "log (node s i) = L"
    "votes (node s i) = (i, True) # map (\<lambda>j. (j, True)) js" using c by blast+
  note count = vote_counted [OF cand(1,2) wi(6) cand(3) wi(3,2,1) cand(4,5) assms(5,6)]
  have q: "quorum (node s i) = majority n" using wi(2) by (simp add: quorum_def majority_def)
  obtain r2 m2 where r2: "Step (node s i) (receive (voteResp i T L j) (node s i)) = Inr (r2, m2)" "respond m2 = []"
    "if length js + 2 = majority n then newLeader n i T L r2
     else idle r2 \<and> state r2 = StateCandidate \<and> currentTerm r2 = T \<and> log r2 = L \<and> votes r2 = (i, True) # map (\<lambda>j. (j, True)) (js @ [j])"
    using count q by (auto split: if_splits)
  have st2: "Step (node s1 i) (receive (voteResp i T L j) (node s1 i)) = Inr (r2, m2)" using r2(1) s1(3) [of i] assms(5) by simp
  obtain s2 where "runs_to n s1 s2" and nodes: "node s2 i = r2\<lparr>propc := []\<rparr>" "\<And>k. k \<noteq> i \<Longrightarrow> node s2 k = node s1 k"
    "set (net s1) \<subseteq> set (net s2)" "all_up n s2" "applied s2 = applied s1"
    by (rule deliver [OF s1(5) addressees(2) assms(3) s1(6) st2]) (use that in blast)
  then have run: "runs_to n s s2" and net: "set (net s) \<subseteq> set (net s2)" and same: "\<And>k. k \<noteq> i \<Longrightarrow> k \<noteq> j \<Longrightarrow> node s2 k = node s k"
    using s1(1,3,4) runs_to_trans by (blast, blast, simp)
  have vot: "voter T (node s2 j)" using r1 s1(2) nodes(2) [of j] assms(5) by (simp add: voter_def)
  have cv: "if k \<in> set js then voter T (node s k) else currentTerm (node s k) < T \<and> up_to_date L (log (node s k)) \<and> commitIndex (node s k) = 0"
    "voteReq i T L k \<in> set (net s)" if "k < n" "k \<noteq> i" for k using c that by blast+
  have old: "voter T (node s2 k)" if "k \<in> set js" for k
  proof -
    have "k < n" "k \<noteq> i" "k \<noteq> j" using that assms(6,7) by auto
    then show ?thesis using cv(1) [of k] same [of k] that by simp
  qed
  note reach = runs_to_reachable [OF run r(1)]
  show ?thesis
  proof (cases "length js + 2 = majority n")
    case True
    then have "elected n i T L (js @ [j]) s2" unfolding elected_def using reach nodes(1,4) r2(3) vot old by (auto simp: newLeader_def)
    then show ?thesis using run True nodes(5) s1(7) by metis
  next
    case False
    then have "canvass n i T L (js @ [j]) s2" unfolding canvass_def
      using reach nodes(1,4) r2(3) vot old cv net same by (auto simp: idle_def)
    then show ?thesis using run False nodes(5) s1(7) by metis
  qed
qed

lemma fresh_voter:
  assumes "set js \<subseteq> {..<n} - {i}" "distinct js" "length js + 2 \<le> majority n" "2 \<le> n" "i < n"
  obtains j where "j < n" "j \<noteq> i" "j \<notin> set js"
proof -
  have "card (set js) < card ({..<n} - {i})" using assms(2-5) by (simp add: distinct_card majority_def)
  then have "\<not> {..<n} - {i} \<subseteq> set js" using card_mono [of "set js" "{..<n} - {i}"] by fastforce
  then show ?thesis using that by auto
qed

definition team :: "nat \<Rightarrow> nat \<Rightarrow> nat list \<Rightarrow> bool" where
  "team n i js \<longleftrightarrow> set js \<subseteq> {..<n} - {i} \<and> distinct js"

lemma collect_votes:
  assumes "canvass n i T L [] s" "2 \<le> n" "i < n" "m + 2 \<le> majority n"
  shows "\<exists>s' js. runs_to n s s' \<and> applied s' = applied s \<and> canvass n i T L js s' \<and> team n i js \<and> length js = m"
  using assms(4)
proof (induction m)
  case 0
  then show ?case using assms(1) by (intro exI [of _ s] exI [of _ "[]"]) (simp add: team_def)
next
  case (Suc m)
  then obtain s' js where s': "runs_to n s s'" "applied s' = applied s" "canvass n i T L js s'" "team n i js" "length js = m" by auto
  obtain j where j: "j < n" "j \<noteq> i" "j \<notin> set js"
    using fresh_voter [of js n i] s'(4,5) Suc.prems assms(2,3) by (auto simp: team_def)
  obtain s'' where "runs_to n s' s''" "applied s'' = applied s'" "canvass n i T L (js @ [j]) s''"
    using one_vote [OF s'(3) assms(2,3) j] s'(4,5) Suc.prems by (auto simp: team_def)
  then show ?case using s' j runs_to_trans by (intro exI [of _ s''] exI [of _ "js @ [j]"]) (auto simp: team_def)
qed

lemma win:
  assumes "canvass n i T L [] s" "2 \<le> n" "i < n"
  shows "\<exists>s' js. runs_to n s s' \<and> applied s' = applied s \<and> elected n i T L js s' \<and> team n i js \<and> length js + 1 = majority n"
proof -
  let ?m = "majority n - 2"
  have m: "?m + 2 = majority n" using assms(2) by (simp add: majority_def)
  then obtain s' js where s': "runs_to n s s'" "applied s' = applied s" "canvass n i T L js s'" "team n i js" "length js = ?m"
    using collect_votes [OF assms, of ?m] by auto
  obtain j where j: "j < n" "j \<noteq> i" "j \<notin> set js"
    using fresh_voter [of js n i] s'(4,5) m assms(2,3) by (auto simp: team_def)
  obtain s'' where "runs_to n s' s''" "applied s'' = applied s'" "elected n i T L (js @ [j]) s''"
    using one_vote [OF s'(3) assms(2,3) j] s'(4,5) m by (auto simp: team_def)
  then show ?thesis using s' j m runs_to_trans by (intro exI [of _ s''] exI [of _ "js @ [j]"]) (auto simp: team_def)
qed

lemma most_up_to_date: "0 < (k :: nat) \<Longrightarrow> \<exists>i < k. \<forall>j < k. up_to_date (f i) (f j)"
proof (induction k)
  case (Suc k)
  show ?case
  proof (cases "k = 0")
    case False
    then obtain i where i: "i < k" "\<forall>j < k. up_to_date (f i) (f j)" using Suc by auto
    show ?thesis
    proof (cases "up_to_date (f i) (f k)")
      case True
      then show ?thesis using i by (intro exI [of _ i]) (auto simp: less_Suc_eq)
    next
      case False
      then have "up_to_date (f k) (f j)" if "j < k" for j using i(2) that by (force simp: up_to_date_def)
      then show ?thesis by (intro exI [of _ k]) (auto simp: less_Suc_eq)
    qed
  qed auto
qed simp

text \<open>From every reachable state a leader can be elected in a cluster that is up.\<close>

lemma elect:
  assumes "reachable n s" "2 \<le> n"
  shows "\<exists>s0 s' i T L js. runs_by revival n s s0 \<and> runs_to n s0 s' \<and> applied s' = applied s \<and> i < n \<and> elected n i T L js s' \<and> team n i js \<and> length js + 1 = majority n"
proof -
  obtain s0 where s0: "runs_by revival n s s0" "applied s0 = applied s" "all_up n s0" "\<forall>i < n. idle (node s0 i)" using restart_all by blast
  obtain i where i: "i < n" "\<forall>j < n. up_to_date (log (node s0 i)) (log (node s0 j))"
    using most_up_to_date [of n "\<lambda>i. log (node s0 i)"] assms(2) by auto
  let ?d = "\<Sum>j < n. currentTerm (node s0 j)"
  have d: "currentTerm (node s0 j) \<le> ?d" if "j < n" for j using that by (intro member_le_sum) auto
  let ?T = "Suc (currentTerm (node s0 i) + ?d)"
  note r0 = runs_to_reachable [OF s0(1) assms(1)]
  obtain s1 where s1: "runs_to n s0 s1" "only_at i s0 s1" "campaigning n i ?T (log (node s0 i)) s1"
    using raise_term [OF r0 assms(2) i(1) s0(3)] s0(4) i(1) by blast
  have "currentTerm (node s1 j) < ?T \<and> up_to_date (log (node s0 i)) (log (node s1 j)) \<and> commitIndex (node s1 j) = 0" if "j < n" "j \<noteq> i" for j
    using that s1(2) d [of j] i(2) s0(4) by (simp add: only_at_def idle_def)
  then have "canvass n i ?T (log (node s0 i)) [] s1"
    using s1 runs_to_reachable [OF s1(1) r0] only_at_up [OF s1(2) s0(3)] by (auto simp: canvass_def campaigning_def)
  from win [OF this assms(2) i(1)] show ?thesis using s0(1,2) s1(1,2) i(1) runs_to_trans unfolding only_at_def by metis
qed

section \<open>Replicating a command\<close>

definition appArgs :: "nat \<Rightarrow> nat \<Rightarrow> 'c Log list \<Rightarrow> nat \<Rightarrow> 'c AppendEntiesArgs" where
  "appArgs i T M p = \<lparr>aeTerm = T, aeLeaderId = i, aeLeaderCommit = 0, aePrevLogIndex = p, aePrevLogTerm = lTerm (M ! p), aeEntries = drop (Suc p) M\<rparr>"

definition appMsg :: "nat \<Rightarrow> nat \<Rightarrow> 'c Log list \<Rightarrow> nat \<Rightarrow> nat \<Rightarrow> 'c Message" where
  "appMsg i T M p j = \<lparr>mFrom = i, mTo = j, mTerm = T, mBody = AppB (appArgs i T M p) zeroAppReply\<rparr>"

definition appAnswer :: "nat \<Rightarrow> nat \<Rightarrow> 'c Log list \<Rightarrow> nat \<Rightarrow> nat \<Rightarrow> AppendEntiesReply \<Rightarrow> 'c Message" where
  "appAnswer i T M p j x = \<lparr>mFrom = j, mTo = i, mTerm = T, mBody = AppRespB (appArgs i T M p) x\<rparr>"

lemma append_addressees: "mTo (appMsg i T M p j) = j" "mTo (appAnswer i T M p j x) = i"
  by (simp_all add: appMsg_def appAnswer_def)

text \<open>A leader that has committed nothing yet and whose last entry the peers \<open>ks\<close> have acknowledged.\<close>

definition leading :: "nat \<Rightarrow> nat \<Rightarrow> nat \<Rightarrow> 'c Log list \<Rightarrow> nat list \<Rightarrow> 'c Raft \<Rightarrow> bool" where
  "leading n i T M ks r \<longleftrightarrow> state r = StateLeader \<and> currentTerm r = T \<and> log r = M \<and> commitIndex r = 0 \<and> commitc r = [] \<and>
     lastApplied r = 0 \<and> heartbeatElapsed r = 0 \<and>
     (\<forall>j < n. matchIndex r ! j = (if j = i \<or> j \<in> set ks then int (length M - 1) else 0))"

definition replicating :: "nat \<Rightarrow> nat \<Rightarrow> nat \<Rightarrow> 'c Log list \<Rightarrow> nat list \<Rightarrow> nat list \<Rightarrow> 'c Sys \<Rightarrow> bool" where
  "replicating n i T M js ks s \<longleftrightarrow> reachable n s \<and> all_up n s \<and> leading n i T M ks (node s i) \<and> (\<forall>j \<in> set js. voter T (node s j)) \<and>
     (\<forall>j \<in> set js. appMsg i T M (length M - 2) j \<in> set (net s))"

lemma start_command:
  assumes "elected n i T L js s" "2 \<le> n" "i < n" "team n i js" "M = L @ [\<lparr>lTerm = T, lCommand = Some c, lIndex = length L\<rparr>]"
  shows "\<exists>s' r. Start c (node s i) = Inr (r, int (length L), int T, True) \<and> sys_step n (EStart i c) s = Some s' \<and>
    applied s' = applied s \<and> replicating n i T M js [] s'"
proof -
  have e: "reachable n s" "all_up n s" "newLeader n i T L (node s i)" "\<And>j. j \<in> set js \<Longrightarrow> voter T (node s j)"
    using assms(1) by (auto simp: elected_def)
  note wf = reachable_wf [OF e(1) assms(2,3)] and nl = e(3) [unfolded newLeader_def]
  let ?r = "(node s i)\<lparr>log := M, nextIndex := (replicate n (length L))[i := Suc (length L)], matchIndex := (replicate n 0)[i := int (length L)]\<rparr>"
  let ?r1 = "(persist ?r)\<lparr>propc := map (appReq ?r) (otherPeers ?r)\<rparr>"
  have L: "wf_log L" "wf_log M" "0 < length L" using wf(3) nl wf_log_length [OF wf(3)] by (simp_all add: assms(5) wf_log_snoc)
  have "bcastAppend ?r = Inr ?r1"
    by (subst bcastAppend_eq) (use L wf(2,7) assms(3) in \<open>auto simp: assms(5) nth_list_update Suc_le_eq\<close>)
  then have st: "Start c (node s i) = Inr (?r1, int (length L), int T, True)"
    using nl wf(1,2) assms(3) by (simp add: Start_def handleCommand_def handleStart_def Let_def assms(5))
  then have step: "sys_step n (EStart i c) s = Some (serveChannels i ?r1 s)" using e(2) assms(3) by (simp add: sys_step_def all_up_def)
  have "leading n i T M [] (node (serveChannels i ?r1 s) i)"
    using nl assms(3) by (simp add: leading_def serveChannels_def nth_list_update assms(5)) (simp add: persist_def)
  moreover have "appMsg i T M (length M - 2) j \<in> set (net (serveChannels i ?r1 s))" if "j \<in> set js" for j
  proof -
    have "j < n" "j \<noteq> i" using that assms(4) by (auto simp: team_def)
    moreover from this have "appReq ?r j = appMsg i T M (length M - 2) j"
      using nl wf(1,2) L(3) by (simp add: appReq_def appMsg_def appArgs_def assms(5))
    ultimately show ?thesis using wf(1,2) by (auto simp: serveChannels_def otherPeers_def intro: rev_image_eqI)
  qed
  moreover have "voter T (node (serveChannels i ?r1 s) j)" if "j \<in> set js" for j
    using e(4) [OF that] that assms(4) by (auto simp: serveChannels_def team_def)
  moreover have "all_up n (serveChannels i ?r1 s)" "applied (serveChannels i ?r1 s) = applied s" using e(2) by (simp_all add: serveChannels_def all_up_def)
  ultimately show ?thesis using st step reachable.more [OF e(1) step] unfolding replicating_def by blast
qed

text \<open>The follower's answers.\<close>

lemma rejectEntries_fresh:
  assumes "wf_log (log r)" "commitIndex r = 0"
  obtains x where "rejectEntries args reply r = Inr (r, x)" "\<not> aerSuccess x" "aerTerm x = currentTerm r" "aerNextIndex x = 1" "aerConflictIndex x \<le> 0"
proof -
  have "refusedNext (commitIndex r) (aePrevLogIndex args) = 1" using assms(2) by (auto simp: refusedNext_def Let_def)
  then show ?thesis using rejectEntries_form [OF assms(1), of args reply] that by auto
qed

lemma acceptEntries_frame:
  assumes "acceptEntries args reply r = Inr (r', x)" "aeLeaderCommit args = 0"
  shows "commitIndex r' = commitIndex r" "state r' = state r" "currentTerm r' = currentTerm r"
  using assms by (auto simp: acceptEntries_def mergeEntries_def appendLog_def followCommit_def Let_def
      split: sum.splits if_splits list.splits prod.splits)

lemma append_answered:
  assumes "reachable n s" "2 \<le> n" "j < n" "voter T (node s j)" "appMsg i T M p j \<in> set (net s)" "p < length M"
  shows "\<exists>r' m' x. Step (node s j) (receive (appMsg i T M p j) (node s j)) = Inr (r', m') \<and> respond m' = [appAnswer i T M p j x] \<and> voter T r' \<and>
    (if p < length (log (node s j)) \<and> lTerm (log (node s j) ! p) = lTerm (M ! p) then aerSuccess x \<and> aerNextIndex x = length M
     else \<not> aerSuccess x \<and> aerNextIndex x = 1 \<and> aerConflictIndex x \<le> 0)"
proof -
  let ?args = "appArgs i T M p" and ?r = "(node s j)\<lparr>electionElapsed := 0, lead := Some i\<rparr>"
  obtain a where a: "cluster n s a" by (rule reachable_cluster [OF assms(1,2)])
  note c = cluster_node [OF a assms(3)] and wf = reachable_wf [OF assms(1-3)]
  have v: "currentTerm (node s j) = T" "state (node s j) = StateFollower" "commitIndex (node s j) = 0" using assms(4) by (simp_all add: voter_def)
  have "msg_ok n a (appMsg i T M p j)" using a assms(5) by (simp add: cluster_def)
  then have ok: "app_ok n a ?args" by (simp add: msg_ok_def appMsg_def)
  have rep: "rep n a j ?r" "state ?r = StateFollower" "aeTerm ?args = currentTerm ?r" using c(2) v by (simp_all add: appArgs_def)
  have st: "Step (node s j) (receive (appMsg i T M p j) (node s j)) = (case handleAppendEntries i ?args zeroAppReply (node s j) of Inl e \<Rightarrow> Inl e
      | Inr (r, x) \<Rightarrow> Inr (persist r, \<lparr>mFrom = i, mTo = j, mTerm = T, mBody = AppB ?args x\<rparr>))"
    using v wf(1,6) by (auto simp: Step_def step_def stepFollower_def receive_def AppendEnties_def appMsg_def appArgs_def roles_agree_def split: sum.splits)
  have "\<exists>r' x. handleAppendEntries i ?args zeroAppReply (node s j) = Inr (r', x) \<and> voter T r' \<and> aerTerm x = T \<and>
    (if p < length (log (node s j)) \<and> lTerm (log (node s j) ! p) = lTerm (M ! p) then aerSuccess x \<and> aerNextIndex x = length M
     else \<not> aerSuccess x \<and> aerNextIndex x = 1 \<and> aerConflictIndex x \<le> 0)"
  proof (cases "p < length (log (node s j)) \<and> lTerm (log (node s j) ! p) = lTerm (M ! p)")
    case True
    have q: "aePrevLogIndex ?args + length (aeEntries ?args) = length M - 1" using assms(6) by (simp add: appArgs_def)
    have pre: "aePrevLogIndex ?args < length (log ?r)" "lTerm (log ?r ! aePrevLogIndex ?args) = aePrevLogTerm ?args" using True by (simp_all add: appArgs_def)
    obtain b r' where r': "acceptEntries ?args zeroAppReply ?r =
        Inr (r', zeroAppReply\<lparr>aerTerm := currentTerm ?r, aerSuccess := True, aerNextIndex := Suc (length M - 1)\<rparr>)" "rep n b j r'" "length M - 1 < length (log r')"
      using acceptEntries_ok [OF rep(1) c(1) rep(2) ok rep(3) pre refl, of zeroAppReply] unfolding q by metis
    note fr = acceptEntries_frame [OF r'(1)]
    have "matchTerm p (lTerm (M ! p)) ?r = Inr True" using True wf(3) by (simp add: matchTerm_wf)
    moreover have "lastIndex (r'\<lparr>replyNextIndex := Suc (length M - 1)\<rparr>) = Inr (length (log r') - 1)" using rep_wf [OF r'(2)] by (simp add: lastIndex_wf)
    ultimately show ?thesis using r'(1,3) v fr True assms(6)
      by (auto simp: handleAppendEntries_def appendBody_def Let_def appArgs_def voter_def)
  next
    case False
    obtain x where "rejectEntries ?args zeroAppReply ?r = Inr (?r, x)" "\<not> aerSuccess x" "aerTerm x = currentTerm ?r" "aerNextIndex x = 1" "aerConflictIndex x \<le> 0"
      by (rule rejectEntries_fresh [of ?r ?args zeroAppReply]) (use wf(3) v in simp_all)
    moreover have "matchTerm p (lTerm (M ! p)) ?r = Inr False" using False wf(3) by (simp add: matchTerm_wf)
    moreover have "lastIndex (?r\<lparr>replyNextIndex := 1\<rparr>) = Inr (length (log (node s j)) - 1)" using wf(3) by (simp add: lastIndex_wf)
    ultimately show ?thesis using v False
      by (auto simp: handleAppendEntries_def appendBody_def Let_def appArgs_def voter_def)
  qed
  then show ?thesis unfolding st by (force simp: respond_def appAnswer_def voter_def)
qed

text \<open>The leader's commit rule when every peer has acknowledged all or nothing.\<close>

lemma insort_replicate: "insort v (replicate b v) = v # replicate b v"
  by (cases b) simp_all

lemma insort_top: "0 < (v :: int) \<Longrightarrow> insort v (replicate a 0 @ replicate b v) = replicate a 0 @ v # replicate b v"
  by (induction a) (simp_all add: insort_replicate)

lemma insort_bottom: "0 < (v :: int) \<Longrightarrow> insort 0 (replicate a 0 @ replicate b v) = 0 # replicate a 0 @ replicate b v"
  by (cases a; cases b) simp_all

lemma sort_two_levels:
  assumes "\<forall>x \<in> set xs. x = 0 \<or> x = v" "0 < (v :: int)" "k < length xs"
  shows "rev (sort xs) ! k = (if k < length (filter (\<lambda>x. x = v) xs) then v else 0)"
proof -
  have "sort xs = replicate (length (filter (\<lambda>x. x = 0) xs)) 0 @ replicate (length (filter (\<lambda>x. x = v) xs)) v"
    using assms(1)
  proof (induction xs)
    case (Cons x xs)
    then show ?case using assms(2)
      by (auto simp: insort_top insort_bottom replicate_app_Cons_same)
  qed simp
  moreover have "length xs = length (filter (\<lambda>x. x = 0) xs) + length (filter (\<lambda>x. x = v) xs)"
    using assms(1,2) by (induction xs) auto
  ultimately show ?thesis using assms(3) by (simp add: nth_append)
qed

lemma commit_rank:
  assumes "length mx = n" "\<And>j. j < n \<Longrightarrow> mx ! j = (if j = i \<or> j \<in> set ks then v else 0)" "0 < (v :: int)" "team n i ks" "i < n"
  shows "rev (sort mx) ! (majority n - 1) = (if length ks + 1 < majority n then 0 else v)"
proof -
  have "j < length mx \<and> mx ! j = v \<longleftrightarrow> j \<in> insert i (set ks)" for j
    using assms(2) [of j] assms(1,3,4,5) by (auto simp: team_def split: if_splits)
  then have "{j. j < length mx \<and> mx ! j = v} = insert i (set ks)" by blast
  moreover have "card (insert i (set ks)) = Suc (length ks)" using assms(4) by (auto simp: team_def distinct_card card_insert_if)
  ultimately have "length (filter (\<lambda>x. x = v) mx) = Suc (length ks)" by (simp add: length_filter_conv_card)
  moreover have "\<forall>x \<in> set mx. x = 0 \<or> x = v" using assms(1,2) by (metis in_set_conv_nth)
  moreover have "majority n - 1 < length mx" using assms(1,5) by (simp add: majority_def) 
  ultimately show ?thesis using sort_two_levels [of mx v "majority n - 1"] assms(3) by (auto simp: majority_def)
qed

definition committing :: "nat \<Rightarrow> nat \<Rightarrow> 'c Log list \<Rightarrow> 'c Raft \<Rightarrow> bool" where
  "committing i T M r \<longleftrightarrow> log r = M \<and> commitIndex r = length M - 1 \<and> commitc r = [length M - 1] \<and> lastApplied r = 0"

lemma success_handled:
  assumes "reachable n s" "2 \<le> n" "i < n" "leading n i T M ks (node s i)" "team n i (ks @ [j])" "1 < length M" "lTerm (last M) = T"
    "aerSuccess x" "aerNextIndex x = length M"
  shows "\<exists>r' m'. Step (node s i) (receive (appAnswer i T M p j x) (node s i)) = Inr (r', m') \<and> respond m' = [] \<and>
    (if length ks + 2 < majority n then leading n i T M (ks @ [j]) r' else committing i T M r')"
proof -
  let ?r = "node s i"
  obtain a where a: "cluster n s a" by (rule reachable_cluster [OF assms(1,2)])
  note c = cluster_node [OF a assms(3)] and wf = reachable_wf [OF assms(1-3)] and ld = assms(4) [unfolded leading_def]
  have j: "j < n" "j \<noteq> i" "j \<notin> set ks" using assms(5) by (auto simp: team_def)
  let ?r1 = "?r\<lparr>nextIndex := (nextIndex ?r)[j := length M], matchIndex := (matchIndex ?r)[j := int (length M - 1)]\<rparr>"
  have lm: "Suc (length M - Suc 0) = length M" using assms(6) by simp
  have h: "handleAppResp j (appArgs i T M p) x ?r = updateCommitIndex ?r1"
    using ld wf(3,4,5) j(1) assms(6,8,9) rep_indexD(2) [OF c(2) j(1)] by (simp add: handleAppResp_def lastIndex_wf lm)
  have mx: "matchIndex ?r1 ! k = (if k = i \<or> k \<in> set (ks @ [j]) then int (length M - 1) else 0)" if "k < n" for k
    using ld that wf(5) j by (auto simp: nth_list_update)
  have q: "quorum ?r1 = majority n" "length (matchIndex ?r1) = n" "majority n - 1 < n" using wf(2,5) assms(2) by (auto simp: quorum_def majority_def)
  have rank: "rev (sort (matchIndex ?r1)) ! (majority n - 1) = (if length ks + 2 < majority n then 0 else int (length M - 1))"
    using commit_rank [OF q(2) mx _ assms(5,3)] assms(6) by simp
  have st: "Step ?r (receive (appAnswer i T M p j x) ?r) = (case handleAppResp j (appArgs i T M p) x ?r of Inl e \<Rightarrow> Inl e | Inr r \<Rightarrow> Inr (persist r, appAnswer i T M p j x))"
    using ld wf(6) by (auto simp: Step_def step_def stepLeader_def receive_def appAnswer_def roles_agree_def split: sum.splits)
  show ?thesis
  proof (cases "length ks + 2 < majority n")
    case True
    then have "updateCommitIndex ?r1 = Inr ?r1" using rank q by (simp add: updateCommitIndex_def Let_def)
    moreover have "leading n i T M (ks @ [j]) (persist ?r1)" using ld mx by (simp add: leading_def) (simp add: persist_def)
    ultimately show ?thesis using True st h by (simp add: respond_def appAnswer_def)
  next
    case False
    obtain k where k: "length M = Suc k" "0 < k" using assms(6) by (cases "length M") auto
    have "M ! k = last M" using k(1) by (subst last_conv_nth) auto
    moreover have "rev (sort (matchIndex ?r1)) ! (majority n - 1) = int k" using rank False k(1) by simp
    ultimately have "updateCommitIndex ?r1 = Inr (?r1\<lparr>commitIndex := length M - 1, commitc := [length M - 1]\<rparr>)"
      using q ld assms(7) wf(3) commitTo_wf [of ?r1 k] k by (simp add: updateCommitIndex_def Let_def log_at_lt)
    then show ?thesis using False st h ld by (simp add: respond_def appAnswer_def committing_def)
  qed
qed

text \<open>After a refusal the leader starts over at the first entry, with its next heartbeat.\<close>

lemma refusal_handled:
  assumes "reachable n s" "2 \<le> n" "i < n" "leading n i T M ks (node s i)" "j < n" "p < length M" "1 < length M"
    "\<not> aerSuccess x" "aerNextIndex x = 1" "aerConflictIndex x \<le> 0"
  shows "\<exists>r' m'. Step (node s i) (receive (appAnswer i T M p j x) (node s i)) = Inr (r', m') \<and> respond m' = [] \<and>
    leading n i T M ks r' \<and> nextIndex r' ! j = 1"
proof -
  let ?r = "node s i"
  note wf = reachable_wf [OF assms(1-3)] and ld = assms(4) [unfolded leading_def]
  have "p - 1 < length (log ?r)" using assms(6) ld by simp
  then obtain y where "rollbackScan (log ?r) (aerConflictTerm x) (p - 1) = Inr y" using rollbackScan_total by blast
  then have "handleAppResp j (appArgs i T M p) x ?r = Inr (?r\<lparr>nextIndex := (nextIndex ?r)[j := 1]\<rparr>)"
    using ld wf(3,4,5) assms(5,7-10) by (simp add: handleAppResp_def lastIndex_wf appArgs_def)
  then have "Step ?r (receive (appAnswer i T M p j x) ?r) = Inr (persist (?r\<lparr>nextIndex := (nextIndex ?r)[j := 1]\<rparr>), appAnswer i T M p j x)"
    using ld wf(6) by (simp add: Step_def step_def stepLeader_def receive_def appAnswer_def roles_agree_def)
  moreover have "leading n i T M ks (persist (?r\<lparr>nextIndex := (nextIndex ?r)[j := 1]\<rparr>))" using ld by (simp add: leading_def) (simp add: persist_def)
  ultimately show ?thesis using wf(4) assms(5) by (simp add: respond_def appAnswer_def)
qed

lemma quiet_beats:
  assumes "tickf (node s i) = TickHeartbeat" "heartbeatElapsed (node s i) = 0" "propc (node s i) = []" "i < n" "all_up n s" "m < heartbeatTimeout"
  shows "runs_to n s (s\<lparr>node := (node s)(i := (node s i)\<lparr>heartbeatElapsed := m\<rparr>)\<rparr>)"
  using assms(6)
proof (induction m)
  case 0
  have "(node s i)\<lparr>heartbeatElapsed := 0\<rparr> = node s i" using assms(2) by (cases "node s i") simp
  then show ?case by simp
next
  case (Suc m)
  let ?r = "\<lambda>m. (node s i)\<lparr>heartbeatElapsed := m\<rparr>"
  let ?s = "\<lambda>m. s\<lparr>node := (node s)(i := ?r m)\<rparr>"
  have "tick (?r m) = Inr (?r (Suc m))" using assms(1) Suc.prems by (simp add: tick_def tickHeartbeat_def Let_def)
  then have "sys_step n (ETick i) (?s m) = Some (serveChannels i (?r (Suc m)) (?s m))"
    by (intro tick_runs) (use assms(4,5) in \<open>simp_all add: all_up_def\<close>)
  moreover have "(?r (Suc m))\<lparr>propc := []\<rparr> = ?r (Suc m)" by (rule propc_same) (simp add: assms(3))
  ultimately have "sys_step n (ETick i) (?s m) = Some (?s (Suc m))" by (simp add: serveChannels_def assms(3))
  then have "runs_to n (?s m) (?s (Suc m))" by (rule runs_to_step) simp
  then show ?case using Suc runs_to_trans by fastforce
qed

lemma heartbeat:
  assumes "reachable n s" "2 \<le> n" "i < n" "all_up n s" "leading n i T M ks (node s i)"
  shows "\<exists>s'. runs_to n s s' \<and> only_at i s s' \<and> leading n i T M ks (node s' i) \<and>
    (\<forall>j < n. j \<noteq> i \<longrightarrow> appMsg i T M (nextIndex (node s i) ! j - 1) j \<in> set (net s'))"
proof -
  let ?r = "(node s i)\<lparr>heartbeatElapsed := 4\<rparr>"
  let ?s = "s\<lparr>node := (node s)(i := ?r)\<rparr>"
  obtain a where a: "cluster n s a" by (rule reachable_cluster [OF assms(1,2)])
  note c = cluster_node [OF a assms(3)] and wf = reachable_wf [OF assms(1-3)] and ld = assms(5) [unfolded leading_def]
  have tf: "tickf (node s i) = TickHeartbeat" using ld wf(6) by (simp add: roles_agree_def)
  have run: "runs_to n s ?s" using quiet_beats [OF tf _ wf(7) assms(3,4), of 4] ld by (simp add: heartbeatTimeout_def)
  have r0: "(node s i)\<lparr>heartbeatElapsed := 0\<rparr> = node s i" using ld by (cases "node s i") simp
  let ?r1 = "(persist (node s i))\<lparr>propc := map (appReq (node s i)) (otherPeers (node s i))\<rparr>"
  have ix: "1 \<le> nextIndex (node s i) ! j" "nextIndex (node s i) ! j \<le> length (log (node s i))" if "j < n" for j
    using rep_indexD [OF c(2) that] ld by blast+
  have "bcastAppend (node s i) = Inr ?r1" by (subst bcastAppend_eq) (use wf ix in auto)
  then have "tick ?r = Inr ?r1" using tf by (simp add: r0 tick_def tickHeartbeat_def Let_def heartbeatTimeout_def)
  then have "sys_step n (ETick i) ?s = Some (serveChannels i ?r1 ?s)"
    by (intro tick_runs) (use assms(3,4) in \<open>simp_all add: all_up_def\<close>)
  then have "runs_to n s (serveChannels i ?r1 ?s)" using run runs_to_trans runs_to_step quiet.simps(1) by metis
  moreover have "only_at i s (serveChannels i ?r1 ?s)" by (simp add: only_at_def serveChannels_def)
  moreover have "leading n i T M ks (node (serveChannels i ?r1 ?s) i)" using ld by (simp add: leading_def serveChannels_def) (simp add: persist_def)
  moreover have "appMsg i T M (nextIndex (node s i) ! j - 1) j \<in> set (net (serveChannels i ?r1 ?s))" if "j < n" "j \<noteq> i" for j
  proof -
    have "appReq (node s i) j = appMsg i T M (nextIndex (node s i) ! j - 1) j"
      using ld wf(1) ix(1) [OF that(1)] by (simp add: appReq_def appMsg_def appArgs_def)
    then show ?thesis using wf(1,2) that by (auto simp: serveChannels_def otherPeers_def intro: rev_image_eqI)
  qed
  ultimately show ?thesis by blast
qed

definition advanced :: "nat \<Rightarrow> nat \<Rightarrow> nat \<Rightarrow> 'c Log list \<Rightarrow> nat list \<Rightarrow> nat list \<Rightarrow> 'c Sys \<Rightarrow> bool" where
  "advanced n i T M js ks s \<longleftrightarrow> (if length ks + 1 < majority n then replicating n i T M js ks s
     else all_up n s \<and> committing i T M (node s i))"

text \<open>One request and its answer.\<close>

lemma exchange:
  assumes "replicating n i T M js ks s" "2 \<le> n" "i < n" "team n i js" "team n i (ks @ [j])" "j \<in> set js" "1 < length M" "lTerm (last M) = T"
    "appMsg i T M p j \<in> set (net s)" "p < length M"
  shows "\<exists>s'. runs_to n s s' \<and> applied s' = applied s \<and>
    (if p < length (log (node s j)) \<and> lTerm (log (node s j) ! p) = lTerm (M ! p) then advanced n i T M js (ks @ [j]) s'
     else replicating n i T M js ks s' \<and> nextIndex (node s' i) ! j = 1)"
proof -
  note rp = assms(1) [unfolded replicating_def]
  have r: "reachable n s" "all_up n s" "leading n i T M ks (node s i)" "\<And>k. k \<in> set js \<Longrightarrow> voter T (node s k)" using rp by blast+
  have j: "j < n" "j \<noteq> i" using assms(5) by (auto simp: team_def)
  let ?ok = "p < length (log (node s j)) \<and> lTerm (log (node s j) ! p) = lTerm (M ! p)"
  obtain r1 m1 x where r1: "Step (node s j) (receive (appMsg i T M p j) (node s j)) = Inr (r1, m1)" "respond m1 = [appAnswer i T M p j x]" "voter T r1"
    "if ?ok then aerSuccess x \<and> aerNextIndex x = length M else \<not> aerSuccess x \<and> aerNextIndex x = 1 \<and> aerConflictIndex x \<le> 0"
    using append_answered [OF r(1) assms(2) j(1) r(4) [OF assms(6)] assms(9,10)] by blast
  obtain s1 where s1: "runs_to n s s1" "node s1 j = r1\<lparr>propc := []\<rparr>" "\<And>k. k \<noteq> j \<Longrightarrow> node s1 k = node s k"
    "set (net s) \<subseteq> set (net s1)" "appAnswer i T M p j x \<in> set (net s1)" "all_up n s1" "applied s1 = applied s"
    using deliver [OF assms(9) append_addressees(1) j(1) r(2) r1(1)] unfolding r1(2) by auto
  note reach = runs_to_reachable [OF s1(1) r(1)]
  have ld: "leading n i T M ks (node s1 i)" using r(3) s1(3) [of i] j by simp
  obtain r2 m2 where r2: "Step (node s1 i) (receive (appAnswer i T M p j x) (node s1 i)) = Inr (r2, m2)" "respond m2 = []"
    "if ?ok then if length ks + 2 < majority n then leading n i T M (ks @ [j]) r2 else committing i T M r2
     else leading n i T M ks r2 \<and> nextIndex r2 ! j = 1"
  proof (cases ?ok)
    case True
    then show ?thesis using success_handled [OF reach assms(2,3) ld assms(5,7,8), of x p] r1(4) that by auto
  next
    case False
    then show ?thesis using refusal_handled [OF reach assms(2,3) ld j(1) assms(10,7), of x] r1(4) that by auto
  qed
  obtain s2 where s2: "runs_to n s1 s2" "node s2 i = r2\<lparr>propc := []\<rparr>" "\<And>k. k \<noteq> i \<Longrightarrow> node s2 k = node s1 k"
    "set (net s1) \<subseteq> set (net s2)" "all_up n s2" "applied s2 = applied s1"
    by (rule deliver [OF s1(5) append_addressees(2) assms(3) s1(6) r2(1)]) (use that in blast)
  note run = runs_to_trans [OF s1(1) s2(1)]
  have "voter T (node s2 k)" if "k \<in> set js" for k
  proof -
    have "k \<noteq> i" using that assms(4) by (auto simp: team_def)
    then show ?thesis using r(4) [OF that] r1(3) s1(2,3) s2(3) by (cases "k = j") (simp_all add: voter_def)
  qed
  then have keep: "replicating n i T M js ks' s2" if "leading n i T M ks' r2" for ks'
    using that rp runs_to_reachable [OF run r(1)] s2(2,4,5) s1(4) by (auto simp: replicating_def leading_def)
  have "if ?ok then advanced n i T M js (ks @ [j]) s2 else replicating n i T M js ks s2 \<and> nextIndex (node s2 i) ! j = 1"
    using r2(3) keep s2(2,5) by (auto simp: advanced_def committing_def)
  then show ?thesis using run s1(7) s2(6) by metis
qed

text \<open>A peer's acknowledgement can always be had, with the whole log if need be.\<close>

lemma acknowledged:
  assumes "replicating n i T M js ks s" "2 \<le> n" "i < n" "team n i js" "team n i (ks @ [j])" "j \<in> set js" "1 < length M" "lTerm (last M) = T"
  shows "\<exists>s'. runs_to n s s' \<and> applied s' = applied s \<and> advanced n i T M js (ks @ [j]) s'"
proof -
  have j: "j < n" "j \<noteq> i" using assms(5) by (auto simp: team_def)
  have m: "appMsg i T M (length M - 2) j \<in> set (net s)" "length M - 2 < length M" using assms(1,6,7) by (auto simp: replicating_def)
  obtain s1 where s1: "runs_to n s s1" "applied s1 = applied s"
    "advanced n i T M js (ks @ [j]) s1 \<or> replicating n i T M js ks s1 \<and> nextIndex (node s1 i) ! j = 1"
    using exchange [OF assms m] by metis
  from s1(3) show ?thesis
  proof
    assume rp: "replicating n i T M js ks s1 \<and> nextIndex (node s1 i) ! j = 1"
    then have r: "reachable n s1" "all_up n s1" "leading n i T M ks (node s1 i)" by (simp_all add: replicating_def)
    obtain s2 where s2: "runs_to n s1 s2" "only_at i s1 s2" "leading n i T M ks (node s2 i)" "appMsg i T M 0 j \<in> set (net s2)"
      using heartbeat [OF r(1) assms(2,3) r(2,3)] j rp by fastforce
    have "voter T (node s2 k)" if "k \<in> set js" for k
    proof -
      have "k \<noteq> i" using that assms(4) by (auto simp: team_def)
      then show ?thesis using that rp s2(2) by (simp add: replicating_def only_at_def)
    qed
    moreover note reach = runs_to_reachable [OF s2(1) r(1)]
    ultimately have rp2: "replicating n i T M js ks s2" using rp s2(2,3) only_at_up [OF s2(2) r(2)] by (auto simp: replicating_def only_at_def)
    have "wf_log M" "wf_log (log (node s2 j))" using reachable_wf(3) [OF reach assms(2)] assms(3) j(1) s2(3) by (auto simp: leading_def)
    then have "0 < length (log (node s2 j)) \<and> lTerm (log (node s2 j) ! 0) = lTerm (M ! 0)" by (simp add: wf_log_def)
    then obtain s3 where "runs_to n s2 s3" "applied s3 = applied s2" "advanced n i T M js (ks @ [j]) s3"
      using exchange [OF rp2 assms(2-8) s2(4) less_trans [OF zero_less_one assms(7)]] by auto
    then show ?thesis using s1(1,2) s2(1,2) runs_to_trans unfolding only_at_def by metis
  qed (use s1(1,2) in blast)
qed

lemma acknowledged_all:
  assumes "replicating n i T M js [] s" "2 \<le> n" "i < n" "team n i js" "length js + 1 = majority n" "1 < length M" "lTerm (last M) = T" "m \<le> length js"
  shows "\<exists>s'. runs_to n s s' \<and> applied s' = applied s \<and> advanced n i T M js (take m js) s'"
  using assms(8)
proof (induction m)
  case 0
  have "1 < majority n" using assms(2) by (simp add: majority_def)
  then show ?case using assms(1) by (intro exI [of _ s]) (simp add: advanced_def)
next
  case (Suc m)
  then obtain s' where s': "runs_to n s s'" "applied s' = applied s" "advanced n i T M js (take m js) s'" by auto
  then have rp: "replicating n i T M js (take m js) s'" using Suc.prems assms(5) by (simp add: advanced_def min_def)
  have t: "take (Suc m) js = take m js @ [js ! m]" "js ! m \<in> set js" using Suc.prems by (simp_all add: take_Suc_conv_app_nth)
  have "team n i (take m js @ [js ! m])" using assms(4) unfolding t(1) [symmetric] by (auto simp: team_def dest: in_set_takeD)
  from acknowledged [OF rp assms(2-4) this t(2) assms(6,7)] show ?case unfolding t(1) using s'(1,2) runs_to_trans by metis
qed

lemma apply_committed:
  assumes "reachable n s" "2 \<le> n" "i < n" "all_up n s" "committing i T M (node s i)" "1 < length M"
  shows "\<exists>s'. sys_step n (EApply i) s = Some s' \<and> all_up n s' \<and> log (node s' i) = M \<and> lastApplied (node s' i) = length M - 1 \<and>
    (i, \<lparr>amIndex = lIndex (last M), amCommand = lCommand (last M)\<rparr>) \<in> set (drop (length (applied s)) (applied s'))"
proof -
  let ?r = "(node s i)\<lparr>commitc := []\<rparr>"
  let ?f = "\<lambda>k. \<lparr>amIndex = lIndex (M ! k), amCommand = lCommand (M ! k)\<rparr>"
  note wf = reachable_wf(3) [OF assms(1-3)] and cm = assms(5) [unfolded committing_def]
  have "mapGo (applyMsg ?r) [1..<length M] = Inr (map ?f [1..<length M])"
    by (rule mapGo_Inr) (use cm in \<open>simp add: applyMsg_def log_at_lt\<close>)
  moreover have "Suc (length M - Suc 0) = length M" using assms(6) by simp
  ultimately have "stateMachine (node s i) = Inr (?r\<lparr>lastApplied := length M - 1\<rparr>, map ?f [1..<length M])"
    using cm assms(6) wf lastIndex_wf [of ?r] by (simp add: stateMachine_def Let_def del: upt_Suc)
  then have step: "sys_step n (EApply i) s = Some ((serveChannels i (?r\<lparr>lastApplied := length M - 1\<rparr>) s)\<lparr>applied := applied s @ map (Pair i) (map ?f [1..<length M])\<rparr>)"
    using assms(3,4) by (simp add: sys_step_def all_up_def)
  have "?f (length M - 1) = \<lparr>amIndex = lIndex (last M), amCommand = lCommand (last M)\<rparr>" using assms(6) by (subst (1 2) last_conv_nth) auto
  moreover have "length M - 1 \<in> set [1..<length M]" using assms(6) by auto
  ultimately have new: "(i, \<lparr>amIndex = lIndex (last M), amCommand = lCommand (last M)\<rparr>) \<in> set (map (Pair i) (map ?f [1..<length M]))"
    unfolding set_map by (metis (no_types, lifting) image_eqI)
  show ?thesis by (intro exI conjI, rule step) (use new cm assms(4) in \<open>simp_all add: serveChannels_def all_up_def\<close>)
qed

lemma progress:
  assumes "reachable n s" "2 \<le> n"
  shows "\<exists>s0 s1 s2 s3 s4 i T M r. runs_by revival n s s0 \<and> runs_to n s0 s1 \<and> all_up n s1 \<and> Start c (node s1 i) = Inr (r, int (length M - 1), int T, True) \<and>
    sys_step n (EStart i c) s1 = Some s2 \<and> runs_to n s2 s3 \<and> sys_step n (EApply i) s3 = Some s4 \<and> i < n \<and> all_up n s4 \<and>
    lastApplied (node s3 i) = 0 \<and> log (node s4 i) = M \<and> lastApplied (node s4 i) = length M - 1 \<and> 1 < length M \<and> lCommand (last M) = Some c \<and>
    (i, \<lparr>amIndex = lIndex (last M), amCommand = Some c\<rparr>) \<in> set (drop (length (applied s)) (applied s4))"
proof -
  obtain s0 s1 i T L js where s1: "runs_by revival n s s0" "runs_to n s0 s1" "applied s1 = applied s" "i < n" "elected n i T L js s1" "team n i js" "length js + 1 = majority n"
    using elect [OF assms] by blast
  let ?M = "L @ [\<lparr>lTerm = T, lCommand = Some c, lIndex = length L\<rparr>]"
  obtain s2 r where s2: "Start c (node s1 i) = Inr (r, int (length L), int T, True)" "sys_step n (EStart i c) s1 = Some s2" "applied s2 = applied s1" "replicating n i T ?M js [] s2"
    using start_command [OF s1(5) assms(2) s1(4,6) refl] by blast
  have r1: "reachable n s1" "all_up n s1" using s1(5) by (simp_all add: elected_def)
  have "wf_log L" using s1(5) reachable_wf(3) [OF r1(1) assms(2) s1(4)] by (auto simp: elected_def newLeader_def)
  then have M: "1 < length ?M" using wf_log_length by force
  obtain s3 where s3: "runs_to n s2 s3" "applied s3 = applied s2" "advanced n i T ?M js (take (length js) js) s3"
    using acknowledged_all [OF s2(4) assms(2) s1(4,6,7) M _ order_refl] by auto
  then have c: "all_up n s3" "committing i T ?M (node s3 i)" using s1(7) by (simp_all add: advanced_def)
  have "reachable n s3" using runs_to_reachable [OF s3(1)] reachable.more [OF r1(1) s2(2)] by blast
  from apply_committed [OF this assms(2) s1(4) c M] obtain s4 where "sys_step n (EApply i) s3 = Some s4" "all_up n s4" "log (node s4 i) = ?M"
    "lastApplied (node s4 i) = length ?M - 1" "(i, \<lparr>amIndex = lIndex (last ?M), amCommand = lCommand (last ?M)\<rparr>) \<in> set (drop (length (applied s3)) (applied s4))" by blast
  then show ?thesis using s1(1-4) s2(1-3) s3(1,2) c(2) r1(2) M
    by (intro exI [of _ s0] exI [of _ s1] exI [of _ s2] exI [of _ s3] exI [of _ s4] exI [of _ i] exI [of _ T] exI [of _ ?M] exI [of _ r]) (simp add: committing_def)
qed

lemma progress_run:
  assumes "reachable n s" "2 \<le> n"
  shows "\<exists>evs s' i k. sys_run n evs s = Some s' \<and> i < n \<and> (i, \<lparr>amIndex = k, amCommand = Some c\<rparr>) \<in> set (drop (length (applied s)) (applied s'))"
proof -
  obtain s0 s1 s2 s3 s4 i k where p: "runs_by revival n s s0" "runs_to n s0 s1" "sys_step n (EStart i c) s1 = Some s2" "runs_to n s2 s3"
    "sys_step n (EApply i) s3 = Some s4" "i < n" "(i, \<lparr>amIndex = k, amCommand = Some c\<rparr>) \<in> set (drop (length (applied s)) (applied s4))"
    using progress [OF assms, of c] by blast
  then obtain e0 e1 e2 where "sys_run n e0 s = Some s0" "sys_run n e1 s0 = Some s1" "sys_run n e2 s2 = Some s3" by (auto simp: runs_by_def)
  then have "sys_run n (e0 @ e1 @ [EStart i c] @ e2 @ [EApply i]) s = Some s4" using p(3,5) by (simp add: sys_run_append)
  then show ?thesis using p(6,7) by blast
qed

end
