(* ===== verification/Raft_Runs.thy ===== *)
theory Raft_Runs
  imports Raft_System
begin

text \<open>
  Concrete runs of a three-peer cluster, for evaluating the model: a script chooses each next
  event from the current state, so that it can name a message by its position in the network.
\<close>

fun script :: "nat \<Rightarrow> ('c Sys \<Rightarrow> 'c event) list \<Rightarrow> 'c Sys \<Rightarrow> 'c Sys option" where
  "script n [] s = Some s"
| "script n (f # fs) s = (case sys_step n (f s) s of None \<Rightarrow> None | Some s' \<Rightarrow> script n fs s')"

fun script_events :: "nat \<Rightarrow> ('c Sys \<Rightarrow> 'c event) list \<Rightarrow> 'c Sys \<Rightarrow> 'c event list" where
  "script_events n [] s = []"
| "script_events n (f # fs) s = f s # (case sys_step n (f s) s of None \<Rightarrow> [] | Some s' \<Rightarrow> script_events n fs s')"

definition deliver :: "nat \<Rightarrow> 'c Sys \<Rightarrow> 'c event" where
  "deliver k s = EDeliver (net s ! k)"

definition event :: "'c event \<Rightarrow> 'c Sys \<Rightarrow> 'c event" where
  "event ev s = ev"

lemma script_run: "script n fs s = Some s' \<Longrightarrow> sys_run n (script_events n fs s) s = Some s'"
  by (induction fs arbitrary: s) (auto split: option.splits)

lemma script_reachable: "reachable n s \<Longrightarrow> script n fs s = Some s' \<Longrightarrow> reachable n s'"
  using script_run sys_run_reachable by blast

lemma reachable_the:
  "script n fs (init_sys n rnd) \<noteq> None \<Longrightarrow> reachable n (the (script n fs (init_sys n rnd)))"
  using script_reachable [OF reachable.init] by force

lemma run_the: "script n fs s \<noteq> None \<Longrightarrow> sys_run n (script_events n fs s) s = Some (the (script n fs s))"
  using script_run by force

section \<open>Peer 0 is elected, replicates a command, and two peers apply it\<close>

definition start_sys :: "nat Sys" where
  "start_sys = init_sys 3 (\<lambda>_. [])"

definition elect_script :: "(nat Sys \<Rightarrow> nat event) list" where
  "elect_script = replicate 10 (event (ETick 0)) @ [deliver 0, deliver 2]"

definition commit_script :: "(nat Sys \<Rightarrow> nat event) list" where
  "commit_script = [event (EStart 0 7), deliver 5, deliver 7] @ replicate 5 (event (ETick 0)) @
     [deliver 8, event (EApply 0), event (EApply 1)]"

definition elected_sys :: "nat Sys" where
  "elected_sys = the (script 3 elect_script start_sys)"

definition committed_sys :: "nat Sys" where
  "committed_sys = the (script 3 commit_script elected_sys)"

lemma start_reachable: "reachable 3 start_sys"
  by (simp add: start_sys_def reachable.init)

lemma elected_some: "script 3 elect_script start_sys \<noteq> None"
  by code_simp

lemma committed_some: "script 3 commit_script (the (script 3 elect_script start_sys)) \<noteq> None"
  by code_simp

lemma elected_reachable: "reachable 3 elected_sys"
  using script_reachable [OF start_reachable] elected_some by (auto simp: elected_sys_def)

lemma committed_run: "sys_run 3 (script_events 3 commit_script elected_sys) elected_sys = Some committed_sys"
  using run_the [OF committed_some] by (simp add: elected_sys_def committed_sys_def)

lemma committed_reachable: "reachable 3 committed_sys"
  using sys_run_reachable [OF elected_reachable committed_run] .

lemma elected_facts:
  "state (node elected_sys 0) = StateLeader" "currentTerm (node elected_sys 0) = 2"
  "votedFor (node elected_sys 1) = Some 0" "net elected_sys ! 2 \<in> set (net elected_sys)"
  "mTerm (net elected_sys ! 2) = 2"
  by code_simp+

lemma committed_facts:
  "state (node committed_sys 0) = StateLeader" "currentTerm (node committed_sys 0) = 2"
  "commitIndex (node committed_sys 0) = 1" "commitIndex (node committed_sys 1) = 1"
  "length (log (node committed_sys 0)) = 2" "length (log (node committed_sys 1)) = 2"
  "lTerm (log (node committed_sys 0) ! 1) = 2" "lTerm (log (node committed_sys 1) ! 1) = 2"
  "applied committed_sys = [(0, \<lparr>amIndex = 1, amCommand = Some 7\<rparr>), (1, \<lparr>amIndex = 1, amCommand = Some 7\<rparr>)]"
  by code_simp+

section \<open>A stale refusal reaches a peer that leads again with a shorter log\<close>

text \<open>
  Peer 0 leads term 2 and appends three entries nobody receives; it restarts, leads term 3 and
  sends a request with \<open>PrevLogIndex\<close> 3. Peer 2 leads term 4 and overwrites the three
  entries with one. Peer 0 campaigns in term 5; peer 1 votes for it and only then receives the
  request of term 3, which it refuses with term 5.
\<close>

definition stale_script :: "(nat Sys \<Rightarrow> nat event) list" where
  "stale_script = replicate 10 (event (ETick 0)) @ [deliver 0, deliver 2,
     event (EStart 0 1), event (EStart 0 2), event (EStart 0 3), event (EKill 0), event (ERestart 0 [])] @
     replicate 10 (event (ETick 0)) @ [deliver 11, deliver 13] @
     replicate 10 (event (ETick 2)) @ [deliver 17, deliver 18] @
     replicate 10 (event (ETick 2)) @ [deliver 20, deliver 21, event (EStart 2 9), deliver 24] @
     replicate 10 (event (ETick 0)) @ [deliver 27, deliver 14, deliver 29, deliver 30]"

definition stale_sys :: "nat Sys" where
  "stale_sys = the (script 3 stale_script start_sys)"

end
