(* ===== verification/Raft_Properties.thy ===== *)
theory Raft_Properties
  imports Raft_Validity Raft_Progress Raft_Runs
begin

text \<open>
  The correctness theorems of the Raft implementation, for every reachable state of a cluster of
  at least two peers, with the runs of \<open>Raft_Runs\<close> as concrete instances.
\<close>

section \<open>Safety\<close>

text \<open>
  C1: State machine safety. If two peers (or one peer at two times, restarts included) apply a
  command at the same index, it is the same command.
\<close>

theorem state_machine_safety:
  assumes "reachable n s" "2 \<le> n" "(i, x) \<in> set (applied s)" "(j, y) \<in> set (applied s)"
    "amIndex x = amIndex y"
  shows "amCommand x = amCommand y"
  by (rule applied_agree [OF assms])

theorem state_machine_safety_witness:
  "amCommand \<lparr>amIndex = 1, amCommand = Some 7\<rparr> = amCommand \<lparr>amIndex = 1, amCommand = Some (7::nat)\<rparr> \<and>
   {(0, \<lparr>amIndex = 1, amCommand = Some 7\<rparr>), (1, \<lparr>amIndex = 1, amCommand = Some 7\<rparr>)} \<subseteq> set (applied committed_sys)"
  using state_machine_safety [OF committed_reachable, of 0 "\<lparr>amIndex = 1, amCommand = Some 7\<rparr>"
      1 "\<lparr>amIndex = 1, amCommand = Some 7\<rparr>"] committed_facts(9) by simp

text \<open>
  C2: Election safety. Two peers that lead in the same term, at the same or at different times of
  a run, are the same peer.
\<close>

theorem election_safety:
  assumes "reachable n s" "2 \<le> n" "sys_run n evs s = Some s'" "i < n" "j < n"
    "state (node s i) = StateLeader" "state (node s' j) = StateLeader"
    "currentTerm (node s i) = currentTerm (node s' j)"
  shows "i = j"
  by (rule leader_unique [OF assms])

theorem election_safety_witness:
  "(0::nat) = 0 \<and> state (node elected_sys 0) = StateLeader \<and> state (node committed_sys 0) = StateLeader \<and>
   currentTerm (node elected_sys 0) = currentTerm (node committed_sys 0)"
  using election_safety [OF elected_reachable _ committed_run, of 0 0] elected_facts(1,2) committed_facts(1,2)
  by simp

text \<open>
  C3: Leader completeness. What a peer knows to be committed is in the log of every peer that
  leads the same or a later term, then or later.
\<close>

theorem leader_completeness:
  assumes "reachable n s" "2 \<le> n" "sys_run n evs s = Some s'" "i < n" "j < n"
    "k \<le> commitIndex (node s i)" "state (node s' j) = StateLeader"
    "currentTerm (node s i) \<le> currentTerm (node s' j)"
  shows "k < length (log (node s' j)) \<and> take (Suc k) (log (node s' j)) = take (Suc k) (log (node s i))"
proof -
  obtain a where a: "cluster n s a" by (rule reachable_cluster [OF assms(1,2)])
  obtain b where b: "history_grows a b" "cluster n s' b" using sys_run_sim [OF a assms(3,2)] by blast
  obtain t l M where M: "(t, l) \<in> commitH b" "t \<le> currentTerm (node s i)" "commitIndex (node s i) \<le> l"
    "llog b t = Some M"
    "take (Suc (commitIndex (node s i))) (log (node s i)) = take (Suc (commitIndex (node s i))) M"
    by (rule committed_later [OF a b(2,1) assms(4)])
  note L = rep_leader(1) [OF cluster_node(2,1) [OF b(2) assms(5)] assms(7)]
  have "take (Suc l) (log (node s' j)) = take (Suc l) M"
    by (rule majority.committed_in_later [OF cluster_node(1) [OF b(2) assms(5)] M(1,4) _ L])
      (use M(2) assms(8) in simp)
  then have eq: "take (Suc k) (log (node s' j)) = take (Suc k) (log (node s i))"
    using take_Suc_eq_mono M(3,5) assms(6) by (metis order_trans)
  moreover have "k < length (log (node s i))"
    using rep_commit_facts(1) [OF cluster_node(2,1) [OF a assms(4)]] assms(6) by simp
  ultimately show ?thesis using take_Suc_eq_length by blast
qed

theorem leader_completeness_witness:
  "1 < length (log (node committed_sys 0)) \<and>
   take (Suc 1) (log (node committed_sys 0)) = take (Suc 1) (log (node committed_sys 1)) \<and>
   1 \<le> commitIndex (node committed_sys 1)"
proof -
  have "currentTerm (node committed_sys 1) \<le> 2" by code_simp
  then show ?thesis
    using leader_completeness [OF committed_reachable _ sys_run.simps(1), of 1 0 1] committed_facts by simp
qed

text \<open>
  C4: Log matching. Two logs that have an entry of the same term at the same index are identical
  up to that index.
\<close>

theorem log_matching_property:
  assumes "reachable n s" "2 \<le> n" "i < n" "j < n" "k < length (log (node s i))" "k < length (log (node s j))"
    "lTerm (log (node s i) ! k) = lTerm (log (node s j) ! k)"
  shows "take (Suc k) (log (node s i)) = take (Suc k) (log (node s j))"
proof -
  obtain a where a: "cluster n s a" by (rule reachable_cluster [OF assms(1,2)])
  from cluster_log_matching [OF a assms(3-7)] show ?thesis .
qed

theorem log_matching_property_witness:
  "take (Suc 1) (log (node committed_sys 0)) = take (Suc 1) (log (node committed_sys 1)) \<and>
   length (log (node committed_sys 0)) = 2"
  using log_matching_property [OF committed_reachable, of 0 1 1] committed_facts by simp

text \<open>
  C5: Leader append-only. Between two moments of a run at which a peer leads the same term, its
  log only grows at the end.
\<close>

theorem leader_append_only:
  assumes "reachable n s" "2 \<le> n" "sys_run n evs s = Some s'" "i < n"
    "state (node s i) = StateLeader" "state (node s' i) = StateLeader"
    "currentTerm (node s i) = currentTerm (node s' i)"
  shows "\<exists>es. log (node s' i) = log (node s i) @ es"
proof -
  obtain a where a: "cluster n s a" by (rule reachable_cluster [OF assms(1,2)])
  obtain b where b: "history_grows a b" "cluster n s' b" using sys_run_sim [OF a assms(3,2)] by blast
  have "llog a (currentTerm (node s i)) = Some (log (node s i))"
    by (rule rep_leader(1) [OF cluster_node(2,1) [OF a assms(4)] assms(5)])
  then obtain es where "llog b (currentTerm (node s i)) = Some (log (node s i) @ es)"
    using b(1) unfolding history_grows_def llog_ext_def by blast
  moreover have "llog b (currentTerm (node s i)) = Some (log (node s' i))"
    using rep_leader(1) [OF cluster_node(2,1) [OF b(2) assms(4)] assms(6)] assms(7) by simp
  ultimately show ?thesis by auto
qed

theorem leader_append_only_witness:
  "\<exists>es. log (node committed_sys 0) = log (node elected_sys 0) @ es"
  using leader_append_only [OF elected_reachable _ committed_run, of 0] elected_facts(1,2) committed_facts(1,2)
  by simp

section \<open>Panics, durability, votes\<close>

text \<open>
  C8: None of the explicit panics in the work of the event loop, its log consistency check, its
  slice expressions or its other index expressions can fail in any run: the only panic there that
  can end a peer is the index expression of the leader's rollback scan. (When the timer panics
  because the loop is late is the subject of \<open>Raft_Ticker\<close>.)
\<close>

theorem only_rollback_scan_panics:
  assumes "reachable n s" "2 \<le> n" "(i, e) \<in> set (panics s)"
  shows "e = IndexOutOfRangeRollback"
proof -
  obtain a where "cluster n s a" by (rule reachable_cluster [OF assms(1,2)])
  with assms(3) show ?thesis by (auto simp: cluster_def)
qed

lemma stale_reachable: "reachable 3 stale_sys"
proof -
  have "script 3 stale_script start_sys \<noteq> None" by code_simp
  then show ?thesis using script_reachable [OF start_reachable] by (auto simp: stale_sys_def)
qed

theorem only_rollback_scan_panics_witness:
  "(0, IndexOutOfRangeRollback) \<in> set (panics stale_sys) \<and> IndexOutOfRangeRollback = IndexOutOfRangeRollback"
proof -
  have "panics stale_sys = [(0, IndexOutOfRangeRollback)]" by code_simp
  then show ?thesis using only_rollback_scan_panics [OF stale_reachable, of 0 IndexOutOfRangeRollback] by simp
qed

text \<open>
  C9: The leader's rollback scan does panic in some run of three peers: a refusal of a request the
  peer sent in an earlier term, answered with the new term, reaches the peer when it leads that
  new term with a log shorter than the \<open>PrevLogIndex\<close> of the old request.
\<close>

theorem rollback_scan_can_panic:
  "\<exists>s :: nat Sys. reachable 3 s \<and> (0, IndexOutOfRangeRollback) \<in> set (panics s)"
proof -
  have "panics stale_sys = [(0, IndexOutOfRangeRollback)]" by code_simp
  with stale_reachable show ?thesis by (intro exI [of _ stale_sys]) simp
qed

text \<open>
  C10: Durability. In every reachable state, a peer restarted from its persister has the term, the
  vote and the log it had.
\<close>

theorem restart_keeps_state:
  assumes "reachable n s" "2 \<le> n" "i < n"
  shows "currentTerm (Make n i (Copy (persister (node s i))) rnd) = currentTerm (node s i) \<and>
    votedFor (Make n i (Copy (persister (node s i))) rnd) = votedFor (node s i) \<and>
    log (Make n i (Copy (persister (node s i))) rnd) = log (node s i)"
proof -
  obtain a where "cluster n s a" by (rule reachable_cluster [OF assms(1,2)])
  from Make_fields [OF cluster_node(3) [OF this assms(3)]] show ?thesis by simp
qed

theorem restart_keeps_state_witness:
  "votedFor (Make 3 1 (Copy (persister (node elected_sys 1))) []) = Some 0"
  using restart_keeps_state [OF elected_reachable, of 1 "[]"] elected_facts(3) by simp

text \<open>
  One vote per term: all granted votes a peer ever sends in one term, before and after
  crashes, go to one candidate.
\<close>

theorem one_vote_per_term:
  assumes "reachable n s" "2 \<le> n" "m \<in> set (net s)" "m' \<in> set (net s)"
    "mBody m = VoteRespB args reply" "mBody m' = VoteRespB args' reply'"
    "rvrVoteGranted reply" "rvrVoteGranted reply'" "mFrom m = mFrom m'" "mTerm m = mTerm m'"
  shows "mTo m = mTo m'"
proof -
  obtain a where a: "cluster n s a" by (rule reachable_cluster [OF assms(1,2)])
  then have "msg_ok n a m" "msg_ok n a m'" "votes_once a"
    using assms(3,4) by (auto simp: cluster_def inv_def inv_vote_def)
  then have "(mTerm m, mFrom m, mTo m) \<in> votedH a" "(mTerm m, mFrom m, mTo m') \<in> votedH a"
    using assms(5-10) by (auto simp: msg_ok_def vote_resp_ok_def)
  with \<open>votes_once a\<close> show ?thesis unfolding votes_once_def by blast
qed

theorem one_vote_per_term_witness:
  "mTo (net elected_sys ! 2) = mTo (net elected_sys ! 2) \<and> mTo (net elected_sys ! 2) = 0"
proof -
  have "mBody (net elected_sys ! 2) = VoteRespB \<lparr>rvTerm = 2, rvCandidateId = 0, rvLastLogIndex = 0, rvLastLogTerm = 1\<rparr>
      \<lparr>rvrTerm = 2, rvrVoteGranted = True\<rparr>" "mTo (net elected_sys ! 2) = 0"
    by code_simp+
  then show ?thesis using one_vote_per_term [OF elected_reachable _ elected_facts(4) elected_facts(4)] by simp
qed

text \<open>
  C11: Refinement. Every reachable state of the cluster is a state of the abstract Raft protocol
  with the same terms, votes, logs, commit indices and roles.
\<close>

theorem cluster_refines_protocol:
  assumes "reachable n s" "2 \<le> n"
  shows "\<exists>a. areach (is_quorum n) a \<and> (\<forall>i. i < n \<longrightarrow> aterm a i = currentTerm (node s i) \<and>
    avote a i = votedFor (node s i) \<and> alog a i = log (node s i) \<and>
    acommit a i = commitIndex (node s i) \<and> arole a i = state (node s i))"
proof -
  obtain a where "areach (is_quorum n) a" "cluster n s a" by (rule reachable_cluster [OF assms])
  then show ?thesis by (intro exI [of _ a]) (auto simp: cluster_def rep_fields)
qed

theorem cluster_refines_protocol_witness:
  "\<exists>a :: nat abs. areach (is_quorum 3) a \<and> arole a 0 = StateLeader \<and> acommit a 1 = 1"
proof -
  obtain a :: "nat abs" where "areach (is_quorum 3) a" "\<forall>i. i < 3 \<longrightarrow>
      acommit a i = commitIndex (node committed_sys i) \<and> arole a i = state (node committed_sys i)"
    using cluster_refines_protocol [OF committed_reachable] by auto
  then show ?thesis using committed_facts(1,4) by (intro exI [of _ a]) simp
qed

text \<open>
  C12: State invariant of every peer in every reachable state: entries carry their position as
  index, position 0 holds the sentinel, the applied index is at most the commit index, which is
  inside the log, terms never decrease along the log and are at most the current term, and the
  tick and step functions are those of the role.
\<close>

theorem peer_invariant:
  assumes "reachable n s" "2 \<le> n" "i < n"
  shows "wf_log (log (node s i)) \<and> lastApplied (node s i) \<le> commitIndex (node s i) \<and>
    commitIndex (node s i) < length (log (node s i)) \<and> sorted (map lTerm (log (node s i))) \<and>
    terms_upto (currentTerm (node s i)) (log (node s i)) \<and> roles_agree (node s i)"
proof -
  obtain a where "cluster n s a" by (rule reachable_cluster [OF assms(1,2)])
  note c = cluster_node [OF this assms(3)]
  show ?thesis using c(2) rep_commit_facts(1) [OF c(2,1)] rep_from_leaders [OF c(2,1)]
    by (simp add: rep_def node_wf_def from_leaders_def)
qed

theorem peer_invariant_witness:
  "wf_log (log (node committed_sys 1)) \<and> commitIndex (node committed_sys 1) = 1"
  using peer_invariant [OF committed_reachable, of 1] committed_facts(4) by simp

section \<open>Handlers\<close>

text \<open>
  C13: Merging AppendEntries (equivalence with a reference). When the peer's log agrees with the
  leader's log \<open>M\<close> up to \<open>PrevLogIndex\<close>, the entries are a segment of \<open>M\<close>
  ending at \<open>q\<close>, the two logs satisfy log matching, and nothing committed conflicts,
  finding the conflict by terms, cutting there and appending gives: the log unchanged if it
  already agrees up to \<open>q\<close>, and exactly the leader's prefix otherwise.
\<close>

theorem mergeEntries_spec:
  assumes "wf_log (log r)" "wf_log M" "matching (log r) M"
    "q = aePrevLogIndex args + length (aeEntries args)" "q < length M"
    "aeEntries args = take (length (aeEntries args)) (drop (Suc (aePrevLogIndex args)) M)"
    "take (Suc (aePrevLogIndex args)) (log r) = take (Suc (aePrevLogIndex args)) M"
    "take (Suc (commitIndex r)) (log r) = take (Suc (commitIndex r)) M"
  shows "mergeEntries args r = Inr (r\<lparr>log := if take (Suc q) (log r) = take (Suc q) M
     then log r else take (Suc q) M\<rparr>)"
proof -
  let ?p = "aePrevLogIndex args" and ?n = "length (aeEntries args)"
  have pn: "?p + ?n < length M" using assms(4,5) by simp
  have seg: "take ?n (drop (Suc ?p) M) = aeEntries args" using assms(6) by simp
  from findConflict_segment [OF assms(1-3) pn assms(7), unfolded seg] show ?thesis
  proof (elim disjE conjE exE)
    assume "take (Suc (?p + ?n)) (log r) = take (Suc (?p + ?n)) M" "findConflict (aeEntries args) r = Inr 0"
    then show ?thesis using assms(4) by (simp add: mergeEntries_def Let_def)
  next
    fix ci
    assume ci: "findConflict (aeEntries args) r = Inr ci" "?p < ci" "ci \<le> ?p + ?n" "ci \<le> length (log r)"
      "take ci (log r) = take ci M" "take (Suc ci) (log r) \<noteq> take (Suc ci) M"
    have c: "commitIndex r < ci" using assms(8) ci(6) take_Suc_eq_mono by (metis not_le)
    have "appendLog (drop (ci - Suc ?p) (aeEntries args)) r = Inr (r\<lparr>log := take (Suc q) M\<rparr>)"
      using appendLog_segment [OF assms(2) ci(2,3) pn ci(4,5) c] seg assms(4) by simp
    moreover have "take (Suc q) (log r) \<noteq> take (Suc q) M"
      using ci(3,6) assms(4) take_Suc_eq_mono by metis
    ultimately show ?thesis using ci(1-3) c by (simp add: mergeEntries_def Let_def)
  qed
qed

definition merge_example :: "nat Raft" where
  "merge_example = (Make 3 1 MakePersister [])\<lparr>log := [sentinel,
     \<lparr>lTerm = 2, lCommand = Some 1, lIndex = 1\<rparr>, \<lparr>lTerm = 2, lCommand = Some 2, lIndex = 2\<rparr>]\<rparr>"

theorem mergeEntries_spec_witness:
  "mergeEntries \<lparr>aeTerm = 3, aeLeaderId = 0, aeLeaderCommit = 0, aePrevLogIndex = 0, aePrevLogTerm = 1,
      aeEntries = [\<lparr>lTerm = 3, lCommand = Some 5, lIndex = 1\<rparr>]\<rparr> merge_example =
    Inr (merge_example\<lparr>log := [sentinel, \<lparr>lTerm = 3, lCommand = Some 5, lIndex = 1\<rparr>]\<rparr>)"
proof -
  have wf: "wf_log (log merge_example)"
    "wf_log [sentinel, \<lparr>lTerm = 3, lCommand = Some (5::nat), lIndex = 1\<rparr>]"
    by (auto simp: merge_example_def wf_log_def less_Suc_eq)
  have "matching (log merge_example) [sentinel, \<lparr>lTerm = 3, lCommand = Some 5, lIndex = 1\<rparr>]"
    by (auto simp: merge_example_def matching_def less_Suc_eq)
  moreover have "commitIndex merge_example = 0" by (simp add: merge_example_def Make_volatile)
  ultimately show ?thesis
    using mergeEntries_spec [OF wf, of 1 "\<lparr>aeTerm = 3, aeLeaderId = 0, aeLeaderCommit = 0,
      aePrevLogIndex = 0, aePrevLogTerm = 1, aeEntries = [\<lparr>lTerm = 3, lCommand = Some 5, lIndex = 1\<rparr>]\<rparr>"]
    by (simp add: merge_example_def)
qed

text \<open>
  C14: The commit rule of the leader. If the leader moves its commit index, it moves it forward,
  to an entry of its own term that a majority of the peers has acknowledged.
\<close>

theorem updateCommitIndex_rule:
  assumes "updateCommitIndex r = Inr r'" "length (matchIndex r) = peers r" "commitIndex r' \<noteq> commitIndex r"
  shows "commitIndex r < commitIndex r' \<and> commitIndex r' < length (log r) \<and>
    lTerm (log r ! commitIndex r') = currentTerm r \<and>
    quorum r \<le> card {j. j < peers r \<and> int (commitIndex r') \<le> matchIndex r ! j}"
proof -
  let ?m = "rev (sort (matchIndex r)) ! (quorum r - 1)"
  have len: "quorum r - 1 < length (matchIndex r)"
    using assms(1) by (auto simp: updateCommitIndex_def Let_def split: if_splits)
  have m: "int (commitIndex r) < ?m" "nat ?m < length (log r)" "lTerm (log r ! nat ?m) = currentTerm r"
    "commitTo (nat ?m) r = Inr r'"
    using assms(1,3) by (auto simp: updateCommitIndex_def Let_def log_at_def split: if_splits)
  have c: "commitIndex r' = nat ?m"
    using m(1,4) by (auto simp: commitTo_def split: sum.splits if_splits)
  have "quorum r \<le> card {j. j < length (matchIndex r) \<and> ?m \<le> matchIndex r ! j}"
    using sorted_rank [OF len] by (simp add: quorum_def)
  moreover have "commitIndex r < nat ?m" using m(1) by linarith
  ultimately show ?thesis using m c assms(2) by simp
qed

theorem updateCommitIndex_rule_witness:
  "updateCommitIndex (merge_example\<lparr>currentTerm := 2, matchIndex := [0, 2, 1]\<rparr>) =
     Inr (merge_example\<lparr>currentTerm := 2, matchIndex := [0, 2, 1], commitIndex := 1, commitc := [1]\<rparr>) \<and>
   2 \<le> card {j. j < 3 \<and> 1 \<le> [0, 2, 1 :: int] ! j}"
proof -
  let ?r = "merge_example\<lparr>currentTerm := 2, matchIndex := [0, 2, 1]\<rparr>"
  have up: "updateCommitIndex ?r =
      Inr (merge_example\<lparr>currentTerm := 2, matchIndex := [0, 2, 1], commitIndex := 1, commitc := [1]\<rparr>)"
    by code_simp
  have "peers merge_example = 3" "commitIndex merge_example = 0" by code_simp+
  with updateCommitIndex_rule [OF up] up show ?thesis by (simp add: quorum_def)
qed

text \<open>
  C15: The applier delivers, for the next commit index it takes, exactly the log entries after the
  last applied one up to that index, in order, each with its own index, and nothing if they were
  applied already; it does not panic as long as the index is inside the log.
\<close>

theorem stateMachine_in_order:
  assumes "wf_log (log r)" "commitc r = ci # rest" "ci < length (log r)"
  shows "\<exists>r' ms. stateMachine r = Inr (r', ms) \<and> commitc r' = rest \<and>
    lastApplied r' = max (lastApplied r) ci \<and> map amIndex ms = [lastApplied r + 1..<ci + 1] \<and>
    map amCommand ms = map (\<lambda>k. lCommand (log r ! k)) [lastApplied r + 1..<ci + 1]"
  using stateMachine_wf [OF assms] by (auto simp: comp_def max_def)

theorem stateMachine_in_order_witness:
  "\<exists>r' ms. stateMachine (merge_example\<lparr>commitc := [2]\<rparr>) = Inr (r', ms) \<and> map amIndex ms = [1, 2]"
proof -
  have "wf_log (log merge_example)" "length (log merge_example) = 3" "lastApplied merge_example = 0"
    by (auto simp: merge_example_def wf_log_def less_Suc_eq Make_volatile)
  then show ?thesis using stateMachine_in_order [of "merge_example\<lparr>commitc := [2]\<rparr>" 2 "[]"]
    by (auto simp: upt_rec)
qed

section \<open>Validity\<close>

text \<open>
  C6: Validity. Whatever messages are lost, delayed or repeated and whichever peers crash, every
  command a peer applies is one that was given to \<open>Start\<close> at some peer earlier in the run.
\<close>

theorem applied_was_started:
  assumes "sys_run n evs (init_sys n rnd) = Some s" "2 \<le> n" "(i, m) \<in> set (applied s)"
  shows "\<exists>j c. EStart j c \<in> set evs \<and> amCommand m = Some c"
proof -
  let ?P = "\<lambda>c. \<exists>j. EStart j c \<in> set evs"
  have "\<forall>x \<in> set (applied s). \<exists>c. amCommand (snd x) = Some c \<and> ?P c"
    by (rule applied_cmds [OF reachable.init assms(2) init_cmds assms(1)]) (auto simp: init_sys_def)
  then show ?thesis using assms(3) by fastforce
qed

theorem applied_was_started_witness:
  "\<exists>j c. EStart j c \<in> set (script_events 3 elect_script start_sys @ script_events 3 commit_script elected_sys) \<and> Some 7 = Some c"
proof -
  have "sys_run 3 (script_events 3 elect_script start_sys) (init_sys 3 (\<lambda>_. [])) = Some elected_sys"
    using run_the [OF elected_some] by (simp add: elected_sys_def start_sys_def)
  then have "sys_run 3 (script_events 3 elect_script start_sys @ script_events 3 commit_script elected_sys) (init_sys 3 (\<lambda>_. [])) = Some committed_sys"
    using committed_run by (simp add: sys_run_append)
  from applied_was_started [OF this, of 0 "\<lparr>amIndex = 1, amCommand = Some 7\<rparr>"] show ?thesis using committed_facts(9) by simp
qed

section \<open>Progress\<close>

text \<open>
  C7: The cluster is never stuck. From every reachable state of at least two peers, whatever was
  lost and whichever peers have crashed or panicked, the run can go on so that a given command is
  committed and applied.
\<close>

theorem cluster_can_progress:
  assumes "reachable n s" "2 \<le> n"
  shows "\<exists>evs s' i k. sys_run n evs s = Some s' \<and> i < n \<and>
    (i, \<lparr>amIndex = k, amCommand = Some c\<rparr>) \<in> set (drop (length (applied s)) (applied s'))"
  using progress_run [OF assms] .

theorem cluster_can_progress_witness:
  "panics stale_sys \<noteq> [] \<and> (\<exists>evs s' i k. sys_run 3 evs stale_sys = Some s' \<and> i < 3 \<and>
     (i, \<lparr>amIndex = k, amCommand = Some 7\<rparr>) \<in> set (drop (length (applied stale_sys)) (applied s')))"
proof -
  have "panics stale_sys \<noteq> []" by code_simp
  then show ?thesis using cluster_can_progress [OF stale_reachable, of 7] by simp
qed

end
