(* ===== verification/Raft_Ticker.thy ===== *)
theory Raft_Ticker
  imports Prelude
begin

text \<open>
  The timer of a Raft peer (\<open>Tick\<close> and the goroutine started by \<open>run\<close> in
  \<open>src/mit/src/raft/raft.go\<close>). Every 100 milliseconds the timer puts a tick into a channel of
  capacity ten; the event loop takes ticks out between its other work. \<open>Raft_System\<close> lets the loop
  handle a tick at any moment; here is when the timer itself panics because the loop is late. The loop
  waits while it hands a message to the sender goroutine or a commit index to the applier, and the
  applier waits for the service to read from \<open>applyCh\<close>.
\<close>

datatype tickfail = MissedTick

datatype tickEvent = Fired | Handled

definition tickCap :: nat where
  "tickCap = 10"

definition Tick :: "nat \<Rightarrow> tickfail + nat" where
  "Tick q = (if q < tickCap then Inr (q + 1) else Inl MissedTick)"

text \<open>Firing and handling ticks; with no tick in the channel the loop has nothing to handle.\<close>

fun tickRun :: "tickEvent list \<Rightarrow> nat \<Rightarrow> tickfail + nat" where
  "tickRun [] q = Inr q"
| "tickRun (Fired # evs) q = (case Tick q of Inl e \<Rightarrow> Inl e | Inr q \<Rightarrow> tickRun evs q)"
| "tickRun (Handled # evs) q = tickRun evs (q - 1)"

lemma tickRun_append: "tickRun (evs @ evs') q = (case tickRun evs q of Inl e \<Rightarrow> Inl e | Inr q \<Rightarrow> tickRun evs' q)"
  by (induction evs q rule: tickRun.induct) (auto split: sum.splits)

lemma tickRun_fired: "tickRun (replicate k Fired) q = (if k = 0 \<or> q + k \<le> tickCap then Inr (q + k) else Inl MissedTick)"
  by (induction k arbitrary: q) (auto simp: Tick_def)

lemma tickRun_handled: "tickRun (replicate k Handled) q = Inr (q - k)"
  by (induction k arbitrary: q) simp_all

text \<open>A loop that handles no tick while more than ten fire ends the program.\<close>

theorem late_loop_panics: "tickCap < q + k \<Longrightarrow> 0 < k \<Longrightarrow> tickRun (replicate k Fired @ evs) q = Inl MissedTick"
  by (simp add: tickRun_append tickRun_fired)

text \<open>A loop that catches up after at most ten ticks never misses one.\<close>

theorem timely_loop_ticks:
  "\<forall>f \<in> set fs. f \<le> tickCap \<Longrightarrow> tickRun (concat (map (\<lambda>f. replicate f Fired @ replicate f Handled) fs)) 0 = Inr 0"
  by (induction fs) (auto simp: tickRun_append tickRun_fired tickRun_handled)

end
