(* ===== verification/Kvraft.thy ===== *)
theory Kvraft
  imports Raft_Local
begin

text \<open>
  The key/value server on top of Raft, \<open>src/mit/src/kvraft/server.go\<close> and
  \<open>common.go\<close>. The server's mutex makes each critical section atomic; a handler that
  waits for its log entry is split at the wait. A channel of capacity one is the list of the
  values in its buffer.
\<close>

section \<open>Data\<close>

record Op =
  opType :: string
  opKey :: string
  opValue :: string
  opId :: int
  opReqId :: int

record PutAppendArgs =
  paKey :: string
  paValue :: string
  paOp :: string
  paId :: int
  paReqId :: int

record PutAppendReply =
  parWrongLeader :: bool
  parErr :: string

record GetArgs =
  gKey :: string
  gId :: int
  gReqId :: int

record GetReply =
  grWrongLeader :: bool
  grErr :: string
  grValue :: string

record RaftKV =
  kvMe :: nat
  db :: "string \<rightharpoonup> string"
  result :: "nat \<rightharpoonup> Op list"
  acks :: "int \<rightharpoonup> int"
  prevIndex :: nat

datatype kvfail = PanicTypeAssertion | PanicUnordered | BlockedSend

text \<open>Reading a missing key of a Go map gives the zero value, the empty string.\<close>

definition dbGet :: "string \<Rightarrow> (string \<rightharpoonup> string) \<Rightarrow> string" where
  "dbGet k m = (case m k of None \<Rightarrow> [] | Some v \<Rightarrow> v)"

definition StartKVServer :: "nat \<Rightarrow> RaftKV" where
  "StartKVServer m = \<lparr>kvMe = m, db = Map.empty, result = Map.empty, acks = Map.empty, prevIndex = 0\<rparr>"

section \<open>Applying a committed operation\<close>

definition checkDup :: "Op \<Rightarrow> RaftKV \<Rightarrow> bool" where
  "checkDup op kv = (case acks kv (opId op) of Some v \<Rightarrow> v \<ge> opReqId op | None \<Rightarrow> False)"

definition applyOp :: "Op \<Rightarrow> RaftKV \<Rightarrow> RaftKV" where
  "applyOp op kv =
     (if opType op = ''Put'' then kv\<lparr>db := (db kv)(opKey op \<mapsto> opValue op)\<rparr>
      else if opType op = ''Append''
      then kv\<lparr>db := (db kv)(opKey op \<mapsto> dbGet (opKey op) (db kv) @ opValue op)\<rparr>
      else kv)"

text \<open>Sending on a channel of capacity one blocks while its buffer is full.\<close>

definition chanSend :: "'x \<Rightarrow> 'x list \<Rightarrow> kvfail + 'x list" where
  "chanSend x ch = (if length ch < 1 then Inr (ch @ [x]) else Inl BlockedSend)"

definition notify :: "nat \<Rightarrow> Op \<Rightarrow> RaftKV \<Rightarrow> kvfail + RaftKV" where
  "notify index op kv =
     (let ch = (case result kv index of
          Some ch \<Rightarrow> (case ch of [] \<Rightarrow> [] | _ # rest \<Rightarrow> rest)
        | None \<Rightarrow> []) in
      case chanSend op ch of Inl e \<Rightarrow> Inl e
      | Inr ch \<Rightarrow> Inr (kv\<lparr>result := (result kv)(index \<mapsto> ch)\<rparr>))"

definition getApply :: "Op ApplyMsg \<Rightarrow> RaftKV \<Rightarrow> kvfail + RaftKV" where
  "getApply msg kv =
     (let index = amIndex msg in
      case amCommand msg of None \<Rightarrow> Inl PanicTypeAssertion
      | Some op \<Rightarrow>
        if index > 1 \<and> prevIndex kv \<noteq> index - 1 then Inl PanicUnordered
        else let kv = kv\<lparr>prevIndex := index\<rparr>;
                 kv = (if \<not> checkDup op kv
                       then let kv = applyOp op kv in kv\<lparr>acks := (acks kv)(opId op \<mapsto> opReqId op)\<rparr>
                       else kv)
             in notify index op kv)"

fun getApplyAll :: "Op ApplyMsg list \<Rightarrow> RaftKV \<Rightarrow> kvfail + RaftKV" where
  "getApplyAll [] kv = Inr kv"
| "getApplyAll (m # ms) kv = (case getApply m kv of Inl e \<Rightarrow> Inl e | Inr kv \<Rightarrow> getApplyAll ms kv)"

section \<open>Requests\<close>

text \<open>
  \<open>AppendLog\<close> up to the wait: the entry goes to Raft, and if this peer leads, the channel
  for its index is created unless it exists.
\<close>

definition AppendLog :: "Op \<Rightarrow> Op Raft \<Rightarrow> RaftKV \<Rightarrow> panic + Op Raft \<times> RaftKV \<times> nat option" where
  "AppendLog entry rf kv = (case Start entry rf of Inl e \<Rightarrow> Inl e
     | Inr (rf, index, _, isLeader) \<Rightarrow>
       if \<not> isLeader then Inr (rf, kv, None)
       else let i = nat index in
         Inr (rf, (case result kv i of None \<Rightarrow> kv\<lparr>result := (result kv)(i \<mapsto> [])\<rparr> | Some _ \<Rightarrow> kv), Some i))"

text \<open>
  The end of the wait: either the value in the channel arrives, or the timeout fires. None means
  that the handler keeps waiting.
\<close>

definition awaitLog :: "nat \<Rightarrow> Op \<Rightarrow> bool \<Rightarrow> RaftKV \<Rightarrow> (bool \<times> RaftKV) option" where
  "awaitLog index entry timedOut kv =
     (if timedOut then Some (False, kv)
      else case result kv index of
        Some (op # rest) \<Rightarrow> Some (op = entry, kv\<lparr>result := (result kv)(index \<mapsto> rest)\<rparr>)
      | _ \<Rightarrow> None)"

definition getEntry :: "GetArgs \<Rightarrow> Op" where
  "getEntry args = \<lparr>opType = ''Get'', opKey = gKey args, opValue = [], opId = gId args, opReqId = gReqId args\<rparr>"

definition finishGet :: "GetArgs \<Rightarrow> bool \<Rightarrow> RaftKV \<Rightarrow> GetReply \<times> RaftKV" where
  "finishGet args ok kv =
     (if \<not> ok then (\<lparr>grWrongLeader = True, grErr = [], grValue = []\<rparr>, kv)
      else (\<lparr>grWrongLeader = False, grErr = ''OK'', grValue = dbGet (gKey args) (db kv)\<rparr>,
            kv\<lparr>acks := (acks kv)(gId args \<mapsto> gReqId args)\<rparr>))"

definition putAppendEntry :: "PutAppendArgs \<Rightarrow> Op" where
  "putAppendEntry args = \<lparr>opType = paOp args, opKey = paKey args, opValue = paValue args,
     opId = paId args, opReqId = paReqId args\<rparr>"

definition finishPutAppend :: "bool \<Rightarrow> PutAppendReply" where
  "finishPutAppend ok = (if \<not> ok then \<lparr>parWrongLeader = True, parErr = []\<rparr>
     else \<lparr>parWrongLeader = False, parErr = ''OK''\<rparr>)"

section \<open>The replicated state machine\<close>

text \<open>
  What applying an operation does to the two maps, without indices and channels; the reference
  for the servers is the replay of a list of operations.
\<close>

type_synonym kvmaps = "(string \<rightharpoonup> string) \<times> (int \<rightharpoonup> int)"

definition dup :: "Op \<Rightarrow> (int \<rightharpoonup> int) \<Rightarrow> bool" where
  "dup op a = (case a (opId op) of Some v \<Rightarrow> v \<ge> opReqId op | None \<Rightarrow> False)"

definition effect :: "Op \<Rightarrow> (string \<rightharpoonup> string) \<Rightarrow> (string \<rightharpoonup> string)" where
  "effect op m = (if opType op = ''Put'' then m(opKey op \<mapsto> opValue op)
     else if opType op = ''Append'' then m(opKey op \<mapsto> dbGet (opKey op) m @ opValue op) else m)"

definition replayOp :: "Op \<Rightarrow> kvmaps \<Rightarrow> kvmaps" where
  "replayOp op = (\<lambda>(m, a). if dup op a then (m, a) else (effect op m, a(opId op \<mapsto> opReqId op)))"

definition replay :: "Op list \<Rightarrow> kvmaps" where
  "replay ops = fold replayOp ops (Map.empty, Map.empty)"

definition kvmaps :: "RaftKV \<Rightarrow> kvmaps" where
  "kvmaps kv = (db kv, acks kv)"

text \<open>Every channel buffer holds at most one value.\<close>

definition chans_ok :: "RaftKV \<Rightarrow> bool" where
  "chans_ok kv \<longleftrightarrow> (\<forall>i ch. result kv i = Some ch \<longrightarrow> length ch \<le> 1)"

lemma chans_ok_init [simp]: "chans_ok (StartKVServer m)"
  by (simp add: chans_ok_def StartKVServer_def)

lemma notify_ok:
  assumes "chans_ok kv"
  shows "notify index op kv = Inr (kv\<lparr>result := (result kv)(index \<mapsto> [op])\<rparr>)"
proof -
  have "result kv index = Some ch \<Longrightarrow> length ch \<le> 1" for ch using assms by (simp add: chans_ok_def)
  then show ?thesis
    by (auto simp: notify_def chanSend_def Let_def split: option.splits list.splits)
qed

lemma getApply_ok:
  assumes "chans_ok kv" "amCommand msg = Some op" "amIndex msg = Suc (prevIndex kv)"
  obtains kv' where "getApply msg kv = Inr kv'" "kvmaps kv' = replayOp op (kvmaps kv)"
    "prevIndex kv' = amIndex msg" "chans_ok kv'" "kvMe kv' = kvMe kv"
    "result kv' = (result kv)(amIndex msg \<mapsto> [op])"
proof -
  have "\<not> (amIndex msg > 1 \<and> prevIndex kv \<noteq> amIndex msg - 1)" using assms(3) by simp
  define k1 where "k1 = (let kv = kv\<lparr>prevIndex := amIndex msg\<rparr> in
    if \<not> checkDup op kv then let kv = applyOp op kv in kv\<lparr>acks := (acks kv)(opId op \<mapsto> opReqId op)\<rparr> else kv)"
  have k1: "kvmaps k1 = replayOp op (kvmaps kv)" "prevIndex k1 = amIndex msg" "chans_ok k1" "kvMe k1 = kvMe kv"
    "result k1 = result kv"
    using assms(1) by (auto simp: k1_def Let_def checkDup_def applyOp_def kvmaps_def replayOp_def dup_def
        effect_def chans_ok_def split: option.splits)
  have "getApply msg kv = notify (amIndex msg) op k1"
    using assms(2,3) by (simp add: getApply_def k1_def Let_def)
  then have "getApply msg kv = Inr (k1\<lparr>result := (result k1)(amIndex msg \<mapsto> [op])\<rparr>)"
    using notify_ok [OF k1(3)] by simp
  then show ?thesis using that k1 by (simp add: kvmaps_def chans_ok_def)
qed

lemma getApply_acks:
  assumes "chans_ok kv" "getApply msg kv = Inr kv'" "amCommand msg = Some op"
  shows "chans_ok kv' \<and> (\<exists>v. acks kv' (opId op) = Some v \<and> opReqId op \<le> v)"
  using assms notify_ok
  by (auto simp: getApply_def checkDup_def applyOp_def chans_ok_def Let_def split: if_splits option.splits)

text \<open>Consecutive messages starting after \<open>prevIndex\<close> are applied without failing.\<close>

lemma getApplyAll_ok:
  assumes "chans_ok kv" "map amIndex ms = [Suc (prevIndex kv)..<Suc (prevIndex kv) + length ms]"
    "map amCommand ms = map Some ops"
  shows "\<exists>kv'. getApplyAll ms kv = Inr kv' \<and> kvmaps kv' = fold replayOp ops (kvmaps kv) \<and>
    prevIndex kv' = prevIndex kv + length ms \<and> chans_ok kv' \<and>
    (\<forall>idx. result kv' idx = (if prevIndex kv < idx \<and> idx \<le> prevIndex kv + length ops
       then Some [ops ! (idx - Suc (prevIndex kv))] else result kv idx))"
  using assms
proof (induction ms arbitrary: kv ops)
  case Nil
  then show ?case by auto
next
  case (Cons m ms)
  let ?p = "prevIndex kv"
  from Cons.prems(3) obtain op ops' where ops: "ops = op # ops'" "amCommand m = Some op"
    "map amCommand ms = map Some ops'" by auto
  have "[Suc ?p..<Suc ?p + length (m # ms)] = Suc ?p # [Suc (Suc ?p)..<Suc (Suc ?p) + length ms]"
    by (subst upt_conv_Cons) (simp_all del: upt_Suc)
  then have idx: "amIndex m = Suc ?p" "map amIndex ms = [Suc (Suc ?p)..<Suc (Suc ?p) + length ms]"
    using Cons.prems(2) by (simp_all del: upt_Suc)
  obtain kv1 where kv1: "getApply m kv = Inr kv1" "kvmaps kv1 = replayOp op (kvmaps kv)"
    "prevIndex kv1 = amIndex m" "chans_ok kv1" "result kv1 = (result kv)(amIndex m \<mapsto> [op])"
    by (rule getApply_ok [OF Cons.prems(1) ops(2) idx(1)])
  have "map amIndex ms = [Suc (prevIndex kv1)..<Suc (prevIndex kv1) + length ms]" using idx kv1(3) by simp
  from Cons.IH [OF kv1(4) this ops(3)] obtain kv' where
    kv': "getApplyAll ms kv1 = Inr kv'" "kvmaps kv' = fold replayOp ops' (kvmaps kv1)"
    "prevIndex kv' = prevIndex kv1 + length ms" "chans_ok kv'"
    "\<And>idx. result kv' idx = (if prevIndex kv1 < idx \<and> idx \<le> prevIndex kv1 + length ops'
       then Some [ops' ! (idx - Suc (prevIndex kv1))] else result kv1 idx)" by blast
  have "result kv' k = (if ?p < k \<and> k \<le> ?p + length ops then Some [ops ! (k - Suc ?p)] else result kv k)" for k
  proof (cases "k = Suc ?p")
    case False
    then have "?p < k \<Longrightarrow> k - Suc ?p = Suc (k - Suc (Suc ?p))" by arith
    then have "?p < k \<Longrightarrow> ops ! (k - Suc ?p) = ops' ! (k - Suc (Suc ?p))" by (simp add: ops(1))
    with False show ?thesis by (auto simp: kv'(5) kv1(3,5) idx(1) ops(1))
  qed (simp add: kv'(5) kv1(3,5) idx(1) ops(1))
  with kv' kv1 idx(1) ops(1) show ?case by auto
qed

section \<open>Duplicate requests\<close>

text \<open>The operations of a list that are not skipped as duplicates.\<close>

fun effective :: "(int \<rightharpoonup> int) \<Rightarrow> Op list \<Rightarrow> Op list" where
  "effective a [] = []"
| "effective a (op # ops) = (if dup op a then effective a ops
     else op # effective (a(opId op \<mapsto> opReqId op)) ops)"

lemma replay_effective: "fst (fold replayOp ops (m, a)) = fold effect (effective a ops) m"
  by (induction ops arbitrary: m a) (auto simp: replayOp_def)

lemma effective_above:
  "op \<in> set (effective a ops) \<Longrightarrow> a (opId op) = Some v \<Longrightarrow> v < opReqId op"
proof (induction ops arbitrary: a v)
  case (Cons x ops)
  show ?case
  proof (cases "dup x a \<or> op = x")
    case True
    then show ?thesis using Cons by (auto simp: dup_def split: option.splits if_splits)
  next
    case False
    then have mem: "op \<in> set (effective (a(opId x \<mapsto> opReqId x)) ops)" using Cons.prems(1) by simp
    show ?thesis
    proof (cases "opId op = opId x")
      case True
      have "opReqId x < opReqId op" by (rule Cons.IH [OF mem]) (simp add: True)
      moreover have "v < opReqId x" using False True Cons.prems(2) by (auto simp: dup_def)
      ultimately show ?thesis by simp
    next
      case other: False
      show ?thesis by (rule Cons.IH [OF mem]) (simp add: other Cons.prems(2))
    qed
  qed
qed simp

text \<open>Each client's operations take effect in the order of their request numbers, each once.\<close>

lemma effective_increasing:
  "i < j \<Longrightarrow> j < length (effective a ops) \<Longrightarrow> opId (effective a ops ! i) = opId (effective a ops ! j) \<Longrightarrow>
     opReqId (effective a ops ! i) < opReqId (effective a ops ! j)"
proof (induction ops arbitrary: a i j)
  case (Cons x ops)
  show ?case
  proof (cases "dup x a")
    case True
    then show ?thesis using Cons by simp
  next
    case False
    let ?E = "effective (a(opId x \<mapsto> opReqId x)) ops"
    have E: "effective a (x # ops) = x # ?E" using False by simp
    obtain j' where j: "j = Suc j'" using Cons.prems(1) by (cases j) auto
    then have j': "j' < length ?E" using Cons.prems(2) E by simp
    show ?thesis
    proof (cases i)
      case 0
      then have "opId (?E ! j') = opId x" using Cons.prems(3) E j by simp
      with effective_above [OF nth_mem [OF j']] show ?thesis using 0 E j by simp
    next
      case (Suc i')
      then have "i' < j'" "opId (?E ! i') = opId (?E ! j')" using Cons.prems(1,3) E j by simp_all
      from Cons.IH [OF this(1) j' this(2)] show ?thesis unfolding E j Suc nth_Cons_Suc .
    qed
  qed
qed simp

text \<open>
  A list of operations is in order when each client issues a new operation only with a request
  number above those it used before; repetitions of earlier operations may occur anywhere.
\<close>

fun inOrder :: "Op list \<Rightarrow> Op list \<Rightarrow> bool" where
  "inOrder seen [] = True"
| "inOrder seen (op # ops) = ((op \<in> set seen \<or> (\<forall>x \<in> set seen. opId x = opId op \<longrightarrow> opReqId x < opReqId op)) \<and>
     inOrder (op # seen) ops)"

definition acksOf :: "Op list \<Rightarrow> (int \<rightharpoonup> int) \<Rightarrow> bool" where
  "acksOf seen a \<longleftrightarrow> (\<forall>op \<in> set seen. \<exists>v. a (opId op) = Some v \<and> opReqId op \<le> v) \<and>
     (\<forall>c v. a c = Some v \<longrightarrow> (\<exists>op \<in> set seen. opId op = c \<and> opReqId op = v))"

lemma acksOf_dup:
  assumes "acksOf seen a" "op \<in> set seen \<or> (\<forall>x \<in> set seen. opId x = opId op \<longrightarrow> opReqId x < opReqId op)"
  shows "dup op a \<longleftrightarrow> op \<in> set seen"
proof
  assume "dup op a"
  then obtain v where "a (opId op) = Some v" "opReqId op \<le> v" by (auto simp: dup_def split: option.splits)
  with assms(1) obtain x where "x \<in> set seen" "opId x = opId op" "opReqId op \<le> opReqId x"
    unfolding acksOf_def by blast
  with assms(2) show "op \<in> set seen" by force
next
  assume "op \<in> set seen"
  with assms(1) show "dup op a" unfolding acksOf_def dup_def by fastforce
qed

lemma effective_in_order:
  assumes "acksOf seen a" "inOrder seen ops"
  shows "effective a ops = rev (remdups (rev (filter (\<lambda>op. op \<notin> set seen) ops)))"
  using assms
proof (induction ops arbitrary: seen a)
  case (Cons op ops)
  have d: "dup op a \<longleftrightarrow> op \<in> set seen" by (rule acksOf_dup) (use Cons.prems in auto)
  show ?case
  proof (cases "op \<in> set seen")
    case True
    then have "set (op # seen) = set seen" by auto
    moreover have "acksOf (op # seen) a" using Cons.prems(1) True by (auto simp: acksOf_def)
    ultimately show ?thesis using Cons.IH [of "op # seen" a] Cons.prems(2) d True by simp
  next
    case False
    let ?a = "a(opId op \<mapsto> opReqId op)"
    have "acksOf (op # seen) ?a" using Cons.prems False unfolding acksOf_def
      by (auto simp: less_imp_le)
    moreover have "inOrder (op # seen) ops" using Cons.prems(2) by simp
    ultimately have "effective ?a ops = rev (remdups (rev (filter (\<lambda>x. x \<notin> set (op # seen)) ops)))"
      by (rule Cons.IH)
    then show ?thesis using d False by (simp add: remdups_snoc rev_filter conj_commute)
  qed
qed simp

end
