(* ===== verification/Kv_System.thy ===== *)
theory Kv_System
  imports Raft_Service Kvraft
begin

text \<open>
  A cluster of key/value servers, each over its Raft peer: the handlers, the goroutine that
  applies committed operations, crashes and restarts, composed with the Raft cluster of
  \<open>Raft_System\<close>. The service's promises are proved from what Raft promises its clients,
  the interface \<open>replicated_log\<close>.
\<close>

section \<open>The cluster of servers\<close>

datatype request = ReqGet GetArgs | ReqPutAppend PutAppendArgs

datatype kvreply = RepGet GetReply | RepPutAppend PutAppendReply

record KvSys =
  rsys :: "Op Sys"
  kvs :: "nat \<Rightarrow> RaftKV"
  pending :: "(nat \<times> nat \<times> request) list"
  kvfails :: "(nat \<times> kvfail) list"
  replies :: "(nat \<times> request \<times> kvreply) list"
  raced :: bool

text \<open>
  \<open>pending\<close> holds the handlers that wait: server, log index, request. \<open>raced\<close>
  records whether a \<open>Get\<close> handler's own write to \<open>ack\<close> has ever changed it.
\<close>

datatype kvevent =
    KRaft "Op event"
  | KRequest nat request
  | KApply nat
  | KFinish nat bool
  | KRestart nat "nat list"

definition requestEntry :: "request \<Rightarrow> Op" where
  "requestEntry q = (case q of ReqGet args \<Rightarrow> getEntry args | ReqPutAppend args \<Rightarrow> putAppendEntry args)"

definition answer :: "request \<Rightarrow> bool \<Rightarrow> RaftKV \<Rightarrow> kvreply \<times> RaftKV" where
  "answer q ok kv = (case q of
     ReqGet args \<Rightarrow> (let (reply, kv') = finishGet args ok kv in (RepGet reply, kv'))
   | ReqPutAppend args \<Rightarrow> (RepPutAppend (finishPutAppend ok), kv))"

definition kvRequest :: "nat \<Rightarrow> nat \<Rightarrow> request \<Rightarrow> KvSys \<Rightarrow> KvSys option" where
  "kvRequest n i q s = (if i < n \<and> i \<notin> set (down (rsys s)) then
     Some (case AppendLog (requestEntry q) (node (rsys s) i) (kvs s i) of
       Inl e \<Rightarrow> s\<lparr>rsys := crash i e (rsys s)\<rparr>
     | Inr (rf, kv, None) \<Rightarrow> s\<lparr>rsys := serveChannels i rf (rsys s), kvs := (kvs s)(i := kv),
         replies := replies s @ [(i, q, fst (answer q False kv))]\<rparr>
     | Inr (rf, kv, Some idx) \<Rightarrow> s\<lparr>rsys := serveChannels i rf (rsys s), kvs := (kvs s)(i := kv),
         pending := pending s @ [(i, idx, q)]\<rparr>)
     else None)"

definition kvApply :: "nat \<Rightarrow> nat \<Rightarrow> KvSys \<Rightarrow> KvSys option" where
  "kvApply n i s = (case sys_step n (EApply i) (rsys s) of None \<Rightarrow> None
     | Some r \<Rightarrow> Some (case getApplyAll (map snd (drop (length (applied (rsys s))) (applied r))) (kvs s i) of
         Inl e \<Rightarrow> s\<lparr>rsys := r\<lparr>down := i # down r\<rparr>, kvfails := kvfails s @ [(i, e)]\<rparr>
       | Inr kv \<Rightarrow> s\<lparr>rsys := r, kvs := (kvs s)(i := kv)\<rparr>))"

definition kvFinish :: "nat \<Rightarrow> bool \<Rightarrow> KvSys \<Rightarrow> KvSys option" where
  "kvFinish p timedOut s = (if length (pending s) \<le> p then None
     else let (i, idx, q) = pending s ! p in
       if i \<in> set (down (rsys s)) then None
       else case awaitLog idx (requestEntry q) timedOut (kvs s i) of None \<Rightarrow> None
       | Some (ok, kv) \<Rightarrow> let (reply, kv') = answer q ok kv in
         Some (s\<lparr>kvs := (kvs s)(i := kv'), pending := take p (pending s) @ drop (Suc p) (pending s),
           replies := replies s @ [(i, q, reply)],
           raced := (raced s \<or> acks kv' (opId (requestEntry q)) \<noteq> acks kv (opId (requestEntry q)))\<rparr>))"

definition kv_step :: "nat \<Rightarrow> kvevent \<Rightarrow> KvSys \<Rightarrow> KvSys option" where
  "kv_step n ev s = (case ev of
     KRaft rv \<Rightarrow> (case rv of
         EApply _ \<Rightarrow> None | EStart _ _ \<Rightarrow> None | ERestart _ _ \<Rightarrow> None
       | _ \<Rightarrow> (case sys_step n rv (rsys s) of None \<Rightarrow> None | Some r \<Rightarrow> Some (s\<lparr>rsys := r\<rparr>)))
   | KRequest i q \<Rightarrow> kvRequest n i q s
   | KApply i \<Rightarrow> kvApply n i s
   | KFinish p timedOut \<Rightarrow> kvFinish p timedOut s
   | KRestart i rnd \<Rightarrow> (case sys_step n (ERestart i rnd) (rsys s) of None \<Rightarrow> None
       | Some r \<Rightarrow> Some (s\<lparr>rsys := r, kvs := (kvs s)(i := StartKVServer i),
           pending := filter (\<lambda>(j, _). j \<noteq> i) (pending s)\<rparr>)))"

definition kv_init :: "nat \<Rightarrow> (nat \<Rightarrow> nat list) \<Rightarrow> KvSys" where
  "kv_init n rnd = \<lparr>rsys = init_sys n rnd, kvs = StartKVServer, pending = [], kvfails = [],
     replies = [], raced = False\<rparr>"

inductive kv_reachable :: "nat \<Rightarrow> KvSys \<Rightarrow> bool" for n where
  kv_init: "kv_reachable n (kv_init n rnd)"
| kv_more: "kv_reachable n s \<Longrightarrow> kv_step n ev s = Some s' \<Longrightarrow> kv_reachable n s'"

section \<open>The invariant\<close>

definition chans_committed :: "'c list \<Rightarrow> (nat \<rightharpoonup> 'c list) \<Rightarrow> bool" where
  "chans_committed ops res \<longleftrightarrow> (\<forall>idx op. res idx = Some [op] \<longrightarrow> 0 < idx \<and> idx \<le> length ops \<and> ops ! (idx - 1) = op)"

definition server_ok :: "nat \<Rightarrow> Op Sys \<Rightarrow> bool \<Rightarrow> nat \<Rightarrow> RaftKV \<Rightarrow> bool" where
  "server_ok n r rc i kv \<longleftrightarrow> chans_ok kv \<and> prevIndex kv = lastApplied (node r i) \<and>
     chans_committed (handed_over n r i) (result kv) \<and>
     (\<not> rc \<longrightarrow> kvmaps kv = replay (handed_over n r i))"

definition kv_inv :: "nat \<Rightarrow> KvSys \<Rightarrow> bool" where
  "kv_inv n s \<longleftrightarrow> reachable n (rsys s) \<and> kvfails s = [] \<and>
     (\<forall>i < n. server_ok n (rsys s) (raced s) i (kvs s i))"

lemma server_ok_same:
  assumes "reachable n r" "sys_step n ev r = Some r'" "\<not> applies ev i" "2 \<le> n" "i < n" "server_ok n r rc i kv"
  shows "server_ok n r' rc i kv"
  using assms(6) handed_over_same [OF assms(1-5)] sys_step_lastApplied [OF assms(2,3)]
  by (simp add: server_ok_def)

lemma server_ok_fresh:
  assumes "reachable n r" "2 \<le> n" "i < n" "lastApplied (node r i) = 0"
  shows "server_ok n r rc i (StartKVServer i)"
  using assms by (simp add: server_ok_def StartKVServer_def chans_ok_def chans_committed_def
      kvmaps_def replay_def handed_over_def)

lemma chans_committed_extend:
  assumes "chans_committed ops res" "p = length ops"
    "\<And>idx. res' idx = (if p < idx \<and> idx \<le> p + length ops' then Some [ops' ! (idx - Suc p)] else res idx)"
  shows "chans_committed (ops @ ops') res'"
  unfolding chans_committed_def
proof (intro allI impI)
  fix idx op assume r: "res' idx = Some [op]"
  show "0 < idx \<and> idx \<le> length (ops @ ops') \<and> (ops @ ops') ! (idx - 1) = op"
  proof (cases "p < idx \<and> idx \<le> p + length ops'")
    case True
    then have "ops' ! (idx - Suc p) = op" using r assms(3) by simp
    moreover have "idx - 1 - length ops = idx - Suc p" "\<not> idx - 1 < length ops" using True assms(2) by auto
    ultimately show ?thesis using True assms(2) by (simp add: nth_append)
  next
    case False
    then have "res idx = Some [op]" using r assms(3) by auto
    then have "0 < idx \<and> idx \<le> length ops \<and> ops ! (idx - 1) = op"
      using assms(1) unfolding chans_committed_def by blast
    moreover from this have "idx - 1 < length ops" by linarith
    ultimately show ?thesis by (simp add: nth_append)
  qed
qed

lemma server_ok_apply:
  assumes "reachable n r" "2 \<le> n" "sys_step n (EApply i) r = Some r'" "i < n" "server_ok n r rc i kv"
  obtains kv' where "getApplyAll (map snd (drop (length (applied r)) (applied r'))) kv = Inr kv'"
    "server_ok n r' rc i kv'"
    "\<And>idx. lastApplied (node r i) < idx \<Longrightarrow> idx \<le> lastApplied (node r' i) \<Longrightarrow> result kv' idx = Some [handed_over n r' i ! (idx - 1)]"
proof -
  obtain ms ops where ms: "applied r' = applied r @ map (Pair i) ms"
    "map amIndex ms = [Suc (lastApplied (node r i))..<Suc (lastApplied (node r i)) + length ms]"
    "lastApplied (node r' i) = lastApplied (node r i) + length ms"
    "map amCommand ms = map Some ops" "handed_over n r' i = handed_over n r i @ ops"
    by (rule apply_messages [OF assms(1-3)])
  have s: "chans_ok kv" "prevIndex kv = lastApplied (node r i)" "chans_committed (handed_over n r i) (result kv)"
    "\<not> rc \<Longrightarrow> kvmaps kv = replay (handed_over n r i)" using assms(5) by (auto simp: server_ok_def)
  have "map amIndex ms = [Suc (prevIndex kv)..<Suc (prevIndex kv) + length ms]" using ms(2) s(2) by simp
  from getApplyAll_ok [OF s(1) this ms(4)] obtain kv' where
    kv': "getApplyAll ms kv = Inr kv'" "kvmaps kv' = fold replayOp ops (kvmaps kv)"
    "prevIndex kv' = prevIndex kv + length ms" "chans_ok kv'"
    "\<And>idx. result kv' idx = (if prevIndex kv < idx \<and> idx \<le> prevIndex kv + length ops
       then Some [ops ! (idx - Suc (prevIndex kv))] else result kv idx)" by blast
  have "chans_committed (handed_over n r i @ ops) (result kv')"
    by (rule chans_committed_extend [OF s(3) _ kv'(5)])
      (use s(2) handed_over_length [OF assms(1,2,4)] in simp)
  moreover have "map snd (drop (length (applied r)) (applied r')) = ms" using ms(1) by (simp add: comp_def)
  moreover have "length ops = length ms" using ms(4) by (metis length_map)
  moreover have "result kv' idx = Some [handed_over n r' i ! (idx - 1)]" if "lastApplied (node r i) < idx" "idx \<le> lastApplied (node r i) + length ops" for idx
    using that kv'(5) [of idx] s(2) handed_over_length [OF assms(1,2,4)] by (simp add: ms(5) nth_append)
  ultimately show ?thesis using that [of kv'] kv' s(2,4) ms(3,5)
    by (simp add: server_ok_def replay_def)
qed

lemma server_ok_chan:
  "server_ok n r rc i kv \<Longrightarrow>
     server_ok n r rc i (case result kv k of None \<Rightarrow> kv\<lparr>result := (result kv)(k \<mapsto> [])\<rparr> | Some _ \<Rightarrow> kv)"
  by (auto simp: server_ok_def chans_ok_def chans_committed_def kvmaps_def split: option.splits)

lemma awaitLog_cases:
  assumes "chans_ok kv" "awaitLog idx e t kv = Some (ok, kv')"
  shows "(kv' = kv \<and> \<not> ok) \<or>
    (\<exists>op. result kv idx = Some [op] \<and> ok = (op = e) \<and> kv' = kv\<lparr>result := (result kv)(idx \<mapsto> [])\<rparr>)"
proof (cases t)
  case False
  then obtain op rest where r: "result kv idx = Some (op # rest)" "ok = (op = e)"
    "kv' = kv\<lparr>result := (result kv)(idx \<mapsto> rest)\<rparr>"
    using assms(2) by (auto simp: awaitLog_def split: option.splits list.splits)
  moreover from this have "rest = []" using assms(1) unfolding chans_ok_def by fastforce
  ultimately show ?thesis by blast
qed (use assms(2) in \<open>auto simp: awaitLog_def\<close>)

lemma server_ok_drain:
  assumes "server_ok n r rc i kv" "awaitLog idx e t kv = Some (ok, kv')"
  shows "server_ok n r rc i kv'"
proof -
  have "chans_ok kv" using assms(1) by (simp add: server_ok_def)
  from awaitLog_cases [OF this assms(2)] assms(1) show ?thesis
    by (auto simp: server_ok_def chans_ok_def chans_committed_def kvmaps_def split: if_splits)
qed

lemma server_ok_answer:
  assumes "server_ok n r rc i kv" "answer q ok kv = (reply, kv')"
  shows "server_ok n r (rc \<or> acks kv' (opId (requestEntry q)) \<noteq> acks kv (opId (requestEntry q))) i kv'"
proof (cases "acks kv' (opId (requestEntry q)) = acks kv (opId (requestEntry q))")
  case True
  then have "kv' = kv" using assms(2)
    by (cases q) (auto simp: answer_def finishGet_def requestEntry_def getEntry_def fun_upd_idem split: if_splits prod.splits)
  with assms(1) True show ?thesis by simp
next
  case False
  then show ?thesis using assms
    by (cases q) (auto simp: answer_def finishGet_def server_ok_def chans_ok_def split: if_splits prod.splits)
qed

section \<open>Every event keeps the invariant\<close>

lemma AppendLog_Start:
  "AppendLog e rf kv = (case Start e rf of Inl p \<Rightarrow> Inl p
     | Inr (rf', idx, trm, ld) \<Rightarrow> Inr (rf', if ld then (case result kv (nat idx) of
         None \<Rightarrow> kv\<lparr>result := (result kv)(nat idx \<mapsto> [])\<rparr> | Some _ \<Rightarrow> kv) else kv, if ld then Some (nat idx) else None))"
  by (simp add: AppendLog_def Let_def split: sum.splits prod.splits)

lemma kv_inv_request:
  assumes "kv_inv n s" "2 \<le> n" "kvRequest n i q s = Some s'"
  shows "kv_inv n s'"
proof -
  let ?e = "requestEntry q" and ?r = "rsys s"
  have i: "i < n" "i \<notin> set (down ?r)" using assms(3) by (auto simp: kvRequest_def split: if_splits)
  have r: "reachable n ?r" using assms(1) by (simp add: kv_inv_def)
  have st: "sys_step n (EStart i ?e) ?r = Some (rsys s')" "kvfails s' = kvfails s" "raced s' = raced s"
    "\<And>j. j \<noteq> i \<Longrightarrow> kvs s' j = kvs s j"
    "kvs s' i = kvs s i \<or> (\<exists>k. kvs s' i = (case result (kvs s i) k of
       None \<Rightarrow> (kvs s i)\<lparr>result := (result (kvs s i))(k \<mapsto> [])\<rparr> | Some _ \<Rightarrow> kvs s i))"
    using assms(3) i by (auto simp: kvRequest_def sys_step_def AppendLog_Start
        split: sum.splits prod.splits option.splits if_splits)
  have "server_ok n (rsys s') (raced s) j (kvs s' j)" if "j < n" for j
  proof -
    have "server_ok n (rsys s') (raced s) j (kvs s j)"
      by (rule server_ok_same [OF r st(1) _ assms(2) that]) (use assms(1) that in \<open>auto simp: applies_def kv_inv_def\<close>)
    then show ?thesis using st(4,5) server_ok_chan by (cases "j = i") auto
  qed
  with st reachable.more [OF r st(1)] assms(1) show ?thesis by (simp add: kv_inv_def)
qed

lemma kv_inv_apply:
  assumes "kv_inv n s" "2 \<le> n" "kvApply n i s = Some s'"
  shows "kv_inv n s'"
proof -
  obtain r' where r': "sys_step n (EApply i) (rsys s) = Some r'" using assms(3) by (auto simp: kvApply_def split: option.splits)
  have i: "i < n" using r' by (auto simp: sys_step_def split: if_splits)
  have r: "reachable n (rsys s)" "server_ok n (rsys s) (raced s) j (kvs s j)" if "j < n" for j
    using assms(1) that by (auto simp: kv_inv_def)
  obtain kv' where kv': "getApplyAll (map snd (drop (length (applied (rsys s))) (applied r'))) (kvs s i) = Inr kv'"
    "server_ok n r' (raced s) i kv'" using server_ok_apply [OF r(1) [OF i] assms(2) r' i r(2) [OF i]] by blast
  have s': "s' = s\<lparr>rsys := r', kvs := (kvs s)(i := kv')\<rparr>" using assms(3) r' kv'(1) by (simp add: kvApply_def)
  have "server_ok n r' (raced s) j (kvs s' j)" if "j < n" for j
    using kv'(2) s' server_ok_same [OF r(1) [OF that] r' _ assms(2) that r(2) [OF that]]
    by (cases "j = i") (auto simp: applies_def)
  with s' reachable.more [OF r(1) [OF i] r'] assms(1) show ?thesis by (simp add: kv_inv_def)
qed

lemma kv_inv_finish:
  assumes "kv_inv n s" "kvFinish p t s = Some s'"
  shows "kv_inv n s'"
proof -
  obtain i idx q where p: "pending s ! p = (i, idx, q)" by (metis prod_cases3)
  obtain ok kv reply kv' where k: "awaitLog idx (requestEntry q) t (kvs s i) = Some (ok, kv)"
    "answer q ok kv = (reply, kv')" "rsys s' = rsys s" "kvfails s' = kvfails s" "kvs s' = (kvs s)(i := kv')"
    "raced s' = (raced s \<or> acks kv' (opId (requestEntry q)) \<noteq> acks kv (opId (requestEntry q)))"
    using assms(2) p by (auto simp: kvFinish_def Let_def split: if_splits option.splits prod.splits)
  have "server_ok n (rsys s) (raced s') j (kvs s' j)" if "j < n" for j
  proof -
    have ok: "server_ok n (rsys s) (raced s) j (kvs s j)" using assms(1) that by (simp add: kv_inv_def)
    show ?thesis
    proof (cases "j = i")
      case True
      with server_ok_answer [OF server_ok_drain [OF ok] k(2)] k show ?thesis by simp
    next
      case False
      with ok k(5,6) show ?thesis by (auto simp: server_ok_def)
    qed
  qed
  with k assms(1) show ?thesis by (simp add: kv_inv_def)
qed

lemma kv_inv_restart:
  assumes "kv_inv n s" "2 \<le> n" "sys_step n (ERestart i rnd) (rsys s) = Some r'"
  shows "kv_inv n (s\<lparr>rsys := r', kvs := (kvs s)(i := StartKVServer i), pending := ps\<rparr>)"
proof -
  have r: "reachable n (rsys s)" "reachable n r'" using assms(1) reachable.more [OF _ assms(3)] by (auto simp: kv_inv_def)
  have "lastApplied (node r' i) = 0" using assms(3) by (auto simp: sys_step_def Make_volatile split: if_splits)
  then have "i < n \<Longrightarrow> server_ok n r' (raced s) i (StartKVServer i)" using server_ok_fresh [OF r(2) assms(2)] by simp
  moreover have "server_ok n r' (raced s) j (kvs s j)" if "j < n" "j \<noteq> i" for j
    by (rule server_ok_same [OF r(1) assms(3) _ assms(2) that(1)])
      (use assms(1) that in \<open>auto simp: applies_def kv_inv_def\<close>)
  ultimately show ?thesis using r(2) assms(1) by (simp add: kv_inv_def)
qed

lemma kv_inv_raft:
  assumes "kv_inv n s" "2 \<le> n" "sys_step n ev (rsys s) = Some r'" "\<And>j. \<not> applies ev j"
  shows "kv_inv n (s\<lparr>rsys := r'\<rparr>)"
proof -
  have r: "reachable n (rsys s)" using assms(1) by (simp add: kv_inv_def)
  have "server_ok n r' (raced s) j (kvs s j)" if "j < n" for j
    by (rule server_ok_same [OF r assms(3,4,2) that]) (use assms(1) that in \<open>simp add: kv_inv_def\<close>)
  with reachable.more [OF r assms(3)] assms(1) show ?thesis by (simp add: kv_inv_def)
qed

lemma kv_inv_step:
  assumes "kv_inv n s" "2 \<le> n" "kv_step n ev s = Some s'"
  shows "kv_inv n s'"
proof (cases ev)
  case (KRaft rv)
  then obtain r' where "sys_step n rv (rsys s) = Some r'" "s' = s\<lparr>rsys := r'\<rparr>" "\<And>j. \<not> applies rv j"
    using assms(3) by (auto simp: kv_step_def applies_def split: event.splits option.splits)
  with kv_inv_raft [OF assms(1,2)] show ?thesis by blast
next
  case (KRequest i q)
  then show ?thesis using kv_inv_request [OF assms(1,2)] assms(3) by (simp add: kv_step_def)
next
  case (KApply i)
  then show ?thesis using kv_inv_apply [OF assms(1,2)] assms(3) by (simp add: kv_step_def)
next
  case (KFinish p t)
  then show ?thesis using kv_inv_finish [OF assms(1)] assms(3) by (simp add: kv_step_def)
next
  case (KRestart i rnd)
  then obtain r' where "sys_step n (ERestart i rnd) (rsys s) = Some r'"
    "s' = s\<lparr>rsys := r', kvs := (kvs s)(i := StartKVServer i), pending := filter (\<lambda>(j, _). j \<noteq> i) (pending s)\<rparr>"
    using assms(3) by (auto simp: kv_step_def split: option.splits)
  then show ?thesis using kv_inv_restart [OF assms(1,2)] by simp
qed

lemma kv_reachable_inv:
  assumes "kv_reachable n s" "2 \<le> n"
  shows "kv_inv n s"
  using assms(1)
proof induction
  case (kv_init rnd)
  have "server_ok n (init_sys n rnd) False i (StartKVServer i)" if "i < n" for i
    by (rule server_ok_fresh [OF reachable.init assms(2) that]) (simp add: init_sys_def Make_volatile)
  then show ?case using reachable.init [of n rnd] by (simp add: kv_inv_def kv_init_def)
next
  case (kv_more s ev s')
  then show ?case using kv_inv_step [OF _ assms(2)] by blast
qed

text \<open>
  If operations are handed over in the order of their numbers, the database is the effect of each
  operation once, at its first occurrence.
\<close>

lemma in_order_db:
  assumes "kv_inv n s" "\<not> raced s" "i < n" "inOrder [] (handed_over n (rsys s) i)"
  shows "db (kvs s i) = fold effect (rev (remdups (rev (handed_over n (rsys s) i)))) Map.empty"
proof -
  have "kvmaps (kvs s i) = replay (handed_over n (rsys s) i)" using assms(1-3) by (simp add: kv_inv_def server_ok_def)
  then have "db (kvs s i) = fold effect (effective Map.empty (handed_over n (rsys s) i)) Map.empty"
    using replay_effective [of "handed_over n (rsys s) i" Map.empty Map.empty]
    by (simp add: kvmaps_def replay_def prod_eq_iff)
  moreover have "acksOf [] Map.empty" by (simp add: acksOf_def)
  ultimately show ?thesis using effective_in_order [OF _ assms(4)] by simp
qed

end
