(* ===== verification/Kv_Properties.thy ===== *)
theory Kv_Properties
  imports Kv_System
begin

text \<open>
  The correctness theorems of the key/value service, and concrete runs of three servers.
\<close>

section \<open>Concrete runs\<close>

fun kv_script :: "nat \<Rightarrow> (KvSys \<Rightarrow> kvevent) list \<Rightarrow> KvSys \<Rightarrow> KvSys option" where
  "kv_script n [] s = Some s"
| "kv_script n (f # fs) s = (case kv_step n (f s) s of None \<Rightarrow> None | Some s' \<Rightarrow> kv_script n fs s')"

definition kv_deliver :: "nat \<Rightarrow> KvSys \<Rightarrow> kvevent" where
  "kv_deliver k s = KRaft (EDeliver (net (rsys s) ! k))"

definition kv_event :: "kvevent \<Rightarrow> KvSys \<Rightarrow> kvevent" where
  "kv_event ev s = ev"

lemma kv_script_reachable: "kv_reachable n s \<Longrightarrow> kv_script n fs s = Some s' \<Longrightarrow> kv_reachable n s'"
  by (induction fs arbitrary: s) (auto split: option.splits intro: kv_reachable.kv_more)

definition kv_start :: KvSys where
  "kv_start = kv_init 3 (\<lambda>_. [])"

definition kv_elect :: "(KvSys \<Rightarrow> kvevent) list" where
  "kv_elect = replicate 10 (kv_event (KRaft (ETick 0))) @ [kv_deliver 0, kv_deliver 2]"

definition getk :: request where
  "getk = ReqGet \<lparr>gKey = ''k'', gId = 1, gReqId = 0\<rparr>"

definition appendx :: request where
  "appendx = ReqPutAppend \<lparr>paKey = ''k'', paValue = ''x'', paOp = ''Append'', paId = 1, paReqId = 1\<rparr>"

text \<open>Server 0 commits an append, replies to it; server 1 applies it too.\<close>

definition put_script :: "(KvSys \<Rightarrow> kvevent) list" where
  "put_script = kv_elect @ [kv_event (KRequest 0 appendx), kv_deliver 5, kv_deliver 7, kv_event (KApply 0)]"

definition put_done_script :: "(KvSys \<Rightarrow> kvevent) list" where
  "put_done_script = put_script @ [kv_event (KFinish 0 False)] @ replicate 5 (kv_event (KRaft (ETick 0))) @
     [kv_deliver 8, kv_event (KApply 1)]"

definition put_sys :: KvSys where
  "put_sys = the (kv_script 3 put_script kv_start)"

definition put_done_sys :: KvSys where
  "put_done_sys = the (kv_script 3 put_done_script kv_start)"

text \<open>
  The handler of a \<open>Get\<close> that has received its entry is delayed; the next request of the
  same client is applied, retried and committed again; then the \<open>Get\<close> handler writes its
  own, lower, request number to \<open>ack\<close>.
\<close>

definition race_script :: "(KvSys \<Rightarrow> kvevent) list" where
  "race_script = kv_elect @
     [kv_event (KRequest 0 getk), kv_deliver 5, kv_deliver 7, kv_event (KApply 0),
      kv_event (KRequest 0 appendx), kv_deliver 8, kv_deliver 10, kv_event (KApply 0),
      kv_event (KRequest 0 appendx), kv_deliver 11, kv_deliver 13,
      kv_event (KFinish 0 False), kv_event (KApply 0)] @
     replicate 5 (kv_event (KRaft (ETick 0))) @
     [kv_deliver 14, kv_event (KApply 1), kv_event (KApply 1), kv_event (KApply 1)]"

definition race_sys :: KvSys where
  "race_sys = the (kv_script 3 race_script kv_start)"

lemma kv_start_reachable: "kv_reachable 3 kv_start"
  by (simp add: kv_start_def kv_reachable.kv_init)

lemma put_some: "kv_script 3 put_script kv_start \<noteq> None"
  by code_simp

lemma put_done_some: "kv_script 3 put_done_script kv_start \<noteq> None"
  by code_simp

lemma race_some: "kv_script 3 race_script kv_start \<noteq> None"
  by code_simp

lemma put_reachable: "kv_reachable 3 put_sys"
  using kv_script_reachable [OF kv_start_reachable] put_some by (auto simp: put_sys_def)

lemma put_done_reachable: "kv_reachable 3 put_done_sys"
  using kv_script_reachable [OF kv_start_reachable] put_done_some by (auto simp: put_done_sys_def)

lemma race_reachable: "kv_reachable 3 race_sys"
  using kv_script_reachable [OF kv_start_reachable] race_some by (auto simp: race_sys_def)

lemma put_done_facts:
  "raced put_done_sys = False" "prevIndex (kvs put_done_sys 0) = 1" "prevIndex (kvs put_done_sys 1) = 1"
  "db (kvs put_done_sys 0) ''k'' = Some ''x''"
  by code_simp+

lemma race_facts:
  "prevIndex (kvs race_sys 0) = 3" "prevIndex (kvs race_sys 1) = 3"
  "db (kvs race_sys 0) ''k'' = Some ''xx''" "db (kvs race_sys 1) ''k'' = Some ''x''"
  by code_simp+

section \<open>Theorems\<close>

text \<open>
  C21: The applying goroutine of a server never fails in any run of the cluster: messages arrive
  in index order, so its order check does not panic; every committed entry is an operation, so
  the type assertion does not panic; and sending to a waiting handler never blocks.
\<close>

theorem kv_never_fails:
  assumes "kv_reachable n s" "2 \<le> n"
  shows "kvfails s = []"
  using kv_reachable_inv [OF assms] by (simp add: kv_inv_def)

theorem kv_never_fails_witness: "kvfails race_sys = [] \<and> prevIndex (kvs race_sys 0) = 3"
  using kv_never_fails [OF race_reachable] race_facts(1) by simp

text \<open>
  C19: Replica consistency. As long as no \<open>Get\<close> handler's own write to \<open>ack\<close> has
  changed it, two servers that have applied the same number of entries have the same database and
  the same record of acknowledged requests.
\<close>

theorem kv_replicas_agree:
  assumes "kv_reachable n s" "2 \<le> n" "\<not> raced s" "i < n" "j < n"
    "prevIndex (kvs s i) = prevIndex (kvs s j)"
  shows "db (kvs s i) = db (kvs s j) \<and> acks (kvs s i) = acks (kvs s j)"
proof -
  have inv: "reachable n (rsys s)" "server_ok n (rsys s) False i (kvs s i)" "server_ok n (rsys s) False j (kvs s j)"
    using kv_reachable_inv [OF assms(1,2)] assms(3-5) by (auto simp: kv_inv_def)
  have "length (handed_over n (rsys s) i) = length (handed_over n (rsys s) j)"
    using inv assms(6) handed_over_length [OF inv(1) assms(2)] assms(4,5) by (simp add: server_ok_def)
  from raft_log.same_state [OF this, of replayOp] inv have "kvmaps (kvs s i) = kvmaps (kvs s j)"
    by (simp add: server_ok_def replay_def)
  then show ?thesis by (simp add: kvmaps_def)
qed

theorem kv_replicas_agree_witness:
  "db (kvs put_done_sys 1) ''k'' = Some ''x'' \<and> prevIndex (kvs put_done_sys 1) = 1"
  using kv_replicas_agree [OF put_done_reachable, of 0 1] put_done_facts by simp

text \<open>
  If clients number their requests in the order they issue them, a server's
  database is the effect of the committed operations with every repetition of an operation left
  out, in the order of their first occurrences.
\<close>

theorem kv_exactly_once:
  assumes "kv_reachable n s" "2 \<le> n" "\<not> raced s" "i < n" "inOrder [] (handed_over n (rsys s) i)"
  shows "db (kvs s i) = fold effect (rev (remdups (rev (handed_over n (rsys s) i)))) Map.empty"
  by (rule in_order_db [OF kv_reachable_inv [OF assms(1,2)] assms(3-5)])

theorem kv_exactly_once_witness:
  "db (kvs put_done_sys 0) = fold effect [requestEntry appendx] Map.empty"
proof -
  have r: "reachable 3 (rsys put_done_sys)" using kv_reachable_inv [OF put_done_reachable] by (simp add: kv_inv_def)
  have "lastApplied (node (rsys put_done_sys) 0) = 1"
    "lCommand (log (node (rsys put_done_sys) 0) ! 1) = Some (requestEntry appendx)" by code_simp+
  then have h: "handed_over 3 (rsys put_done_sys) 0 = [requestEntry appendx]"
    using r by (simp add: handed_over_def)
  show ?thesis using kv_exactly_once [OF put_done_reachable, of 0] put_done_facts(1) by (simp add: h)
qed

text \<open>
  C20: When a \<open>PutAppend\<close> handler replies OK, the operation it was called with has been
  committed and applied at the log index Raft gave for it.
\<close>

theorem put_ok_is_committed:
  assumes "kv_reachable n s" "2 \<le> n" "p < length (pending s)" "pending s ! p = (i, idx, ReqPutAppend args)" "i < n"
    "kvFinish p timedOut s = Some s'"
    "replies s' = replies s @ [(i, ReqPutAppend args, RepPutAppend \<lparr>parWrongLeader = False, parErr = ''OK''\<rparr>)]"
  shows "0 < idx \<and> idx \<le> length (handed_over n (rsys s) i) \<and>
    handed_over n (rsys s) i ! (idx - 1) = putAppendEntry args"
proof -
  have ok: "server_ok n (rsys s) (raced s) i (kvs s i)" using kv_reachable_inv [OF assms(1,2)] assms(5) by (simp add: kv_inv_def)
  obtain kv where "awaitLog idx (putAppendEntry args) timedOut (kvs s i) = Some (True, kv)"
    using assms(3,4,6,7) by (auto simp: kvFinish_def Let_def requestEntry_def answer_def finishPutAppend_def
        split: if_splits option.splits)
  then have "result (kvs s i) idx = Some [putAppendEntry args]"
    using awaitLog_cases ok by (fastforce simp: server_ok_def)
  with ok show ?thesis unfolding server_ok_def chans_committed_def by blast
qed

theorem put_ok_is_committed_witness:
  "0 < (1::nat) \<and> handed_over 3 (rsys put_sys) 0 ! 0 =
     \<lparr>opType = ''Append'', opKey = ''k'', opValue = ''x'', opId = 1, opReqId = 1\<rparr>"
proof -
  let ?args = "\<lparr>paKey = ''k'', paValue = ''x'', paOp = ''Append'', paId = 1, paReqId = 1\<rparr>"
  have p: "pending put_sys = [(0, 1, ReqPutAppend ?args)]" "kvFinish 0 False put_sys \<noteq> None"
    "map_option replies (kvFinish 0 False put_sys) =
       Some (replies put_sys @ [(0, ReqPutAppend ?args, RepPutAppend \<lparr>parWrongLeader = False, parErr = ''OK''\<rparr>)])"
    by code_simp+
  then obtain s' where "kvFinish 0 False put_sys = Some s'"
    "replies s' = replies put_sys @ [(0, ReqPutAppend ?args, RepPutAppend \<lparr>parWrongLeader = False, parErr = ''OK''\<rparr>)]"
    by auto
  then show ?thesis using put_ok_is_committed [OF put_reachable, of 0 0 1 ?args False s'] p(1)
    by (simp add: putAppendEntry_def)
qed

text \<open>
  C22: The \<open>Get\<close> handler's write to \<open>ack\<close> can break replica consistency: there is
  a run of three servers in which a delayed handler lowers the acknowledged request number, a
  retried append is applied twice on that server and once on another, and the two servers, having
  applied the same entries, hold different values.
\<close>

theorem get_ack_write_diverges:
  "\<exists>s. kv_reachable 3 s \<and> prevIndex (kvs s 0) = prevIndex (kvs s 1) \<and> db (kvs s 0) \<noteq> db (kvs s 1)"
proof (intro exI conjI)
  show "kv_reachable 3 race_sys" by (rule race_reachable)
  show "prevIndex (kvs race_sys 0) = prevIndex (kvs race_sys 1)" using race_facts(1,2) by simp
  show "db (kvs race_sys 0) \<noteq> db (kvs race_sys 1)" using race_facts(3,4) by auto
qed

text \<open>
  A request that is applied after a later-numbered request of the same client is reported to
  its handler as applied, but changes neither the database nor the acknowledged numbers: a clerk
  must not have two requests under way at once.
\<close>

theorem late_request_dropped:
  assumes "chans_ok kv" "getApply m1 kv = Inr kv1" "getApply m2 kv1 = Inr kv2"
    "amCommand m1 = Some o1" "amCommand m2 = Some o2" "opId o2 = opId o1" "opReqId o2 \<le> opReqId o1"
  shows "db kv2 = db kv1 \<and> acks kv2 = acks kv1 \<and> result kv2 (amIndex m2) = Some [o2]"
proof -
  have k1: "chans_ok kv1" "dup o2 (acks kv1)"
    using getApply_acks [OF assms(1,2,4)] assms(6,7) by (auto simp: dup_def split: option.splits)
  then show ?thesis
    using assms(3,5) notify_ok [of "kv1\<lparr>prevIndex := amIndex m2\<rparr>"]
    by (auto simp: getApply_def checkDup_def dup_def chans_ok_def Let_def split: if_splits option.splits)
qed

theorem late_request_dropped_witness:
  "\<exists>kv1 kv2. getApply \<lparr>amIndex = 1, amCommand = Some \<lparr>opType = ''Put'', opKey = ''b'', opValue = ''2'', opId = 1, opReqId = 1\<rparr>\<rparr>
      (StartKVServer 0) = Inr kv1 \<and>
     getApply \<lparr>amIndex = 2, amCommand = Some \<lparr>opType = ''Put'', opKey = ''a'', opValue = ''1'', opId = 1, opReqId = 0\<rparr>\<rparr>
      kv1 = Inr kv2 \<and> db kv2 = db kv1"
proof -
  let ?m1 = "\<lparr>amIndex = 1, amCommand = Some \<lparr>opType = ''Put'', opKey = ''b'', opValue = ''2'', opId = 1, opReqId = 1\<rparr>\<rparr>"
  let ?m2 = "\<lparr>amIndex = 2, amCommand = Some \<lparr>opType = ''Put'', opKey = ''a'', opValue = ''1'', opId = 1, opReqId = 0\<rparr>\<rparr>"
  obtain kv1 where kv1: "getApply ?m1 (StartKVServer 0) = Inr kv1" "prevIndex kv1 = amIndex ?m1" "chans_ok kv1"
    by (rule getApply_ok [of "StartKVServer 0" ?m1]) (simp_all add: StartKVServer_def chans_ok_def)
  obtain kv2 where kv2: "getApply ?m2 kv1 = Inr kv2"
    by (rule getApply_ok [of kv1 ?m2]) (use kv1 in simp_all)
  show ?thesis using late_request_dropped [OF chans_ok_init kv1(1) kv2] kv1(1) kv2 by auto
qed

end
