(* ===== verification/Labrpc.thy ===== *)
theory Labrpc
  imports Prelude
begin

text \<open>
  The simulated network, \<open>src/mit/src/labrpc/labrpc.go\<close>. End names, server names and
  server objects are of arbitrary types; a server object has an address, so that replacing a
  server by a new object with the same content is visible, as it is to Go's pointer comparison.
  A handler is a function on the state of the application. gob encoding is the identity. The
  mutexes make each operation atomic; \<open>ProcessReq\<close>, which waits several times, and the goroutine
  it starts for the handler are two state machines whose steps interleave with each other and with
  everything else, so that a handler may start or end long after the caller was told that its call
  failed. Random draws are arguments.
\<close>

section \<open>Services and servers\<close>

datatype rpcfail = FatalEndExists | FatalUnknownService | FatalUnknownMethod | PanicNoDot | PanicNilServer | FatalDecodeReply

record ('w, 'd) Service =
  svcName :: string
  svcMethods :: "string \<rightharpoonup> ('w \<Rightarrow> 'd \<Rightarrow> 'w \<times> 'd)"

record ('w, 'd) Server =
  services :: "string \<rightharpoonup> ('w, 'd) Service"
  srvCount :: nat

record 'd replyMsg =
  rmOk :: bool
  rmReply :: "'d option"

record ('e, 'd) reqMsg =
  rqEnd :: 'e
  rqSvcMeth :: string
  rqArgs :: 'd

text \<open>
  A client end and the two halves of its \<open>Call\<close>: the request it puts on the network's
  channel, and what it makes of the reply, where \<open>None\<close> stands for the result false.
\<close>

record 'e ClientEnd =
  ceName :: 'e

definition callRequest :: "string \<Rightarrow> 'd \<Rightarrow> 'e ClientEnd \<Rightarrow> ('e, 'd) reqMsg" where
  "callRequest svcMeth args e = \<lparr>rqEnd = ceName e, rqSvcMeth = svcMeth, rqArgs = args\<rparr>"

definition callReturn :: "'d replyMsg \<Rightarrow> rpcfail + 'd option" where
  "callReturn rep = (if rmOk rep then
     (case rmReply rep of None \<Rightarrow> Inl FatalDecodeReply | Some reply \<Rightarrow> Inr (Some reply)) else Inr None)"

datatype kind = Ptr | NotPtr

record ('w, 'd) rpcMethod =
  mtName :: string
  mtPkgPath :: string
  mtNumIn :: nat
  mtIn2 :: kind
  mtNumOut :: nat
  mtFunc :: "'w \<Rightarrow> 'd \<Rightarrow> 'w \<times> 'd"

text \<open>Reflection lists the methods of the receiver; those that look like handlers are kept.\<close>

definition suitable :: "('w, 'd) rpcMethod \<Rightarrow> bool" where
  "suitable mt \<longleftrightarrow> \<not> (mtPkgPath mt \<noteq> [] \<or> mtNumIn mt \<noteq> 3 \<or> mtIn2 mt \<noteq> Ptr \<or> mtNumOut mt \<noteq> 0)"

fun addMethods :: "('w, 'd) rpcMethod list \<Rightarrow> (string \<rightharpoonup> ('w \<Rightarrow> 'd \<Rightarrow> 'w \<times> 'd)) \<Rightarrow>
    (string \<rightharpoonup> ('w \<Rightarrow> 'd \<Rightarrow> 'w \<times> 'd))" where
  "addMethods [] ms = ms"
| "addMethods (mt # mts) ms = addMethods mts (if suitable mt then ms(mtName mt \<mapsto> mtFunc mt) else ms)"

definition MakeService :: "string \<Rightarrow> ('w, 'd) rpcMethod list \<Rightarrow> ('w, 'd) Service" where
  "MakeService tname mts = \<lparr>svcName = tname, svcMethods = addMethods mts Map.empty\<rparr>"

definition MakeServer :: "('w, 'd) Server" where
  "MakeServer = \<lparr>services = Map.empty, srvCount = 0\<rparr>"

definition AddService :: "('w, 'd) Service \<Rightarrow> ('w, 'd) Server \<Rightarrow> ('w, 'd) Server" where
  "AddService svc rs = rs\<lparr>services := (services rs)(svcName svc \<mapsto> svc)\<rparr>"

definition serverGetCount :: "('w, 'd) Server \<Rightarrow> nat" where
  "serverGetCount rs = srvCount rs"

text \<open>\<open>strings.LastIndex\<close> for a one-character separator.\<close>

fun lastDot :: "string \<Rightarrow> nat option" where
  "lastDot [] = None"
| "lastDot (c # cs) = (case lastDot cs of Some i \<Rightarrow> Some (Suc i)
     | None \<Rightarrow> if c = CHR ''.'' then Some 0 else None)"

definition serviceDispatch ::
  "string \<Rightarrow> 'd \<Rightarrow> ('w, 'd) Service \<Rightarrow> 'w \<Rightarrow> rpcfail + 'w \<times> 'd replyMsg" where
  "serviceDispatch methname args svc w = (case svcMethods svc methname of
     Some f \<Rightarrow> (let (w', r) = f w args in Inr (w', \<lparr>rmOk = True, rmReply = Some r\<rparr>))
   | None \<Rightarrow> Inl FatalUnknownMethod)"

text \<open>
  The server's \<open>dispatch\<close> up to the call of the service's: the request is counted, and the service
  and the name of its method are found.
\<close>

definition serverDispatch ::
  "('e, 'd) reqMsg \<Rightarrow> ('w, 'd) Server \<Rightarrow> ('w, 'd) Server \<times> (rpcfail + ('w, 'd) Service \<times> string)" where
  "serverDispatch req rs =
     (let rs = rs\<lparr>srvCount := srvCount rs + 1\<rparr> in
      (rs, case lastDot (rqSvcMeth req) of None \<Rightarrow> Inl PanicNoDot
           | Some dot \<Rightarrow> (case services rs (take dot (rqSvcMeth req)) of
               Some svc \<Rightarrow> Inr (svc, drop (dot + 1) (rqSvcMeth req))
             | None \<Rightarrow> Inl FatalUnknownService)))"

section \<open>The network\<close>

record ('e, 's) Network =
  reliable :: bool
  longDelays :: bool
  longReordering :: bool
  ends :: "'e \<Rightarrow> bool"
  enabled :: "'e \<Rightarrow> bool"
  servers :: "'s \<Rightarrow> nat option"
  connections :: "'e \<Rightarrow> 's option"

definition MakeNetwork :: "('e, 's) Network" where
  "MakeNetwork = \<lparr>reliable = True, longDelays = False, longReordering = False, ends = (\<lambda>_. False),
     enabled = (\<lambda>_. False), servers = (\<lambda>_. None), connections = (\<lambda>_. None)\<rparr>"

definition Reliable :: "bool \<Rightarrow> ('e, 's) Network \<Rightarrow> ('e, 's) Network" where
  "Reliable yes rn = rn\<lparr>reliable := yes\<rparr>"

definition LongReordering :: "bool \<Rightarrow> ('e, 's) Network \<Rightarrow> ('e, 's) Network" where
  "LongReordering yes rn = rn\<lparr>longReordering := yes\<rparr>"

definition LongDelays :: "bool \<Rightarrow> ('e, 's) Network \<Rightarrow> ('e, 's) Network" where
  "LongDelays yes rn = rn\<lparr>longDelays := yes\<rparr>"

definition ReadEndnameInfo ::
  "'e \<Rightarrow> ('e, 's) Network \<Rightarrow> bool \<times> 's option \<times> nat option \<times> bool \<times> bool" where
  "ReadEndnameInfo endname rn =
     (enabled rn endname, connections rn endname,
      (case connections rn endname of Some sn \<Rightarrow> servers rn sn | None \<Rightarrow> None),
      reliable rn, longReordering rn)"

definition IsServerDead :: "'e \<Rightarrow> 's \<Rightarrow> nat \<Rightarrow> ('e, 's) Network \<Rightarrow> bool" where
  "IsServerDead endname servername server rn \<longleftrightarrow>
     enabled rn endname = False \<or> servers rn servername \<noteq> Some server"

definition MakeEnd :: "'e \<Rightarrow> ('e, 's) Network \<Rightarrow> rpcfail + ('e, 's) Network" where
  "MakeEnd endname rn = (if ends rn endname then Inl FatalEndExists
     else Inr (rn\<lparr>ends := (ends rn)(endname := True), enabled := (enabled rn)(endname := False),
       connections := (connections rn)(endname := None)\<rparr>))"

definition AddServer :: "'s \<Rightarrow> nat \<Rightarrow> ('e, 's) Network \<Rightarrow> ('e, 's) Network" where
  "AddServer servername rs rn = rn\<lparr>servers := (servers rn)(servername := Some rs)\<rparr>"

definition DeleteServer :: "'s \<Rightarrow> ('e, 's) Network \<Rightarrow> ('e, 's) Network" where
  "DeleteServer servername rn = rn\<lparr>servers := (servers rn)(servername := None)\<rparr>"

definition Connect :: "'e \<Rightarrow> 's \<Rightarrow> ('e, 's) Network \<Rightarrow> ('e, 's) Network" where
  "Connect endname servername rn = rn\<lparr>connections := (connections rn)(endname := Some servername)\<rparr>"

definition Enable :: "'e \<Rightarrow> bool \<Rightarrow> ('e, 's) Network \<Rightarrow> ('e, 's) Network" where
  "Enable endname b rn = rn\<lparr>enabled := (enabled rn)(endname := b)\<rparr>"

definition GetCount :: "'s \<Rightarrow> (nat \<Rightarrow> ('w, 'd) Server) \<Rightarrow> ('e, 's) Network \<Rightarrow> rpcfail + nat" where
  "GetCount servername heap rn = (case servers rn servername of
     None \<Rightarrow> Inl PanicNilServer | Some a \<Rightarrow> Inr (serverGetCount (heap a)))"

section \<open>One request\<close>

text \<open>
  Where \<open>ProcessReq\<close> is: not yet started; in its waiting loop, with what it has read about the end;
  past the loop, with the handler's reply if it got one; asleep before it answers; about to answer;
  done. And where the goroutine of the handler is: not started; started, with the server; past the server's
  \<open>dispatch\<close>, with the service and the method; holding the reply; done.
\<close>

datatype ('s, 'd) proc =
    Waiting
  | Executing 's nat bool bool
  | Checking 's nat bool bool "'d replyMsg option"
  | Delayed "'d replyMsg"
  | Sending "'d replyMsg"
  | Replied "'d replyMsg"

datatype ('w, 'd) handler =
    NotStarted
  | Started nat
  | Serving "('w, 'd) Service" string
  | Finished "'d replyMsg"
  | Taken

definition failed :: "'d replyMsg" where
  "failed = \<lparr>rmOk = False, rmReply = None\<rparr>"

text \<open>
  The start of \<open>ProcessReq\<close>, up to starting the handler; \<open>x\<close> is the random number
  that decides on dropping the request.
\<close>

definition beginReq :: "('e, 'd) reqMsg \<Rightarrow> nat \<Rightarrow> ('e, 's) Network \<Rightarrow> ('s, 'd) proc" where
  "beginReq req x rn =
     (let (en, servername, server, rel, longreordering) = ReadEndnameInfo (rqEnd req) rn in
      case (servername, server) of
        (Some sn, Some a) \<Rightarrow>
          if en then (if rel = False \<and> x mod 1000 < 100 then Sending failed
                      else Executing sn a rel longreordering)
          else Delayed failed
      | _ \<Rightarrow> Delayed failed)"

text \<open>The timeout of the waiting loop: the server is checked, and the loop left if it is dead.\<close>

definition timeoutReq :: "('e, 'd) reqMsg \<Rightarrow> ('e, 's) Network \<Rightarrow> ('s, 'd) proc \<Rightarrow> ('s, 'd) proc" where
  "timeoutReq req rn p = (case p of
     Executing sn a rel longreordering \<Rightarrow>
       if IsServerDead (rqEnd req) sn a rn then Checking sn a rel longreordering None else p
   | _ \<Rightarrow> p)"

text \<open>
  After the loop the server is checked again; \<open>x\<close> decides on dropping the reply, \<open>y\<close> on delaying it.
\<close>

definition finishReq :: "('e, 'd) reqMsg \<Rightarrow> nat \<Rightarrow> nat \<Rightarrow> ('e, 's) Network \<Rightarrow> ('s, 'd) proc \<Rightarrow> ('s, 'd) proc" where
  "finishReq req x y rn p = (case p of
     Checking sn a rel longreordering reply \<Rightarrow>
       (case reply of None \<Rightarrow> Sending failed
        | Some r \<Rightarrow>
            if IsServerDead (rqEnd req) sn a rn then Sending failed
            else if rel = False \<and> x mod 1000 < 100 then Sending failed
            else if longreordering \<and> y mod 900 < 600 then Delayed r
            else Sending r)
   | _ \<Rightarrow> p)"

section \<open>The network at work\<close>

text \<open>A call is its request, its two goroutines and how often its handler was run.\<close>

record ('e, 's, 'w, 'd) rpc =
  rcReq :: "('e, 'd) reqMsg"
  rcProc :: "('s, 'd) proc"
  rcHandler :: "('w, 'd) handler"
  rcRuns :: nat

record ('e, 's, 'w, 'd) NetSys =
  nw :: "('e, 's) Network"
  heap :: "nat \<Rightarrow> ('w, 'd) Server"
  world :: 'w
  calls :: "('e, 's, 'w, 'd) rpc list"
  fatals :: "rpcfail list"

datatype ('e, 's, 'd) netevent =
    NCall "('e, 'd) reqMsg"
  | NBegin nat nat
  | NDispatch nat
  | NHandle nat
  | NTake nat
  | NTimeout nat
  | NCheck nat nat nat
  | NWake nat
  | NSend nat
  | NConfig "('e, 's) Network"

text \<open>The two steps of the handler's goroutine. A failure ends the program.\<close>

definition dispatchReq :: "nat \<Rightarrow> ('e, 's, 'w, 'd) NetSys \<Rightarrow> ('e, 's, 'w, 'd) NetSys option" where
  "dispatchReq k s = (let c = calls s ! k in case rcHandler c of
     Started a \<Rightarrow>
       (let (rs, res) = serverDispatch (rcReq c) (heap s a); s = s\<lparr>heap := (heap s)(a := rs)\<rparr> in
        case res of Inl e \<Rightarrow> Some (s\<lparr>fatals := fatals s @ [e]\<rparr>)
        | Inr (svc, meth) \<Rightarrow> Some (s\<lparr>calls := (calls s)[k := c\<lparr>rcHandler := Serving svc meth\<rparr>]\<rparr>))
   | _ \<Rightarrow> None)"

definition handleReq :: "nat \<Rightarrow> ('e, 's, 'w, 'd) NetSys \<Rightarrow> ('e, 's, 'w, 'd) NetSys option" where
  "handleReq k s = (let c = calls s ! k in case rcHandler c of
     Serving svc meth \<Rightarrow>
       (case serviceDispatch meth (rqArgs (rcReq c)) svc (world s) of
          Inl e \<Rightarrow> Some (s\<lparr>fatals := fatals s @ [e]\<rparr>)
        | Inr (w, r) \<Rightarrow> Some (s\<lparr>world := w,
            calls := (calls s)[k := c\<lparr>rcHandler := Finished r, rcRuns := Suc (rcRuns c)\<rparr>]\<rparr>))
   | _ \<Rightarrow> None)"

text \<open>The steps of \<open>ProcessReq\<close>.\<close>

definition processReq :: "('e, 's, 'd) netevent \<Rightarrow> ('e, 's) Network \<Rightarrow> ('e, 's, 'w, 'd) rpc \<Rightarrow> ('e, 's, 'w, 'd) rpc option" where
  "processReq ev rn c = (case (ev, rcProc c) of
     (NBegin k x, Waiting) \<Rightarrow> (let p = beginReq (rcReq c) x rn in
        Some (c\<lparr>rcProc := p, rcHandler := (case p of Executing sn a rel lr \<Rightarrow> Started a | _ \<Rightarrow> NotStarted)\<rparr>))
   | (NTake k, Executing sn a rel lr) \<Rightarrow> (case rcHandler c of
        Finished r \<Rightarrow> Some (c\<lparr>rcProc := Checking sn a rel lr (Some r), rcHandler := Taken\<rparr>) | _ \<Rightarrow> None)
   | (NTimeout k, Executing sn a rel lr) \<Rightarrow> Some (c\<lparr>rcProc := timeoutReq (rcReq c) rn (rcProc c)\<rparr>)
   | (NCheck k x y, Checking sn a rel lr reply) \<Rightarrow> Some (c\<lparr>rcProc := finishReq (rcReq c) x y rn (rcProc c)\<rparr>)
   | (NWake k, Delayed r) \<Rightarrow> Some (c\<lparr>rcProc := Sending r\<rparr>)
   | (NSend k, Sending r) \<Rightarrow> Some (c\<lparr>rcProc := Replied r\<rparr>)
   | _ \<Rightarrow> None)"

fun callOf :: "('e, 's, 'd) netevent \<Rightarrow> nat option" where
  "callOf (NBegin k x) = Some k"
| "callOf (NDispatch k) = Some k"
| "callOf (NHandle k) = Some k"
| "callOf (NTake k) = Some k"
| "callOf (NTimeout k) = Some k"
| "callOf (NCheck k x y) = Some k"
| "callOf (NWake k) = Some k"
| "callOf (NSend k) = Some k"
| "callOf _ = None"

definition net_step :: "('e, 's, 'd) netevent \<Rightarrow> ('e, 's, 'w, 'd) NetSys \<Rightarrow> ('e, 's, 'w, 'd) NetSys option" where
  "net_step ev s = (if fatals s \<noteq> [] then None else
     case callOf ev of
       None \<Rightarrow> (case ev of
           NCall req \<Rightarrow> Some (s\<lparr>calls := calls s @ [\<lparr>rcReq = req, rcProc = Waiting, rcHandler = NotStarted, rcRuns = 0\<rparr>]\<rparr>)
         | NConfig rn \<Rightarrow> Some (s\<lparr>nw := rn\<rparr>)
         | _ \<Rightarrow> None)
     | Some k \<Rightarrow> if k < length (calls s) then (case ev of
           NDispatch _ \<Rightarrow> dispatchReq k s
         | NHandle _ \<Rightarrow> handleReq k s
         | _ \<Rightarrow> map_option (\<lambda>c. s\<lparr>calls := (calls s)[k := c]\<rparr>) (processReq ev (nw s) (calls s ! k)))
         else None)"

fun net_run :: "('e, 's, 'd) netevent list \<Rightarrow> ('e, 's, 'w, 'd) NetSys \<Rightarrow> ('e, 's, 'w, 'd) NetSys option" where
  "net_run [] s = Some s"
| "net_run (ev # evs) s = (case net_step ev s of None \<Rightarrow> None | Some s' \<Rightarrow> net_run evs s')"

inductive net_reachable :: "('e, 's, 'w, 'd) NetSys \<Rightarrow> bool" where
  net_init: "calls s = [] \<Longrightarrow> fatals s = [] \<Longrightarrow> net_reachable s"
| net_more: "net_reachable s \<Longrightarrow> net_step ev s = Some s' \<Longrightarrow> net_reachable s'"

section \<open>Lemmas\<close>

lemma lastDot_None: "lastDot s = None \<longleftrightarrow> CHR ''.'' \<notin> set s"
  by (induction s) (auto split: option.splits)

lemma lastDot_Some: "lastDot s = Some i \<Longrightarrow>
    i < length s \<and> s ! i = CHR ''.'' \<and> CHR ''.'' \<notin> set (drop (Suc i) s)"
proof (induction s arbitrary: i)
  case (Cons c s)
  show ?case
  proof (cases "lastDot s")
    case None
    then show ?thesis using Cons.prems lastDot_None [of s] by (auto split: if_splits)
  next
    case (Some j)
    then show ?thesis using Cons by auto
  qed
qed simp

lemma lastDot_split:
  assumes "CHR ''.'' \<notin> set meth"
  shows "lastDot (svc @ CHR ''.'' # meth) = Some (length svc)"
proof (induction svc)
  case Nil
  then show ?case using assms lastDot_None [of meth] by (simp split: option.splits)
next
  case (Cons c svc)
  then show ?case by simp
qed

lemma addMethods_lookup:
  "addMethods mts ms x = (case map_of (rev (map (\<lambda>mt. (mtName mt, mtFunc mt)) (filter suitable mts))) x of
     Some f \<Rightarrow> Some f | None \<Rightarrow> ms x)"
  by (induction mts arbitrary: ms) (auto simp: map_add_def split: option.splits)

text \<open>What one event does to one call.\<close>

definition reply_ok :: "'d replyMsg \<Rightarrow> bool" where
  "reply_ok r \<longleftrightarrow> rmOk r \<and> rmReply r \<noteq> None"

lemma serviceDispatch_reply: "serviceDispatch meth args svc w = Inr (w', r) \<Longrightarrow> reply_ok r"
  by (auto simp: serviceDispatch_def Let_def reply_ok_def split: option.splits prod.splits)

lemma net_step_call:
  assumes "net_step ev s = Some s'" "k < length (calls s)"
  obtains "calls s' ! k = calls s ! k" "k < length (calls s')"
  | "processReq ev (nw s) (calls s ! k) = Some (calls s' ! k)" "callOf ev = Some k"
  | a svc meth where "ev = NDispatch k" "rcHandler (calls s ! k) = Started a" "calls s' ! k = (calls s ! k)\<lparr>rcHandler := Serving svc meth\<rparr>"
  | svc meth r where "ev = NHandle k" "rcHandler (calls s ! k) = Serving svc meth" "reply_ok r"
      "calls s' ! k = (calls s ! k)\<lparr>rcHandler := Finished r, rcRuns := Suc (rcRuns (calls s ! k))\<rparr>"
proof (cases "callOf ev = Some k")
  case True
  have "fatals s = []" using assms(1) by (auto simp: net_step_def split: if_splits)
  with True assms that show thesis
    by (cases ev) (auto simp: net_step_def dispatchReq_def handleReq_def Let_def dest: serviceDispatch_reply
        split: handler.splits sum.splits prod.splits)
next
  case False
  then have "calls s' ! k = calls s ! k \<and> k < length (calls s')" using assms
    by (cases ev) (auto simp: net_step_def dispatchReq_def handleReq_def Let_def nth_append
        split: if_splits handler.splits sum.splits prod.splits)
  then show thesis using that(1) by blast
qed

lemma net_step_length:
  assumes "net_step ev s = Some s'"
  shows "length (calls s') = (case ev of NCall _ \<Rightarrow> Suc (length (calls s)) | _ \<Rightarrow> length (calls s))"
  using assms by (cases ev) (auto simp: net_step_def dispatchReq_def handleReq_def Let_def
        split: if_splits handler.splits sum.splits prod.splits)

section \<open>Each call\<close>

text \<open>
  The handler of a call has run once if it is past its run and not at all before, and every reply
  but the failure is its reply.
\<close>

definition handler_ok :: "('e, 's, 'w, 'd) rpc \<Rightarrow> bool" where
  "handler_ok c = (case rcHandler c of
     Finished r \<Rightarrow> rcRuns c = 1 \<and> reply_ok r
   | Taken \<Rightarrow> rcRuns c = 1
   | _ \<Rightarrow> rcRuns c = 0)"

definition given :: "('e, 's, 'w, 'd) rpc \<Rightarrow> 'd replyMsg \<Rightarrow> bool" where
  "given c r \<longleftrightarrow> r = failed \<or> (rcHandler c = Taken \<and> reply_ok r)"

definition proc_ok :: "('e, 's, 'w, 'd) rpc \<Rightarrow> bool" where
  "proc_ok c = (case rcProc c of
     Waiting \<Rightarrow> rcHandler c = NotStarted
   | Executing sn a rel lr \<Rightarrow> rcHandler c \<noteq> NotStarted \<and> rcHandler c \<noteq> Taken
   | Checking sn a rel lr reply \<Rightarrow> (case reply of None \<Rightarrow> True | Some r \<Rightarrow> rcHandler c = Taken \<and> reply_ok r)
   | Delayed r \<Rightarrow> given c r
   | Sending r \<Rightarrow> given c r
   | Replied r \<Rightarrow> given c r)"

definition call_ok :: "('e, 's, 'w, 'd) rpc \<Rightarrow> bool" where
  "call_ok c \<longleftrightarrow> handler_ok c \<and> proc_ok c"

lemmas call_ok_defs = call_ok_def handler_ok_def proc_ok_def given_def

lemma processReq_ok: "processReq ev rn c = Some c' \<Longrightarrow> call_ok c \<Longrightarrow> call_ok c'"
  by (cases ev; cases "rcProc c") (auto simp: processReq_def call_ok_defs beginReq_def timeoutReq_def finishReq_def Let_def
      ReadEndnameInfo_def split: handler.splits option.splits if_splits)

lemma net_step_ok:
  assumes "net_step ev s = Some s'" "k < length (calls s)" "call_ok (calls s ! k)"
  shows "call_ok (calls s' ! k)"
  using assms(1,2)
proof (cases rule: net_step_call)
  case 2
  then show ?thesis using processReq_ok assms(3) by blast
qed (use assms(3) in \<open>auto simp: call_ok_defs split: proc.splits option.splits\<close>)

lemma net_step_new:
  assumes "net_step ev s = Some s'" "k < length (calls s')" "\<not> k < length (calls s)"
  shows "rcProc (calls s' ! k) = Waiting" "rcHandler (calls s' ! k) = NotStarted" "rcRuns (calls s' ! k) = 0"
proof -
  obtain req where "ev = NCall req" using assms net_step_length [OF assms(1)] by (cases ev) auto
  then show "rcProc (calls s' ! k) = Waiting" "rcHandler (calls s' ! k) = NotStarted" "rcRuns (calls s' ! k) = 0"
    using assms by (auto simp: net_step_def nth_append less_Suc_eq split: if_splits)
qed

lemma net_reachable_ok: "net_reachable s \<Longrightarrow> k < length (calls s) \<Longrightarrow> call_ok (calls s ! k)"
proof (induction rule: net_reachable.induct)
  case (net_more s ev s')
  then show ?case using net_step_ok [OF net_more(2)] net_step_new [OF net_more(2,4)]
    by (cases "k < length (calls s)") (auto simp: call_ok_defs)
qed simp

section \<open>The history of a call\<close>

lemma net_run_append: "net_run (evs @ evs') s = (case net_run evs s of None \<Rightarrow> None | Some s' \<Rightarrow> net_run evs' s')"
  by (induction evs arbitrary: s) (auto split: option.splits)

text \<open>
  In a run from \<open>s0\<close>, call \<open>k\<close> began before the events \<open>E\<close>: at that moment its end was enabled and
  connected to the name \<open>sn\<close>, and \<open>a\<close> was the server of that name.
\<close>

definition begun :: "('e, 's, 'w, 'd) NetSys \<Rightarrow> ('e, 's, 'd) netevent list \<Rightarrow> nat \<Rightarrow> 'e \<Rightarrow> 's \<Rightarrow> nat \<Rightarrow> ('e, 's, 'd) netevent list \<Rightarrow> bool" where
  "begun s0 evs k e sn a E \<longleftrightarrow> (\<exists>evs1 x s1. evs = evs1 @ NBegin k x # E \<and> net_run evs1 s0 = Some s1 \<and>
     enabled (nw s1) e \<and> connections (nw s1) e = Some sn \<and> servers (nw s1) sn = Some a)"

text \<open>And later, after its handler had run, the second check found the end enabled and the same server.\<close>

definition checked :: "('e, 's, 'w, 'd) NetSys \<Rightarrow> ('e, 's, 'd) netevent list \<Rightarrow> nat \<Rightarrow> 'e \<Rightarrow> bool" where
  "checked s0 evs k e \<longleftrightarrow> (\<exists>evs2 x y evs3 s2 sn a E. evs = evs2 @ NCheck k x y # evs3 \<and> net_run evs2 s0 = Some s2 \<and>
     begun s0 evs2 k e sn a E \<and> NHandle k \<in> set E \<and> enabled (nw s2) e \<and> servers (nw s2) sn = Some a)"

definition call_history :: "('e, 's, 'w, 'd) NetSys \<Rightarrow> ('e, 's, 'd) netevent list \<Rightarrow> nat \<Rightarrow> ('e, 's, 'w, 'd) rpc \<Rightarrow> bool" where
  "call_history s0 evs k c = (case rcProc c of
     Waiting \<Rightarrow> True
   | Executing sn a rel lr \<Rightarrow> \<exists>E. begun s0 evs k (rqEnd (rcReq c)) sn a E \<and> (rcRuns c = 1 \<longrightarrow> NHandle k \<in> set E)
   | Checking sn a rel lr reply \<Rightarrow> \<exists>E. begun s0 evs k (rqEnd (rcReq c)) sn a E \<and> (reply \<noteq> None \<longrightarrow> NHandle k \<in> set E)
   | Delayed r \<Rightarrow> rmOk r \<longrightarrow> checked s0 evs k (rqEnd (rcReq c))
   | Sending r \<Rightarrow> rmOk r \<longrightarrow> checked s0 evs k (rqEnd (rcReq c))
   | Replied r \<Rightarrow> rmOk r \<longrightarrow> checked s0 evs k (rqEnd (rcReq c)))"

lemma begun_more: "begun s0 evs k e sn a E \<Longrightarrow> begun s0 (evs @ [ev]) k e sn a (E @ [ev])"
  unfolding begun_def by fastforce

lemma checked_more: "checked s0 evs k e \<Longrightarrow> checked s0 (evs @ [ev]) k e"
  unfolding checked_def by fastforce

lemma call_history_more: "call_history s0 evs k c \<Longrightarrow> call_history s0 (evs @ [ev]) k c"
proof -
  have "\<exists>E. begun s0 evs k e sn a E \<and> (P \<longrightarrow> NHandle k \<in> set E) \<Longrightarrow> \<exists>E. begun s0 (evs @ [ev]) k e sn a E \<and> (P \<longrightarrow> NHandle k \<in> set E)" for e sn a P
    using begun_more by (metis Un_iff set_append)
  then show "call_history s0 evs k c \<Longrightarrow> call_history s0 (evs @ [ev]) k c"
    unfolding call_history_def using checked_more by (auto split: proc.splits)
qed

lemma processReq_history:
  assumes "processReq ev (nw s) c = Some c'" "callOf ev = Some k" "net_run evs s0 = Some s" "call_history s0 evs k c" "call_ok c"
  shows "call_history s0 (evs @ [ev]) k c'"
proof (cases "\<exists>x y. ev = NCheck k x y")
  case True
  then obtain x y where ev: "ev = NCheck k x y" by blast
  then obtain sn a rel lr reply where p: "rcProc c = Checking sn a rel lr reply" "c' = c\<lparr>rcProc := finishReq (rcReq c) x y (nw s) (rcProc c)\<rparr>"
    using assms(1) by (auto simp: processReq_def split: proc.splits)
  have "checked s0 (evs @ [ev]) k (rqEnd (rcReq c))" if "reply = Some r" "\<not> IsServerDead (rqEnd (rcReq c)) sn a (nw s)" for r
    using that assms(3,4) p(1) ev unfolding checked_def call_history_def IsServerDead_def by fastforce
  then show ?thesis using p by (auto simp: call_history_def finishReq_def failed_def split: option.splits)
next
  case False
  note h = call_history_more [OF assms(4), of ev]
  show ?thesis
  proof (cases "rcProc c")
    case Waiting
    then obtain x where ev: "ev = NBegin k x" "rcProc c' = beginReq (rcReq c) x (nw s)" "rcReq c' = rcReq c" "rcRuns c' = rcRuns c"
      using assms(1,2) by (cases ev) (auto simp: processReq_def Let_def)
    have "rcRuns c = 0" using assms(5) Waiting by (auto simp: call_ok_defs)
    moreover have "begun s0 (evs @ [ev]) k (rqEnd (rcReq c)) sn a []" if "rcProc c' = Executing sn a rel lr" for sn a rel lr
      using that assms(3) ev(1,2) unfolding begun_def by (auto simp: beginReq_def ReadEndnameInfo_def split: option.splits if_splits)
    moreover have "(\<exists>sn a rel lr. rcProc c' = Executing sn a rel lr) \<or> rcProc c' = Sending failed \<or> rcProc c' = Delayed failed"
      unfolding ev(2) by (auto simp: beginReq_def ReadEndnameInfo_def split: option.splits)
    ultimately show ?thesis unfolding call_history_def ev(3,4) by (elim disjE exE) (auto simp: failed_def)
  qed (use h assms(1,2,5) False in \<open>cases ev; auto simp: call_history_def processReq_def timeoutReq_def call_ok_defs split: handler.splits if_splits\<close>)+
qed

lemma net_run_history:
  assumes "net_run evs s0 = Some s" "calls s0 = []" "k < length (calls s)"
  shows "call_ok (calls s ! k) \<and> call_history s0 evs k (calls s ! k)"
  using assms(1,3)
proof (induction evs arbitrary: s rule: rev_induct)
  case Nil
  then show ?case using assms(2) by simp
next
  case (snoc ev evs)
  then obtain s1 where s1: "net_run evs s0 = Some s1" "net_step ev s1 = Some s" by (auto simp: net_run_append split: option.splits)
  show ?case
  proof (cases "k < length (calls s1)")
    case False
    then show ?thesis using net_step_new [OF s1(2) snoc.prems(2)] by (simp add: call_history_def call_ok_defs)
  next
    case True
    note IH = snoc.IH [OF s1(1) True]
    have "call_history s0 (evs @ [ev]) k (calls s ! k)"
      using s1(2) True
    proof (cases rule: net_step_call)
      case 1
      then show ?thesis using IH call_history_more by metis
    next
      case 2
      then show ?thesis using processReq_history s1(1) IH by blast
    next
      case (3 a svc meth)
      then show ?thesis using IH call_history_more [of s0 evs k "calls s1 ! k" ev] by (auto simp: call_history_def split: proc.splits)
    next
      case (4 svc meth r)
      then show ?thesis using IH call_history_more [of s0 evs k "calls s1 ! k" ev] begun_more [of s0 evs k _ _ _ _ ev]
        by (fastforce simp: call_history_def call_ok_defs split: proc.splits option.splits)
    qed
    then show ?thesis using net_step_ok [OF s1(2) True] IH by blast
  qed
qed

section \<open>Theorems\<close>

text \<open>An example: one server with an echo method that counts, connected to one end.\<close>

definition echo_net :: "(nat, nat, nat, nat) NetSys" where
  "echo_net = \<lparr>nw = Enable 0 True (Connect 0 7 (AddServer 7 1 MakeNetwork)),
     heap = (\<lambda>_. AddService (MakeService ''Echo'' [\<lparr>mtName = ''Ping'', mtPkgPath = [], mtNumIn = 3, mtIn2 = Ptr,
       mtNumOut = 0, mtFunc = (\<lambda>w d. (w + 1, d))\<rparr>]) MakeServer), world = 0, calls = [], fatals = []\<rparr>"

definition echo_req :: "(nat, nat) reqMsg" where
  "echo_req = callRequest ''Echo.Ping'' 5 \<lparr>ceName = 0\<rparr>"

lemma net_run_reachable: "net_reachable s \<Longrightarrow> net_run evs s = Some s' \<Longrightarrow> net_reachable s'"
  by (induction evs arbitrary: s) (auto split: option.splits intro: net_reachable.net_more)

lemma echo_reachable: "net_reachable echo_net"
  by (rule net_reachable.net_init) (simp_all add: echo_net_def)

lemmas echo_defs = echo_net_def echo_req_def callRequest_def net_step_def processReq_def beginReq_def ReadEndnameInfo_def timeoutReq_def finishReq_def
  dispatchReq_def handleReq_def serverDispatch_def serviceDispatch_def IsServerDead_def Enable_def Connect_def AddServer_def DeleteServer_def
  MakeNetwork_def AddService_def MakeService_def MakeServer_def suitable_def failed_def

text \<open>
  C23: At most once. Whatever the network does, and however late the goroutine of the handler starts
  and ends, also after the caller was told that its call failed, the handler of one call runs at most
  once; a call that returns true has had its handler run, and decoding the reply never ends the program.
\<close>

theorem rpc_at_most_once:
  assumes "net_reachable s" "c \<in> set (calls s)"
  shows "rcRuns c \<le> 1 \<and> (\<forall>r. rcProc c = Replied r \<longrightarrow> callReturn r = Inr None \<or> (\<exists>reply. callReturn r = Inr (Some reply) \<and> rcRuns c = 1))"
proof -
  obtain k where "k < length (calls s)" "calls s ! k = c" using assms(2) by (metis in_set_conv_nth)
  then have "call_ok c" using net_reachable_ok [OF assms(1)] by blast
  then show ?thesis by (auto simp: call_ok_defs callReturn_def reply_ok_def failed_def split: handler.splits option.splits)
qed

text \<open>The caller is told that its call failed, and then the handler runs.\<close>

theorem rpc_at_most_once_witness:
  "\<exists>s c. net_run [NCall echo_req, NBegin 0 0, NConfig (DeleteServer 7 (nw echo_net)), NTimeout 0, NCheck 0 0 0, NSend 0, NDispatch 0, NHandle 0] echo_net = Some s \<and>
     calls s = [c] \<and> rcProc c = Replied failed \<and> world s = 1 \<and> rcRuns c \<le> 1"
proof -
  let ?evs = "[NCall echo_req, NBegin 0 0, NConfig (DeleteServer 7 (nw echo_net)), NTimeout 0, NCheck 0 0 0, NSend 0, NDispatch 0, NHandle 0]"
  have "\<exists>s c. net_run ?evs echo_net = Some s \<and> calls s = [c] \<and> rcProc c = Replied failed \<and> world s = 1" by (simp add: echo_defs)
  then obtain s c where s: "net_run ?evs echo_net = Some s" "calls s = [c]" "rcProc c = Replied failed" "world s = 1" by blast
  from rpc_at_most_once [OF net_run_reachable [OF echo_reachable s(1)], of c] s show ?thesis by auto
qed

text \<open>
  C24: A call that returns a positive reply began while its end was enabled and connected to a
  registered server; its handler ran after that; and at a later moment still, before the reply was
  sent, the end was enabled and the same server object was registered under the same name. So a
  server deleted or replaced while its handler ran gives no positive reply. (The reply itself may be
  delayed, and reach the caller after the server is gone.)
\<close>

theorem positive_reply_server_alive:
  assumes "net_run evs s0 = Some s" "calls s0 = []" "k < length (calls s)" "rcProc (calls s ! k) = Replied r" "rmOk r"
  shows "\<exists>evs1 x evs2 y z evs3 s1 s2 sn a. evs = evs1 @ NBegin k x # evs2 @ NCheck k y z # evs3 \<and>
    net_run evs1 s0 = Some s1 \<and> net_run (evs1 @ NBegin k x # evs2) s0 = Some s2 \<and> NHandle k \<in> set evs2 \<and>
    (let e = rqEnd (rcReq (calls s ! k)) in enabled (nw s1) e \<and> connections (nw s1) e = Some sn \<and> servers (nw s1) sn = Some a \<and>
       enabled (nw s2) e \<and> servers (nw s2) sn = Some a)"
proof -
  have "checked s0 evs k (rqEnd (rcReq (calls s ! k)))" using net_run_history [OF assms(1-3)] assms(4,5) by (simp add: call_history_def)
  then show ?thesis unfolding checked_def begun_def Let_def by fastforce
qed

text \<open>A call whose reply is delayed: the server is deleted before the caller gets it.\<close>

theorem positive_reply_server_alive_witness:
  "\<exists>s c. net_run [NCall echo_req, NConfig (LongReordering True (nw echo_net)), NBegin 0 0, NDispatch 0, NHandle 0, NTake 0, NCheck 0 0 0,
       NConfig (DeleteServer 7 (nw echo_net)), NWake 0, NSend 0] echo_net = Some s \<and> calls s = [c] \<and>
     rcProc c = Replied \<lparr>rmOk = True, rmReply = Some 5\<rparr> \<and> servers (nw s) 7 = None \<and> 
     (\<exists>evs1 x evs2 s1 s2 sn a. net_run evs1 echo_net = Some s1 \<and> net_run (evs1 @ NBegin 0 x # evs2) echo_net = Some s2 \<and> NHandle 0 \<in> set evs2 \<and>
        connections (nw s1) 0 = Some sn \<and> servers (nw s1) sn = Some a \<and> enabled (nw s2) 0 \<and> servers (nw s2) sn = Some a)"
proof -
  let ?evs = "[NCall echo_req, NConfig (LongReordering True (nw echo_net)), NBegin 0 0, NDispatch 0, NHandle 0, NTake 0, NCheck 0 0 0,
       NConfig (DeleteServer 7 (nw echo_net)), NWake 0, NSend 0]"
  have "\<exists>s c. net_run ?evs echo_net = Some s \<and> calls s = [c] \<and> rcProc c = Replied \<lparr>rmOk = True, rmReply = Some 5\<rparr> \<and> servers (nw s) 7 = None \<and> rqEnd (rcReq c) = 0"
    by (simp add: echo_defs LongReordering_def)
  then obtain s c where s: "net_run ?evs echo_net = Some s" "calls s = [c]" "rcProc c = Replied \<lparr>rmOk = True, rmReply = Some 5\<rparr>" "servers (nw s) 7 = None" "rqEnd (rcReq c) = 0"
    by blast
  have "calls echo_net = []" "0 < length (calls s)" "rcProc (calls s ! 0) = Replied \<lparr>rmOk = True, rmReply = Some 5\<rparr>" "rqEnd (rcReq (calls s ! 0)) = 0"
    using s(2,3,5) by (simp_all add: echo_net_def)
  from positive_reply_server_alive [OF s(1) this(1-3)] this(4) have "\<exists>evs1 x evs2 s1 s2 sn a. net_run evs1 echo_net = Some s1 \<and>
      net_run (evs1 @ NBegin 0 x # evs2) echo_net = Some s2 \<and> NHandle 0 \<in> set evs2 \<and>
      connections (nw s1) 0 = Some sn \<and> servers (nw s1) sn = Some a \<and> enabled (nw s2) 0 \<and> servers (nw s2) sn = Some a"
    unfolding Let_def replyMsg.simps by metis
  with s(1-4) show ?thesis by blast
qed

text \<open>
  C25: Over a reliable network, a call on an enabled end connected to a registered server, for a
  method of one of its services, runs that method once and returns its reply, and the server's
  count of incoming calls goes up by one.
\<close>

theorem reliable_call:
  assumes "reliable (nw s)" "enabled (nw s) e" "connections (nw s) e = Some sn" "servers (nw s) sn = Some a"
    "services (heap s a) svc = Some sv" "svcMethods sv meth = Some f" "CHR ''.'' \<notin> set meth" "fatals s = []"
    "k = length (calls s)" "f (world s) args = (w', r)"
  shows "\<exists>s'. net_run ([NCall (callRequest (svc @ ''.'' @ meth) args \<lparr>ceName = e\<rparr>), NBegin k x, NDispatch k, NHandle k, NTake k, NCheck k y z] @
      (if longReordering (nw s) \<and> z mod 900 < 600 then [NWake k] else []) @ [NSend k]) s = Some s' \<and>
    (\<exists>rep. rcProc (calls s' ! k) = Replied rep \<and> callReturn rep = Inr (Some r)) \<and> world s' = w' \<and>
    srvCount (heap s' a) = srvCount (heap s a) + 1"
  using assms lastDot_split [OF assms(7), of svc]
  by (auto simp: callRequest_def net_step_def processReq_def beginReq_def ReadEndnameInfo_def dispatchReq_def serverDispatch_def
      handleReq_def serviceDispatch_def finishReq_def IsServerDead_def callReturn_def)

theorem reliable_call_witness:
  "\<exists>s'. net_run [NCall (callRequest (''Echo'' @ ''.'' @ ''Ping'') 5 \<lparr>ceName = 0\<rparr>), NBegin 0 0, NDispatch 0, NHandle 0, NTake 0, NCheck 0 0 0, NSend 0] echo_net = Some s' \<and>
    (\<exists>rep. rcProc (calls s' ! 0) = Replied rep \<and> callReturn rep = Inr (Some 5)) \<and> world s' = 1 \<and>
    srvCount (heap s' 1) = srvCount (heap echo_net 1) + 1"
  using reliable_call [of echo_net 0 7 1 "''Echo''" "MakeService ''Echo'' [\<lparr>mtName = ''Ping'', mtPkgPath = [], mtNumIn = 3, mtIn2 = Ptr,
          mtNumOut = 0, mtFunc = (\<lambda>w d. (w + 1, d))\<rparr>]" "''Ping''" "\<lambda>w d. (w + 1, d)" 0 5 1 5 0 0 0]
  by (simp add: echo_net_def Enable_def Connect_def AddServer_def MakeNetwork_def AddService_def
      MakeService_def MakeServer_def suitable_def)

end
