(* ===== verification/Clerk_Loops.thy ===== *)
theory Clerk_Loops
  imports Prelude
begin

text \<open>
  The retry loops shared by all clerks of the repository: try each server in turn, return the
  first acceptable reply, otherwise start over, forever. An RPC is a function of the number of
  calls made before it and of the server; no reply is \<open>None\<close>. A loop is a partial
  function: \<open>None\<close> means that it never returns.
\<close>

datatype 'v verdict = Return 'v | NextServer | LeaveGroup

fun tryServers :: "(nat \<Rightarrow> 's \<Rightarrow> 'r option) \<Rightarrow> ('r option \<Rightarrow> 'v verdict) \<Rightarrow> 's list \<Rightarrow> nat \<Rightarrow> 'v option \<times> nat" where
  "tryServers rpc judge [] k = (None, k)"
| "tryServers rpc judge (srv # srvs) k = (case judge (rpc k srv) of
     Return v \<Rightarrow> (Some v, Suc k)
   | LeaveGroup \<Rightarrow> (None, Suc k)
   | NextServer \<Rightarrow> tryServers rpc judge srvs (Suc k))"

partial_function (option) rounds ::
  "(nat \<Rightarrow> 's \<Rightarrow> 'r option) \<Rightarrow> ('r option \<Rightarrow> 'v verdict) \<Rightarrow> 's list \<Rightarrow> nat \<Rightarrow> ('v \<times> nat) option" where
  "rounds rpc judge srvs k = (case tryServers rpc judge srvs k of
     (Some v, k') \<Rightarrow> Some (v, k')
   | (None, k') \<Rightarrow> rounds rpc judge srvs k')"

text \<open>
  A clerk of a sharded service looks up the group of the key in its configuration, tries the
  servers of the group if there is one, and asks for a new configuration before the next round.
\<close>

partial_function (option) groupRounds ::
  "(nat \<Rightarrow> 's \<Rightarrow> 'r option) \<Rightarrow> ('r option \<Rightarrow> 'v verdict) \<Rightarrow> ('c \<Rightarrow> 's list option) \<Rightarrow>
   (nat \<Rightarrow> ('c \<times> nat) option) \<Rightarrow> 'c \<Rightarrow> nat \<Rightarrow> ('v \<times> 'c \<times> nat) option" where
  "groupRounds rpc judge groupOf query cfg k =
     (case (case groupOf cfg of Some srvs \<Rightarrow> tryServers rpc judge srvs k | None \<Rightarrow> (None, k)) of
        (Some v, k') \<Rightarrow> Some (v, cfg, k')
      | (None, k') \<Rightarrow> (case query k' of None \<Rightarrow> None
          | Some (cfg', k'') \<Rightarrow> groupRounds rpc judge groupOf query cfg' k''))"

declare rounds.simps [code]
declare groupRounds.simps [code]

section \<open>One round\<close>

lemma tryServers_later: "tryServers rpc judge srvs k = (r, k') \<Longrightarrow> k \<le> k'"
proof (induction srvs arbitrary: k)
  case (Cons s srvs)
  then show ?case by (auto split: verdict.splits dest!: Cons.IH)
qed simp

lemma tryServers_return:
  assumes "tryServers rpc judge srvs k = (Some v, k')"
  obtains j s where "k \<le> j" "j < k'" "s \<in> set srvs" "judge (rpc j s) = Return v"
proof -
  have "\<exists>j s. k \<le> j \<and> j < k' \<and> s \<in> set srvs \<and> judge (rpc j s) = Return v"
    using assms
  proof (induction srvs arbitrary: k)
    case (Cons s srvs)
    show ?case
    proof (cases "judge (rpc k s)")
      case (Return x)
      then show ?thesis using Cons.prems by auto
    next
      case NextServer
      with Cons.prems have "tryServers rpc judge srvs (Suc k) = (Some v, k')" by simp
      from Cons.IH [OF this] obtain j t where "Suc k \<le> j" "j < k'" "t \<in> set srvs" "judge (rpc j t) = Return v"
        by blast
      then show ?thesis by (intro exI [of _ j] exI [of _ t]) auto
    qed (use Cons.prems in auto)
  qed simp
  with that show ?thesis by blast
qed

text \<open>Without a wrong-group answer every server is reached, one call each.\<close>

lemma tryServers_none:
  assumes "tryServers rpc judge srvs k = (None, k')" "\<And>j s. judge (rpc j s) \<noteq> LeaveGroup"
  shows "k' = k + length srvs \<and> (\<forall>i < length srvs. judge (rpc (k + i) (srvs ! i)) = NextServer)"
  using assms(1)
proof (induction srvs arbitrary: k)
  case (Cons s srvs)
  have n: "judge (rpc k s) = NextServer" using Cons.prems assms(2) [of k s] by (auto split: verdict.splits)
  with Cons.prems have "tryServers rpc judge srvs (Suc k) = (None, k')" by simp
  from Cons.IH [OF this] have
    IH: "k' = Suc k + length srvs" "\<forall>i < length srvs. judge (rpc (Suc k + i) (srvs ! i)) = NextServer"
    by blast+
  have "judge (rpc (k + i) ((s # srvs) ! i)) = NextServer" if "i < length (s # srvs)" for i
    using IH(2) n that by (cases i) auto
  with IH(1) show ?case by simp
qed simp

section \<open>The plain loop\<close>

lemma rounds_result:
  "rounds rpc judge srvs k = Some w \<Longrightarrow>
     \<exists>j s. k \<le> j \<and> j < snd w \<and> s \<in> set srvs \<and> judge (rpc j s) = Return (fst w)"
proof (induction rpc judge srvs k w rule: rounds.raw_induct [rotated, consumes 1, case_names step])
  case (step f rpc judge srvs k w)
  obtain r k1 where t: "tryServers rpc judge srvs k = (r, k1)" by force
  show ?case
  proof (cases r)
    case None
    with step(2) t have "f rpc judge srvs k1 = Some w" by simp
    from step(1) [OF this] tryServers_later [OF t] show ?thesis using order_trans by blast
  next
    case (Some u)
    with step(2) t have "w = (u, k1)" by simp
    moreover obtain j s where "k \<le> j" "j < k1" "s \<in> set srvs" "judge (rpc j s) = Return u"
      by (rule tryServers_return [OF t [unfolded Some]])
    ultimately show ?thesis by auto
  qed
qed

lemma rounds_return:
  "rounds rpc judge srvs k = Some (v, k') \<Longrightarrow>
     \<exists>j s. k \<le> j \<and> j < k' \<and> s \<in> set srvs \<and> judge (rpc j s) = Return v"
  using rounds_result by fastforce

text \<open>
  The loop returns once some server answers acceptably from some moment on, whatever the others
  do, because each round reaches it.
\<close>

lemma rounds_terminates:
  assumes "s \<in> set srvs" "\<And>j. T \<le> j \<Longrightarrow> \<exists>v. judge (rpc j s) = Return v" "\<And>j s. judge (rpc j s) \<noteq> LeaveGroup"
  shows "\<exists>v k'. rounds rpc judge srvs k = Some (v, k')"
proof (induction "T - k" arbitrary: k rule: less_induct)
  case less
  obtain r k1 where t: "tryServers rpc judge srvs k = (r, k1)" by force
  show ?case
  proof (cases r)
    case None
    from assms(1) obtain i where i: "i < length srvs" "srvs ! i = s" by (metis in_set_conv_nth)
    from tryServers_none [OF t [unfolded None] assms(3)] have
      k1: "k1 = k + length srvs" "judge (rpc (k + i) s) = NextServer" using i by auto
    then have "k + i < T" using assms(2) [of "k + i"] by (metis not_le verdict.distinct(1))
    with k1(1) i(1) less [of k1] show ?thesis using t None by (subst rounds.simps) auto
  next
    case (Some v)
    then show ?thesis using t by (subst rounds.simps) auto
  qed
qed

lemma rounds_no_servers: "rounds rpc judge [] k = None"
proof -
  have "rounds rpc judge [] k = Some (v, k') \<Longrightarrow> False" for v k'
    using rounds_return [of rpc judge "[]" k v k'] by simp
  then show ?thesis by (cases "rounds rpc judge [] k") auto
qed

section \<open>The loop over groups\<close>

lemma groupRounds_result:
  "groupRounds rpc judge groupOf query cfg k = Some w \<Longrightarrow> P cfg \<Longrightarrow>
     (\<forall>j c k'. query j = Some (c, k') \<longrightarrow> P c) \<Longrightarrow>
     P (fst (snd w)) \<and> (\<exists>j s srvs. groupOf (fst (snd w)) = Some srvs \<and> s \<in> set srvs \<and> judge (rpc j s) = Return (fst w))"
proof (induction rpc judge groupOf query cfg k w rule: groupRounds.raw_induct [rotated, consumes 1, case_names step])
  case (step f rpc judge groupOf query cfg k w)
  obtain r k1 where t: "(case groupOf cfg of Some srvs \<Rightarrow> tryServers rpc judge srvs k | None \<Rightarrow> (None, k)) = (r, k1)"
    by force
  show ?case
  proof (cases r)
    case None
    with step(2) t obtain cfg' k2 where f: "f rpc judge groupOf query cfg' k2 = Some w" "query k1 = Some (cfg', k2)"
      by (auto split: option.splits)
    with step(4) have "P cfg'" by blast
    from step(1) [OF f(1) this step(4)] show ?thesis .
  next
    case (Some u)
    with t obtain srvs where srvs: "groupOf cfg = Some srvs" "tryServers rpc judge srvs k = (Some u, k1)"
      by (auto split: option.splits)
    obtain j s where "s \<in> set srvs" "judge (rpc j s) = Return u" by (rule tryServers_return [OF srvs(2)])
    moreover have "w = (u, cfg, k1)" using step(2) t Some by simp
    ultimately show ?thesis using srvs(1) step(3) by auto
  qed
qed

text \<open>
  The loop over groups returns if from some moment on every query returns a configuration whose
  group for the key has a server that answers acceptably, and no server before it in the group's
  list answers that it is not responsible, which would end the round.
\<close>

lemma tryServers_good:
  assumes "\<forall>i \<ge> T. \<exists>v. judge (rpc i s) = Return v" "\<forall>i \<ge> T. \<forall>s' \<in> set before. judge (rpc i s') \<noteq> LeaveGroup" "T \<le> k"
  shows "\<exists>v k'. tryServers rpc judge (before @ s # after) k = (Some v, k')"
  using assms(2,3)
proof (induction before arbitrary: k)
  case Nil
  then show ?case using assms(1) by (auto split: verdict.splits)
next
  case (Cons s' before)
  then have "judge (rpc k s') \<noteq> LeaveGroup" "\<exists>v k'. tryServers rpc judge (before @ s # after) (Suc k) = (Some v, k')" by auto
  then show ?case by (cases "judge (rpc k s')") auto
qed

lemma groupRounds_terminates:
  assumes query: "\<And>j. \<exists>cfg' k'. query j = Some (cfg', k') \<and> j < k'"
    and good: "\<And>j cfg' k'. query j = Some (cfg', k') \<Longrightarrow> T \<le> j \<Longrightarrow>
      \<exists>before s after. groupOf cfg' = Some (before @ s # after) \<and> (\<forall>i \<ge> T. \<exists>v. judge (rpc i s) = Return v) \<and>
        (\<forall>i \<ge> T. \<forall>s' \<in> set before. judge (rpc i s') \<noteq> LeaveGroup)"
  shows "\<exists>w. groupRounds rpc judge groupOf query cfg k = Some w"
proof -
  let ?G = "groupRounds rpc judge groupOf query"
  have step: "(\<exists>w. ?G cfg k = Some w) \<or> (\<exists>k1 cfg' k'. k \<le> k1 \<and> query k1 = Some (cfg', k') \<and> k1 < k' \<and> ?G cfg k = ?G cfg' k')"
    for cfg k
  proof -
    obtain r k1 where t: "(case groupOf cfg of Some srvs \<Rightarrow> tryServers rpc judge srvs k | None \<Rightarrow> (None, k)) = (r, k1)"
      by force
    then have k1: "k \<le> k1" by (auto split: option.splits dest: tryServers_later)
    obtain cfg' k' where q: "query k1 = Some (cfg', k')" "k1 < k'" using query by blast
    have "?G cfg k = (case r of Some v \<Rightarrow> Some (v, cfg, k1) | None \<Rightarrow> ?G cfg' k')"
      using t q by (subst groupRounds.simps) (auto split: option.splits)
    then show ?thesis using k1 q by (cases r) auto
  qed
  have late: "\<exists>w. ?G cfg k = Some w" if "T \<le> k" for cfg k
    using step [of cfg k]
  proof (elim disjE exE conjE)
    fix k1 cfg' k' assume q: "k \<le> k1" "query k1 = Some (cfg', k')" "k1 < k'" "?G cfg k = ?G cfg' k'"
    obtain before s after where g: "groupOf cfg' = Some (before @ s # after)" "\<forall>i \<ge> T. \<exists>v. judge (rpc i s) = Return v"
      "\<forall>i \<ge> T. \<forall>s' \<in> set before. judge (rpc i s') \<noteq> LeaveGroup"
      using good [OF q(2)] q(1) \<open>T \<le> k\<close> by auto
    have "T \<le> k'" using q \<open>T \<le> k\<close> by simp
    obtain v k2 where "tryServers rpc judge (before @ s # after) k' = (Some v, k2)"
      using tryServers_good [OF g(2,3) \<open>T \<le> k'\<close>] by blast
    then have "?G cfg' k' = Some (v, cfg', k2)" using g(1) by (subst groupRounds.simps) simp
    with q(4) show ?thesis by simp
  qed blast
  show ?thesis
  proof (induction "T - k" arbitrary: cfg k rule: less_induct)
    case less
    show ?case
    proof (cases "T \<le> k")
      case False
      from step [of cfg k] show ?thesis
      proof (elim disjE exE conjE)
        fix k1 cfg' k' assume q: "k \<le> k1" "query k1 = Some (cfg', k')" "k1 < k'" "?G cfg k = ?G cfg' k'"
        then show ?thesis using False less [of k' cfg'] by simp
      qed blast
    qed (rule late)
  qed
qed

text \<open>Without a group for the key in any configuration it gets, the loop never returns.\<close>

lemma groupRounds_no_group:
  assumes "\<And>c. P c \<Longrightarrow> groupOf c = None \<or> groupOf c = Some []" "P cfg"
    "\<And>j c k'. query j = Some (c, k') \<Longrightarrow> P c"
  shows "groupRounds rpc judge groupOf query cfg k = None"
proof (rule ccontr)
  assume "groupRounds rpc judge groupOf query cfg k \<noteq> None"
  then obtain w where "groupRounds rpc judge groupOf query cfg k = Some w" by blast
  from groupRounds_result [OF this, of P] assms(2,3) assms(1) [of "fst (snd w)"] show False by auto
qed

end
