(* ===== verification/Kv_Clerk.thy ===== *)
theory Kv_Clerk
  imports Clerk_Loops Kvraft
begin

text \<open>
  The clerk of the replicated key/value service, \<open>src/mit/src/kvraft/client.go\<close>. The
  network is the parameter \<open>rpc\<close>: the number of calls made so far, the server, the method
  and the arguments give the reply, or \<open>None\<close> when the call fails. Every operation takes
  and returns the clerk and the number of calls; the value \<open>None\<close> means that the
  operation never returns.
\<close>

record 'srv Clerk =
  ckServers :: "'srv list"
  ckId :: int
  ckReqId :: int

text \<open>\<open>nrand\<close> draws an integer below \<open>2 ^ 62\<close>; \<open>r\<close> is the source of randomness.\<close>

definition nrand :: "nat \<Rightarrow> int" where
  "nrand r = int (r mod 2 ^ 62)"

definition MakeClerk :: "nat \<Rightarrow> 'srv list \<Rightarrow> 'srv Clerk" where
  "MakeClerk r srvs = \<lparr>ckServers = srvs, ckId = nrand r, ckReqId = 0\<rparr>"

definition judgeGet :: "GetReply option \<Rightarrow> string verdict" where
  "judgeGet r = (case r of Some reply \<Rightarrow> if \<not> grWrongLeader reply then Return (grValue reply) else NextServer
     | None \<Rightarrow> NextServer)"

definition judgePutAppend :: "PutAppendReply option \<Rightarrow> unit verdict" where
  "judgePutAppend r = (case r of Some reply \<Rightarrow> if \<not> parWrongLeader reply then Return () else NextServer
     | None \<Rightarrow> NextServer)"

definition clerkGet ::
  "(nat \<Rightarrow> 'srv \<Rightarrow> string \<Rightarrow> GetArgs \<Rightarrow> GetReply option) \<Rightarrow> string \<Rightarrow> 'srv Clerk \<Rightarrow> nat \<Rightarrow> (string \<times> 'srv Clerk \<times> nat) option" where
  "clerkGet rpc key ck k =
     (let args = \<lparr>gKey = key, gId = ckId ck, gReqId = ckReqId ck\<rparr>;
          ck = ck\<lparr>ckReqId := ckReqId ck + 1\<rparr> in
      case rounds (\<lambda>j c. rpc j c ''RaftKV.Get'' args) judgeGet (ckServers ck) k of
        None \<Rightarrow> None | Some (v, k) \<Rightarrow> Some (v, ck, k))"

definition clerkPutAppend ::
  "(nat \<Rightarrow> 'srv \<Rightarrow> string \<Rightarrow> PutAppendArgs \<Rightarrow> PutAppendReply option) \<Rightarrow> string \<Rightarrow> string \<Rightarrow> string \<Rightarrow>
   'srv Clerk \<Rightarrow> nat \<Rightarrow> ('srv Clerk \<times> nat) option" where
  "clerkPutAppend rpc key val op ck k =
     (let args = \<lparr>paKey = key, paValue = val, paOp = op, paId = ckId ck, paReqId = ckReqId ck\<rparr>;
          ck = ck\<lparr>ckReqId := ckReqId ck + 1\<rparr> in
      case rounds (\<lambda>j c. rpc j c ''RaftKV.PutAppend'' args) judgePutAppend (ckServers ck) k of
        None \<Rightarrow> None | Some (_, k) \<Rightarrow> Some (ck, k))"

definition clerkPut ::
  "(nat \<Rightarrow> 'srv \<Rightarrow> string \<Rightarrow> PutAppendArgs \<Rightarrow> PutAppendReply option) \<Rightarrow> string \<Rightarrow> string \<Rightarrow>
   'srv Clerk \<Rightarrow> nat \<Rightarrow> ('srv Clerk \<times> nat) option" where
  "clerkPut rpc key val = clerkPutAppend rpc key val ''Put''"

definition clerkAppend ::
  "(nat \<Rightarrow> 'srv \<Rightarrow> string \<Rightarrow> PutAppendArgs \<Rightarrow> PutAppendReply option) \<Rightarrow> string \<Rightarrow> string \<Rightarrow>
   'srv Clerk \<Rightarrow> nat \<Rightarrow> ('srv Clerk \<times> nat) option" where
  "clerkAppend rpc key val = clerkPutAppend rpc key val ''Append''"

section \<open>Lemmas\<close>

text \<open>The same on integers, whose arithmetic is on binary numerals.\<close>

lemma nrand_code [code]: "nrand r = int r mod 4611686018427387904"
  by (simp add: nrand_def zmod_int)

lemma judgeGet_Return: "judgeGet r = Return v \<longleftrightarrow> (\<exists>reply. r = Some reply \<and> \<not> grWrongLeader reply \<and> grValue reply = v)"
  by (auto simp: judgeGet_def split: option.splits)

lemma judgePutAppend_Return: "judgePutAppend r = Return v \<longleftrightarrow> (\<exists>reply. r = Some reply \<and> \<not> parWrongLeader reply)"
  by (auto simp: judgePutAppend_def split: option.splits)

lemma judge_no_leave [simp]: "judgeGet r \<noteq> LeaveGroup" "judgePutAppend r' \<noteq> LeaveGroup"
  by (auto simp: judgeGet_def judgePutAppend_def split: option.splits)

section \<open>Theorems\<close>

text \<open>
  What a clerk's \<open>Get\<close> returns is the value of a reply with \<open>WrongLeader\<close> unset
  that one of its servers sent to this request, with the clerk's identity and its current request
  number; the next request has the next number.
\<close>

theorem clerkGet_result:
  assumes "clerkGet rpc key ck k = Some (v, ck', k')"
  shows "ck' = ck\<lparr>ckReqId := ckReqId ck + 1\<rparr> \<and>
    (\<exists>j srv reply. k \<le> j \<and> j < k' \<and> srv \<in> set (ckServers ck) \<and>
       rpc j srv ''RaftKV.Get'' \<lparr>gKey = key, gId = ckId ck, gReqId = ckReqId ck\<rparr> = Some reply \<and>
       \<not> grWrongLeader reply \<and> v = grValue reply)"
  using assms by (fastforce simp: clerkGet_def Let_def judgeGet_Return split: option.splits dest: rounds_return)

definition late_leader :: "nat \<Rightarrow> nat \<Rightarrow> string \<Rightarrow> GetArgs \<Rightarrow> GetReply option" where
  "late_leader j srv meth args =
     (if j < 4 then None
      else Some \<lparr>grWrongLeader = (srv \<noteq> 3), grErr = ''OK'', grValue = gKey args @ ''!''\<rparr>)"

lemma late_leader_rounds:
  "rounds (\<lambda>j c. late_leader j c ''RaftKV.Get'' args) judgeGet [2, 3] 0 = Some (gKey args @ ''!'', 6)"
proof -
  let ?R = "rounds (\<lambda>j c. late_leader j c ''RaftKV.Get'' args) judgeGet [2, 3]"
  have "?R 0 = ?R 2" by (subst rounds.simps) (simp add: late_leader_def judgeGet_def numeral_2_eq_2)
  also have "\<dots> = ?R 4" by (subst rounds.simps) (simp add: late_leader_def judgeGet_def)
  also have "\<dots> = Some (gKey args @ ''!'', 6)" by (subst rounds.simps) (simp add: late_leader_def judgeGet_def)
  finally show ?thesis .
qed

theorem clerkGet_result_witness:
  "clerkGet late_leader ''k'' (MakeClerk 7 [2, 3]) 0 = Some (''k!'', (MakeClerk 7 [2, 3])\<lparr>ckReqId := 1\<rparr>, 6) \<and>
   (\<exists>j srv. srv \<in> {2, 3} \<and> late_leader j srv ''RaftKV.Get'' \<lparr>gKey = ''k'', gId = 7, gReqId = 0\<rparr> \<noteq> None)"
proof -
  have "clerkGet late_leader ''k'' (MakeClerk 7 [2, 3]) 0 = Some (''k!'', (MakeClerk 7 [2, 3])\<lparr>ckReqId := 1\<rparr>, 6)"
    by (simp add: clerkGet_def MakeClerk_def nrand_def late_leader_rounds)
  then show ?thesis using clerkGet_result [of late_leader "''k''" "MakeClerk 7 [2, 3]" 0]
    by (fastforce simp: MakeClerk_def nrand_def)
qed

text \<open>
  A clerk's \<open>PutAppend\<close> returns, whatever the other servers and the network do, if
  from some call on one of its servers answers its requests without \<open>WrongLeader\<close>; and then
  such a server has accepted the request.
\<close>

theorem clerkPutAppend_returns:
  assumes "srv \<in> set (ckServers ck)"
    "\<And>j. T \<le> j \<Longrightarrow> \<exists>reply. rpc j srv ''RaftKV.PutAppend''
        \<lparr>paKey = key, paValue = val, paOp = op, paId = ckId ck, paReqId = ckReqId ck\<rparr> = Some reply \<and> \<not> parWrongLeader reply"
  shows "\<exists>k'. clerkPutAppend rpc key val op ck k = Some (ck\<lparr>ckReqId := ckReqId ck + 1\<rparr>, k') \<and>
    (\<exists>j c reply. k \<le> j \<and> j < k' \<and> c \<in> set (ckServers ck) \<and> rpc j c ''RaftKV.PutAppend''
       \<lparr>paKey = key, paValue = val, paOp = op, paId = ckId ck, paReqId = ckReqId ck\<rparr> = Some reply \<and> \<not> parWrongLeader reply)"
proof -
  let ?args = "\<lparr>paKey = key, paValue = val, paOp = op, paId = ckId ck, paReqId = ckReqId ck\<rparr>"
  have "\<exists>v k'. rounds (\<lambda>j c. rpc j c ''RaftKV.PutAppend'' ?args) judgePutAppend (ckServers ck) k = Some (v, k')"
    by (rule rounds_terminates [of srv _ T]) (use assms in \<open>auto simp: judgePutAppend_Return\<close>)
  then obtain k' where r: "rounds (\<lambda>j c. rpc j c ''RaftKV.PutAppend'' ?args) judgePutAppend (ckServers ck) k = Some ((), k')"
    by auto
  with rounds_return [OF r] show ?thesis by (simp add: clerkPutAppend_def judgePutAppend_Return)
qed

theorem clerkPutAppend_returns_witness:
  "\<exists>k'. clerkPutAppend (\<lambda>j srv meth args. if srv = 3 \<and> 10 \<le> j then Some \<lparr>parWrongLeader = False, parErr = ''OK''\<rparr> else None)
     ''k'' ''v'' ''Put'' (MakeClerk 7 [2, 3 :: nat]) 0 = Some ((MakeClerk 7 [2, 3])\<lparr>ckReqId := 1\<rparr>, k')"
  using clerkPutAppend_returns [of 3 "MakeClerk 7 [2, 3 :: nat]" 10
      "\<lambda>j srv meth args. if srv = 3 \<and> 10 \<le> j then Some \<lparr>parWrongLeader = False, parErr = ''OK''\<rparr> else None"
      "''k''" "''v''" "''Put''" 0]
  by (auto simp: MakeClerk_def)

end
