(* ===== verification/Kv_Clients.thy ===== *)
theory Kv_Clients
  imports Kv_System Kv_Clerk Raft_Validity "HOL-Library.Sublist"
begin

text \<open>
  The key/value service with its clerks. A clerk makes one call at a time, numbers its requests, and
  sends a request to servers until one answers that it led and applied it. The network may deliver a
  request to any server at any time after it was issued, any number of times.
\<close>

section \<open>Clerks and servers together\<close>

datatype clientOp = OpGet string | OpPut string string | OpAppend string string

text \<open>The request a call of the clerk makes, and the clerk after numbering it.\<close>

definition clerkRequest :: "clientOp \<Rightarrow> 'srv Clerk \<Rightarrow> request \<times> 'srv Clerk" where
  "clerkRequest op ck = (case op of
     OpGet key \<Rightarrow> ReqGet \<lparr>gKey = key, gId = ckId ck, gReqId = ckReqId ck\<rparr>
   | OpPut key val \<Rightarrow> ReqPutAppend \<lparr>paKey = key, paValue = val, paOp = ''Put'', paId = ckId ck, paReqId = ckReqId ck\<rparr>
   | OpAppend key val \<Rightarrow> ReqPutAppend \<lparr>paKey = key, paValue = val, paOp = ''Append'', paId = ckId ck, paReqId = ckReqId ck\<rparr>,
   ck\<lparr>ckReqId := ckReqId ck + 1\<rparr>)"

text \<open>The replies that end the clerk's loop.\<close>

definition accepted :: "kvreply \<Rightarrow> bool" where
  "accepted reply = (case reply of RepGet r \<Rightarrow> judgeGet (Some r) \<noteq> NextServer | RepPutAppend r \<Rightarrow> judgePutAppend (Some r) \<noteq> NextServer)"

record World =
  wSys :: KvSys
  wClerk :: "nat \<Rightarrow> nat Clerk"
  wInflight :: "nat \<Rightarrow> request option"
  wIssued :: "request list"

datatype wevent =
    WIssue nat clientOp
  | WDeliver nat request
  | WReturn nat nat kvreply
  | WServer kvevent

text \<open>
  A clerk issues its next request when the call before has returned. The code does not enforce it:
  the clerk's mutex covers only the numbering, and with overlapping calls of one clerk a request
  can be dropped because a later one was applied first (\<open>late_request_dropped\<close>).
\<close>

definition world_step :: "nat \<Rightarrow> nat \<Rightarrow> wevent \<Rightarrow> World \<Rightarrow> World option" where
  "world_step n k ev w = (case ev of
     WIssue c op \<Rightarrow> if c < k \<and> wInflight w c = None then
       (let (q, ck) = clerkRequest op (wClerk w c) in
        Some (w\<lparr>wClerk := (wClerk w)(c := ck), wInflight := (wInflight w)(c := Some q), wIssued := wIssued w @ [q]\<rparr>)) else None
   | WDeliver i q \<Rightarrow> if q \<in> set (wIssued w) then map_option (\<lambda>s. w\<lparr>wSys := s\<rparr>) (kv_step n (KRequest i q) (wSys w)) else None
   | WReturn c i reply \<Rightarrow> (case wInflight w c of None \<Rightarrow> None
     | Some q \<Rightarrow> if c < k \<and> (i, q, reply) \<in> set (replies (wSys w)) \<and> accepted reply
         then Some (w\<lparr>wInflight := (wInflight w)(c := None)\<rparr>) else None)
   | WServer kev \<Rightarrow> (case kev of KRequest _ _ \<Rightarrow> None | _ \<Rightarrow> map_option (\<lambda>s. w\<lparr>wSys := s\<rparr>) (kv_step n kev (wSys w))))"

definition world_init :: "nat \<Rightarrow> (nat \<Rightarrow> nat list) \<Rightarrow> (nat \<Rightarrow> nat) \<Rightarrow> World" where
  "world_init n rnd rs = \<lparr>wSys = kv_init n rnd, wClerk = (\<lambda>c. MakeClerk (rs c) [0..<n]), wInflight = (\<lambda>_. None), wIssued = []\<rparr>"

text \<open>The identities the clerks draw are taken to be different.\<close>

inductive world_reachable :: "nat \<Rightarrow> nat \<Rightarrow> World \<Rightarrow> bool" for n k where
  world_start: "inj_on (\<lambda>c. nrand (rs c)) {..<k} \<Longrightarrow> world_reachable n k (world_init n rnd rs)"
| world_more: "world_reachable n k w \<Longrightarrow> world_step n k ev w = Some w' \<Longrightarrow> world_reachable n k w'"

text \<open>\<open>clerkRequest\<close> is what \<open>Get\<close>, \<open>Put\<close> and \<open>Append\<close> send.\<close>

lemma clerk_sends:
  "clerkGet rpc key ck k = (case clerkRequest (OpGet key) ck of
     (ReqGet args, ck) \<Rightarrow> (case rounds (\<lambda>j c. rpc j c ''RaftKV.Get'' args) judgeGet (ckServers ck) k of None \<Rightarrow> None | Some (v, k) \<Rightarrow> Some (v, ck, k))
   | _ \<Rightarrow> None)"
  "clerkPut rpc' key val ck k = (case clerkRequest (OpPut key val) ck of
     (ReqPutAppend args, ck) \<Rightarrow> (case rounds (\<lambda>j c. rpc' j c ''RaftKV.PutAppend'' args) judgePutAppend (ckServers ck) k of None \<Rightarrow> None | Some (_, k) \<Rightarrow> Some (ck, k))
   | _ \<Rightarrow> None)"
  "clerkAppend rpc' key val ck k = (case clerkRequest (OpAppend key val) ck of
     (ReqPutAppend args, ck) \<Rightarrow> (case rounds (\<lambda>j c. rpc' j c ''RaftKV.PutAppend'' args) judgePutAppend (ckServers ck) k of None \<Rightarrow> None | Some (_, k) \<Rightarrow> Some (ck, k))
   | _ \<Rightarrow> None)"
  by (simp_all add: clerkGet_def clerkPut_def clerkAppend_def clerkPutAppend_def clerkRequest_def Let_def)

section \<open>What the servers do to Raft\<close>

lemma kv_step_run:
  assumes "kv_inv n s" "2 \<le> n" "kv_step n ev s = Some s'"
  shows "\<exists>evs. sys_run n evs (rsys s) = Some (rsys s') \<and> (\<forall>i c. EStart i c \<in> set evs \<longrightarrow> (\<exists>q. ev = KRequest i q \<and> c = requestEntry q))"
proof (cases ev)
  case (KRaft rv)
  then have "sys_step n rv (rsys s) = Some (rsys s')" "\<And>i c. rv \<noteq> EStart i c" using assms(3) by (auto simp: kv_step_def split: event.splits option.splits)
  then show ?thesis by (intro exI [of _ "[rv]"]) auto
next
  case (KRequest i q)
  then have "sys_step n (EStart i (requestEntry q)) (rsys s) = Some (rsys s')"
    using assms(3) by (auto simp: kv_step_def kvRequest_def sys_step_def AppendLog_Start split: sum.splits prod.splits option.splits if_splits)
  then show ?thesis using KRequest by (intro exI [of _ "[EStart i (requestEntry q)]"]) auto
next
  case (KApply i)
  then obtain r' where r': "sys_step n (EApply i) (rsys s) = Some r'" using assms(3) by (auto simp: kv_step_def kvApply_def split: option.splits)
  have i: "i < n" using r' by (auto simp: sys_step_def split: if_splits)
  obtain kv' where kv': "getApplyAll (map snd (drop (length (applied (rsys s))) (applied r'))) (kvs s i) = Inr kv'"
    using server_ok_apply [OF _ assms(2) r' i] assms(1) i unfolding kv_inv_def by metis
  then have "rsys s' = r'" using KApply assms(3) r' by (auto simp: kv_step_def kvApply_def)
  then show ?thesis using r' by (intro exI [of _ "[EApply i]"]) auto
next
  case (KFinish p t)
  then have "rsys s' = rsys s" using assms(3) by (auto simp: kv_step_def kvFinish_def Let_def split: if_splits option.splits prod.splits)
  then show ?thesis by (intro exI [of _ "[]"]) auto
next
  case (KRestart i rnd)
  then have "sys_step n (ERestart i rnd) (rsys s) = Some (rsys s')" using assms(3) by (auto simp: kv_step_def split: option.splits)
  then show ?thesis by (intro exI [of _ "[ERestart i rnd]"]) auto
qed

section \<open>Views of the past\<close>

text \<open>
  A view is what some peer had handed over at some moment of the run; every later view of any peer
  agrees with it as far as both reach.
\<close>

definition past_view :: "nat \<Rightarrow> 'c Sys \<Rightarrow> 'c list \<Rightarrow> bool" where
  "past_view n s K \<longleftrightarrow> (\<exists>s1 j evs. reachable n s1 \<and> j < n \<and> sys_run n evs s1 = Some s \<and> K = handed_over n s1 j)"

lemma past_view_now: "reachable n s \<Longrightarrow> i < n \<Longrightarrow> past_view n s (handed_over n s i)"
  unfolding past_view_def by (intro exI [of _ s] exI [of _ i] exI [of _ "[]"]) simp

lemma past_view_later: "past_view n s K \<Longrightarrow> sys_run n evs s = Some s' \<Longrightarrow> past_view n s' K"
  unfolding past_view_def by (metis (no_types, lifting) sys_run_append option.simps(5))

lemma past_view_agrees:
  assumes "past_view n s K" "2 \<le> n" "i < n" "p < length K" "p < length (handed_over n s i)"
  shows "handed_over n s i ! p = K ! p"
proof -
  obtain s1 j evs where s1: "reachable n s1" "j < n" "sys_run n evs s1 = Some s" "K = handed_over n s1 j"
    using assms(1) unfolding past_view_def by blast
  have r: "reachable n s" by (rule sys_run_reachable [OF s1(1,3)])
  have p: "Suc p \<le> lastApplied (node s1 j)" "Suc p \<le> lastApplied (node s i)"
    using assms(4,5) handed_over_length [OF s1(1) assms(2) s1(2)] handed_over_length [OF r assms(2,3)] s1(4) by simp_all
  have "take (Suc (Suc p)) (log (node s1 j)) = take (Suc (Suc p)) (log (node s i))"
    by (rule committed_prefix_agree [OF s1(1) assms(2) s1(3,2) assms(3)])
      (use p reachable_peer(2) [OF s1(1) assms(2) s1(2)] reachable_peer(2) [OF r assms(2,3)] in simp_all)
  then have "log (node s1 j) ! Suc p = log (node s i) ! Suc p" using take_Suc_eq_nth by blast
  then show ?thesis using p s1 r assms(2,3) by (simp add: handed_over_def del: upt_Suc)
qed

section \<open>Order\<close>

lemma inOrder_nth:
  "inOrder seen ops \<longleftrightarrow> (\<forall>p < length ops. ops ! p \<in> set seen \<union> set (take p ops) \<or>
     (\<forall>x \<in> set seen \<union> set (take p ops). opId x = opId (ops ! p) \<longrightarrow> opReqId x < opReqId (ops ! p)))"
proof (induction ops arbitrary: seen)
  case (Cons op ops)
  show ?case unfolding inOrder.simps Cons.IH length_Cons All_less_Suc2 by simp
qed simp

text \<open>
  A list of operations is in order if, whenever an operation comes after a later-numbered one of its
  client, it is settled: some view contains it and no later-numbered operation of the client.
\<close>

lemma inOrder_settled:
  assumes "2 \<le> n" "i < n" "L = handed_over n s i"
    "\<And>x e. x \<in> set L \<Longrightarrow> e \<in> set L \<Longrightarrow> opId x = opId e \<Longrightarrow> opReqId x = opReqId e \<Longrightarrow> x = e"
    "\<And>x e. x \<in> set L \<Longrightarrow> e \<in> set L \<Longrightarrow> opId x = opId e \<Longrightarrow> opReqId e < opReqId x \<Longrightarrow>
       \<exists>K. past_view n s K \<and> e \<in> set K \<and> x \<notin> set K"
  shows "inOrder [] L"
proof -
  have "opReqId x < opReqId (L ! p)" if p: "p < length L" "L ! p \<notin> set (take p L)" "x \<in> set (take p L)" "opId x = opId (L ! p)" for p x
  proof (rule ccontr)
    assume "\<not> opReqId x < opReqId (L ! p)"
    moreover have x: "x \<in> set L" "x \<noteq> L ! p" using p(2,3) by (auto dest: in_set_takeD)
    ultimately have "opReqId (L ! p) < opReqId x" using assms(4) [OF x(1) nth_mem [OF p(1)] p(4)] by linarith
    then obtain K where K: "past_view n s K" "L ! p \<in> set K" "x \<notin> set K" using assms(5) [OF x(1) nth_mem [OF p(1)] p(4)] by blast
    obtain m where m: "m < length K" "K ! m = L ! p" using K(2) by (metis in_set_conv_nth)
    obtain p' where p': "p' < p" "L ! p' = x" using p(1,3) by (auto simp: in_set_conv_nth)
    have agree: "q < length K \<Longrightarrow> q < length L \<Longrightarrow> L ! q = K ! q" for q using past_view_agrees [OF K(1) assms(1,2)] assms(3) by simp
    have "p \<le> m"
    proof (rule ccontr)
      assume "\<not> p \<le> m"
      then have "L ! m = L ! p" "m < p" using agree [OF m(1)] m(2) p(1) by simp_all
      then show False using p(1,2) by (metis in_set_conv_nth length_take min.absorb4 nth_take)
    qed
    then have "K ! p' = x" "p' < length K" using agree [of p'] p' p(1) m(1) by simp_all
    then show False using K(3) by auto
  qed
  then show ?thesis unfolding inOrder_nth by auto
qed

section \<open>The invariant\<close>

lemma accepted_answer: "answer q ok kv = (reply, kv') \<Longrightarrow> accepted reply \<Longrightarrow> ok"
  by (cases q) (auto simp: answer_def accepted_def finishGet_def finishPutAppend_def judgeGet_def judgePutAppend_def split: if_splits prod.splits)

text \<open>
  A server only accepts a request whose operation it has applied, and answers a \<open>Get\<close> from its
  database.
\<close>

definition applied_reply :: "nat \<Rightarrow> KvSys \<Rightarrow> nat \<Rightarrow> request \<Rightarrow> kvreply \<Rightarrow> bool" where
  "applied_reply n s j q reply \<longleftrightarrow> j < n \<and> requestEntry q \<in> set (handed_over n (rsys s) j) \<and>
     (\<forall>a r. q = ReqGet a \<longrightarrow> reply = RepGet r \<longrightarrow> grValue r = dbGet (gKey a) (db (kvs s j)))"

lemma answer_value:
  "answer (ReqGet a) True kv = (RepGet r, kv') \<Longrightarrow> grValue r = dbGet (gKey a) (db kv)"
  by (auto simp: answer_def finishGet_def)

lemma kvFinish_reply:
  assumes "kv_inv n s" "kvFinish p t s = Some s'" "\<forall>x \<in> set (pending s). fst x < n"
  obtains j q reply where "replies s' = replies s @ [(j, q, reply)]" "accepted reply \<Longrightarrow> applied_reply n s j q reply"
proof -
  obtain j idx q where p: "p < length (pending s)" "pending s ! p = (j, idx, q)"
    using assms(2) by (cases "pending s ! p") (auto simp: kvFinish_def split: if_splits)
  obtain ok kv reply kv' where k: "awaitLog idx (requestEntry q) t (kvs s j) = Some (ok, kv)" "answer q ok kv = (reply, kv')"
    "replies s' = replies s @ [(j, q, reply)]"
    using assms(2) p by (auto simp: kvFinish_def Let_def split: if_splits option.splits prod.splits)
  have j: "j < n" using assms(3) p nth_mem [of p "pending s"] by force
  have srv: "server_ok n (rsys s) (raced s) j (kvs s j)" using assms(1) j by (simp add: kv_inv_def)
  have "applied_reply n s j q reply" if "accepted reply"
  proof -
    have ok: "ok" using accepted_answer [OF k(2) that] .
    then have res: "result (kvs s j) idx = Some [requestEntry q]" "db kv = db (kvs s j)" using awaitLog_cases [OF _ k(1)] srv by (auto simp: server_ok_def)
    then have h: "0 < idx" "idx \<le> length (handed_over n (rsys s) j)" "handed_over n (rsys s) j ! (idx - 1) = requestEntry q"
      using srv unfolding server_ok_def chans_committed_def by blast+
    then have "idx - 1 < length (handed_over n (rsys s) j)" by linarith
    from nth_mem [OF this] have "requestEntry q \<in> set (handed_over n (rsys s) j)" unfolding h(3) .
    moreover have "grValue r = dbGet (gKey a) (db (kvs s j))" if "q = ReqGet a" "reply = RepGet r" for a r
      using answer_value [of a kv r kv'] k(2) ok that res(2) by simp
    ultimately show ?thesis using j by (simp add: applied_reply_def)
  qed
  then show ?thesis using that k(3) by blast
qed

lemma kv_step_replies:
  assumes "kv_inv n s" "kv_step n ev s = Some s'" "\<forall>x \<in> set (pending s). fst x < n"
  shows "\<forall>x \<in> set (pending s'). fst x < n"
    "(i, q, reply) \<in> set (replies s') \<Longrightarrow> accepted reply \<Longrightarrow>
      (i, q, reply) \<in> set (replies s) \<or> applied_reply n s i q reply"
proof -
  show "\<forall>x \<in> set (pending s'). fst x < n" using assms(2,3)
    by (cases ev) (auto simp: kv_step_def kvRequest_def kvApply_def kvFinish_def Let_def
        split: event.splits option.splits if_splits sum.splits prod.splits, (fastforce dest: in_set_takeD in_set_dropD)+)
  assume r: "(i, q, reply) \<in> set (replies s')" "accepted reply"
  show "(i, q, reply) \<in> set (replies s) \<or> applied_reply n s i q reply"
  proof (cases ev)
    case (KFinish p t)
    then have "kvFinish p t s = Some s'" using assms(2) by (simp add: kv_step_def)
    from kvFinish_reply [OF assms(1) this assms(3)] r show ?thesis by (metis Un_iff empty_iff empty_set list.set_intros(1) prod.inject set_ConsD set_append)
  next
    case (KRequest j q')
    then have "\<exists>kv. replies s' = replies s \<or> replies s' = replies s @ [(j, q', fst (answer q' False kv))]"
      using assms(2) by (auto simp: kv_step_def kvRequest_def split: if_splits sum.splits option.splits)
    moreover have "\<not> accepted (fst (answer q' False kv))" for kv using accepted_answer [of q' False kv] by (metis prod.collapse)
    ultimately show ?thesis using r by auto
  qed (use r assms(2) in \<open>auto simp: kv_step_def kvApply_def split: event.splits option.splits sum.splits\<close>)
qed

definition entries :: "World \<Rightarrow> Op set" where
  "entries w = requestEntry ` set (wIssued w)"

text \<open>The clerks: who issued an operation, and that its number identifies it.\<close>

definition clerks_ok :: "nat \<Rightarrow> World \<Rightarrow> bool" where
  "clerks_ok k w \<longleftrightarrow> inj_on (\<lambda>c. ckId (wClerk w c)) {..<k} \<and>
     (\<forall>e \<in> entries w. \<exists>c < k. opId e = ckId (wClerk w c) \<and> opReqId e < ckReqId (wClerk w c)) \<and>
     (\<forall>e \<in> entries w. \<forall>x \<in> entries w. opId e = opId x \<longrightarrow> opReqId e = opReqId x \<longrightarrow> e = x) \<and>
     (\<forall>c < k. \<forall>q. wInflight w c = Some q \<longrightarrow> q \<in> set (wIssued w) \<and>
        opId (requestEntry q) = ckId (wClerk w c) \<and> opReqId (requestEntry q) = ckReqId (wClerk w c) - 1)"

text \<open>The number up to which the calls of a clerk have returned.\<close>

definition returned :: "World \<Rightarrow> nat \<Rightarrow> int" where
  "returned w c = ckReqId (wClerk w c) - (if wInflight w c = None then 0 else 1)"

definition settled :: "nat \<Rightarrow> Op Sys \<Rightarrow> Op set \<Rightarrow> Op \<Rightarrow> bool" where
  "settled n s E e \<longleftrightarrow> (\<exists>K. past_view n s K \<and> e \<in> set K \<and> set K \<subseteq> E \<and> (\<forall>x \<in> set K. opId x = opId e \<longrightarrow> opReqId x \<le> opReqId e))"

definition served_ok :: "nat \<Rightarrow> nat \<Rightarrow> World \<Rightarrow> bool" where
  "served_ok n k w \<longleftrightarrow> kv_inv n (wSys w) \<and> sys_cmds (\<lambda>e. e \<in> entries w) n (rsys (wSys w)) \<and> (\<forall>x \<in> set (pending (wSys w)). fst x < n) \<and>
     (\<forall>e \<in> entries w. \<forall>c < k. opId e = ckId (wClerk w c) \<longrightarrow> opReqId e < returned w c \<longrightarrow> settled n (rsys (wSys w)) (entries w) e) \<and>
     (\<forall>i q reply. (i, q, reply) \<in> set (replies (wSys w)) \<longrightarrow> accepted reply \<longrightarrow>
        (\<exists>K. past_view n (rsys (wSys w)) K \<and> requestEntry q \<in> set K \<and> set K \<subseteq> entries w))"

lemma settled_mono: "settled n s E e \<Longrightarrow> E \<subseteq> E' \<Longrightarrow> settled n s E' e"
  unfolding settled_def by blast

lemma settled_later: "settled n s E e \<Longrightarrow> sys_run n evs s = Some s' \<Longrightarrow> settled n s' E e"
  unfolding settled_def using past_view_later by blast

lemma clerks_okD:
  assumes "clerks_ok k w"
  shows "c < k \<Longrightarrow> c' < k \<Longrightarrow> ckId (wClerk w c) = ckId (wClerk w c') \<Longrightarrow> c = c'"
    "e \<in> entries w \<Longrightarrow> \<exists>c < k. opId e = ckId (wClerk w c) \<and> opReqId e < ckReqId (wClerk w c)"
    "e \<in> entries w \<Longrightarrow> c < k \<Longrightarrow> opId e = ckId (wClerk w c) \<Longrightarrow> opReqId e < ckReqId (wClerk w c)"
    "e \<in> entries w \<Longrightarrow> x \<in> entries w \<Longrightarrow> opId e = opId x \<Longrightarrow> opReqId e = opReqId x \<Longrightarrow> e = x"
    "c < k \<Longrightarrow> wInflight w c = Some q \<Longrightarrow> requestEntry q \<in> entries w \<and> opId (requestEntry q) = ckId (wClerk w c) \<and> opReqId (requestEntry q) = ckReqId (wClerk w c) - 1"
proof -
  note a = assms [unfolded clerks_ok_def]
  show inj: "c < k \<Longrightarrow> c' < k \<Longrightarrow> ckId (wClerk w c) = ckId (wClerk w c') \<Longrightarrow> c = c'" for c c'
    using a inj_onD [of "\<lambda>c. ckId (wClerk w c)" "{..<k}" c c'] by simp
  show ex: "e \<in> entries w \<Longrightarrow> \<exists>c < k. opId e = ckId (wClerk w c) \<and> opReqId e < ckReqId (wClerk w c)" using a by simp
  show "e \<in> entries w \<Longrightarrow> c < k \<Longrightarrow> opId e = ckId (wClerk w c) \<Longrightarrow> opReqId e < ckReqId (wClerk w c)" using ex inj by metis
  show "e \<in> entries w \<Longrightarrow> x \<in> entries w \<Longrightarrow> opId e = opId x \<Longrightarrow> opReqId e = opReqId x \<Longrightarrow> e = x" using a by blast
  show "c < k \<Longrightarrow> wInflight w c = Some q \<Longrightarrow> requestEntry q \<in> entries w \<and> opId (requestEntry q) = ckId (wClerk w c) \<and> opReqId (requestEntry q) = ckReqId (wClerk w c) - 1"
    using a by (simp add: entries_def)
qed

lemma served_okD:
  assumes "served_ok n k w"
  shows "kv_inv n (wSys w)" "sys_cmds (\<lambda>e. e \<in> entries w) n (rsys (wSys w))" "\<forall>x \<in> set (pending (wSys w)). fst x < n" "reachable n (rsys (wSys w))"
    "e \<in> entries w \<Longrightarrow> c < k \<Longrightarrow> opId e = ckId (wClerk w c) \<Longrightarrow> opReqId e < returned w c \<Longrightarrow> settled n (rsys (wSys w)) (entries w) e"
    "(i, q, reply) \<in> set (replies (wSys w)) \<Longrightarrow> accepted reply \<Longrightarrow> \<exists>K. past_view n (rsys (wSys w)) K \<and> requestEntry q \<in> set K \<and> set K \<subseteq> entries w"
  using assms unfolding served_ok_def by (blast, blast, blast, (simp add: kv_inv_def), blast, blast)

lemma server_event:
  assumes "served_ok n k w" "2 \<le> n" "kv_step n kev (wSys w) = Some s'" "\<And>i q. kev = KRequest i q \<Longrightarrow> q \<in> set (wIssued w)"
  shows "served_ok n k (w\<lparr>wSys := s'\<rparr>)"
proof -
  note inv = served_okD [OF assms(1)]
  obtain evs where evs: "sys_run n evs (rsys (wSys w)) = Some (rsys s')"
    "\<And>i c. EStart i c \<in> set evs \<Longrightarrow> \<exists>q. kev = KRequest i q \<and> c = requestEntry q" using kv_step_run [OF inv(1) assms(2,3)] by blast
  have e: "entries (w\<lparr>wSys := s'\<rparr>) = entries w" "returned (w\<lparr>wSys := s'\<rparr>) = returned w" by (simp_all add: entries_def returned_def fun_eq_iff)
  have "sys_cmds (\<lambda>e. e \<in> entries w) n (rsys s')"
    by (rule sys_run_cmds [OF inv(4) assms(2) inv(2) evs(1)]) (unfold entries_def, use evs(2) assms(4) in blast)
  moreover have "\<exists>K. past_view n (rsys s') K \<and> requestEntry q \<in> set K \<and> set K \<subseteq> entries w"
    if r: "(i, q, reply) \<in> set (replies s')" "accepted reply" for i q reply
    using kv_step_replies(2) [OF inv(1) assms(3) inv(3) r]
  proof
    assume "(i, q, reply) \<in> set (replies (wSys w))"
    then show ?thesis using inv(6) r(2) past_view_later [OF _ evs(1)] by blast
  next
    assume "applied_reply n (wSys w) i q reply"
    then have h: "i < n \<and> requestEntry q \<in> set (handed_over n (rsys (wSys w)) i)" by (simp add: applied_reply_def)
    then show ?thesis using past_view_later [OF past_view_now [OF inv(4)] evs(1)] handed_over_cmds [OF inv(2)] by blast
  qed
  ultimately show ?thesis unfolding served_ok_def e
    using kv_inv_step [OF inv(1) assms(2,3)] kv_step_replies(1) [OF inv(1) assms(3) inv(3)] inv(5) settled_later [OF _ evs(1)] by simp
qed

lemma sys_cmds_mono: "sys_cmds P n s \<Longrightarrow> (\<And>c. P c \<Longrightarrow> Q c) \<Longrightarrow> sys_cmds Q n s"
  by (fastforce simp: sys_cmds_def peer_cmds_def msg_cmds_def cmds_def split: Body.splits)

text \<open>A call gets the next number of its clerk, which no operation has yet.\<close>

lemma clerkRequest_entry:
  assumes "clerkRequest op ck = (q, ck')"
  shows "opId (requestEntry q) = ckId ck" "opReqId (requestEntry q) = ckReqId ck" "ckId ck' = ckId ck" "ckReqId ck' = ckReqId ck + 1"
  using assms by (auto simp: clerkRequest_def requestEntry_def getEntry_def putAppendEntry_def split: clientOp.splits)

lemma issue_event:
  assumes "clerks_ok k w" "served_ok n k w" "c < k" "wInflight w c = None" "clerkRequest op (wClerk w c) = (q, ck)"
    "w' = w\<lparr>wClerk := (wClerk w)(c := ck), wInflight := (wInflight w)(c := Some q), wIssued := wIssued w @ [q]\<rparr>"
  shows "clerks_ok k w'" "served_ok n k w'"
proof -
  note cl = clerks_okD [OF assms(1)] and sv = served_okD [OF assms(2)] and q = clerkRequest_entry [OF assms(5)]
  have ent: "entries w' = insert (requestEntry q) (entries w)" by (auto simp: assms(6) entries_def)
  have ids: "ckId (wClerk w' d) = ckId (wClerk w d)" "ckReqId (wClerk w' d) = ckReqId (wClerk w d) + (if d = c then 1 else 0)"
    "returned w' d = returned w d" for d using q assms(4) by (simp_all add: assms(6) returned_def)
  have new: "e \<noteq> requestEntry q" "opId e = opId (requestEntry q) \<Longrightarrow> opReqId e < opReqId (requestEntry q)" if "e \<in> entries w" for e
    using cl(3) [OF that assms(3)] q(1,2) by auto
  show "clerks_ok k w'" unfolding clerks_ok_def ent ids
  proof (intro conjI ballI allI impI)
    show "inj_on (\<lambda>c. ckId (wClerk w c)) {..<k}" using assms(1) by (simp add: clerks_ok_def)
    fix e assume e: "e \<in> insert (requestEntry q) (entries w)"
    show "\<exists>d < k. opId e = ckId (wClerk w d) \<and> opReqId e < ckReqId (wClerk w d) + (if d = c then 1 else 0)"
    proof (cases "e \<in> entries w")
      case True
      then show ?thesis using cl(2) by force
    next
      case False
      then show ?thesis using e q assms(3) by auto
    qed
    fix x assume x: "x \<in> insert (requestEntry q) (entries w)" "opId e = opId x" "opReqId e = opReqId x"
    show "e = x" using e x cl(4) new(2) by (metis insert_iff less_irrefl)
  next
    fix d r assume d: "d < k" "wInflight w' d = Some r"
    show "r \<in> set (wIssued w')" "opId (requestEntry r) = ckId (wClerk w d)"
      "opReqId (requestEntry r) = ckReqId (wClerk w d) + (if d = c then 1 else 0) - 1"
      using d cl(5) [OF d(1), of r] q assms(1) by (auto simp: assms(6) clerks_ok_def split: if_splits)
  qed
  have "settled n (rsys (wSys w)) (entries w') e" if "e \<in> entries w'" "d < k" "opId e = ckId (wClerk w d)" "opReqId e < returned w d" for e d
  proof -
    have "e \<noteq> requestEntry q" using that(2-4) q(1,2) cl(1) [OF that(2) assms(3)] assms(4) by (auto simp: returned_def)
    then show ?thesis using settled_mono [OF sv(5) [of e d], of "entries w'"] that by (auto simp: ent)
  qed
  moreover have "sys_cmds (\<lambda>e. e \<in> entries w') n (rsys (wSys w))" using sys_cmds_mono [OF sv(2)] by (simp add: ent)
  moreover have "\<exists>K. past_view n (rsys (wSys w)) K \<and> requestEntry r \<in> set K \<and> set K \<subseteq> entries w'"
    if "(i, r, reply) \<in> set (replies (wSys w))" "accepted reply" for i r reply using sv(6) [OF that] unfolding ent by blast
  moreover have "wSys w' = wSys w" by (simp add: assms(6))
  ultimately show "served_ok n k w'" unfolding served_ok_def ids using sv(1,3) by simp
qed

text \<open>When a call returns, its operation is settled.\<close>

lemma return_event:
  assumes "clerks_ok k w" "served_ok n k w" "c < k" "wInflight w c = Some q" "(i, q, reply) \<in> set (replies (wSys w))" "accepted reply"
    "w' = w\<lparr>wInflight := (wInflight w)(c := None)\<rparr>"
  shows "clerks_ok k w'" "served_ok n k w'"
proof -
  note cl = clerks_okD [OF assms(1)] and sv = served_okD [OF assms(2)]
  have same: "entries w' = entries w" "wClerk w' = wClerk w" "wSys w' = wSys w" "wIssued w' = wIssued w" by (simp_all add: assms(7) entries_def)
  have ret: "returned w' d = (if d = c then ckReqId (wClerk w c) else returned w d)" for d by (simp add: assms(7) returned_def)
  show "clerks_ok k w'" using assms(1) unfolding clerks_ok_def same by (simp add: assms(7))
  note q = cl(5) [OF assms(3,4)]
  obtain K where K: "past_view n (rsys (wSys w)) K" "requestEntry q \<in> set K" "set K \<subseteq> entries w" using sv(6) [OF assms(5,6)] by blast
  have "opReqId x \<le> opReqId (requestEntry q)" if "x \<in> set K" "opId x = opId (requestEntry q)" for x
    using cl(3) [of x c] K(3) that q assms(3) by force
  then have settled: "settled n (rsys (wSys w)) (entries w) (requestEntry q)" using K unfolding settled_def by blast
  have "settled n (rsys (wSys w)) (entries w) e" if e: "e \<in> entries w" "d < k" "opId e = ckId (wClerk w d)" "opReqId e < returned w' d" for e d
  proof (cases "d = c \<and> opReqId e = ckReqId (wClerk w c) - 1")
    case True
    then have "e = requestEntry q" using cl(4) [OF e(1)] q e(3) by simp
    then show ?thesis using settled by simp
  next
    case False
    moreover have "returned w c = ckReqId (wClerk w c) - 1" using assms(4) by (simp add: returned_def)
    ultimately have "opReqId e < returned w d" using e(4) unfolding ret by (auto split: if_splits)
    then show ?thesis by (rule sv(5) [OF e(1-3)])
  qed
  then show "served_ok n k w'" using assms(2) unfolding served_ok_def same by simp
qed

lemma world_step_ok:
  assumes "clerks_ok k w" "served_ok n k w" "2 \<le> n" "world_step n k ev w = Some w'"
  shows "clerks_ok k w' \<and> served_ok n k w'"
proof -
  have clerks: "clerks_ok k (w\<lparr>wSys := s\<rparr>)" for s using assms(1) by (simp add: clerks_ok_def entries_def)
  show ?thesis
  proof (cases ev)
    case (WIssue c op)
    obtain q ck where q: "clerkRequest op (wClerk w c) = (q, ck)" by fastforce
    then have "c < k" "wInflight w c = None"
      "w' = w\<lparr>wClerk := (wClerk w)(c := ck), wInflight := (wInflight w)(c := Some q), wIssued := wIssued w @ [q]\<rparr>"
      using WIssue assms(4) by (auto simp: world_step_def split: if_splits)
    from issue_event [OF assms(1,2) this(1,2) q this(3)] show ?thesis by blast
  next
    case (WDeliver i q)
    then obtain s' where s': "q \<in> set (wIssued w)" "kv_step n (KRequest i q) (wSys w) = Some s'" "w' = w\<lparr>wSys := s'\<rparr>"
      using assms(4) by (auto simp: world_step_def split: if_splits)
    have "served_ok n k w'" unfolding s'(3) by (rule server_event [OF assms(2,3) s'(2)]) (use s'(1) in simp)
    then show ?thesis using clerks s'(3) by simp
  next
    case (WReturn c i reply)
    then obtain q where "c < k" "wInflight w c = Some q" "(i, q, reply) \<in> set (replies (wSys w))" "accepted reply"
      "w' = w\<lparr>wInflight := (wInflight w)(c := None)\<rparr>" using assms(4) by (auto simp: world_step_def split: option.splits if_splits)
    from return_event [OF assms(1,2) this] show ?thesis by blast
  next
    case (WServer kev)
    then obtain s' where s': "kv_step n kev (wSys w) = Some s'" "w' = w\<lparr>wSys := s'\<rparr>" "\<And>i q. kev \<noteq> KRequest i q"
      using assms(4) by (auto simp: world_step_def split: kvevent.splits)
    have "served_ok n k w'" unfolding s'(2) by (rule server_event [OF assms(2,3) s'(1)]) (use s'(3) in simp)
    then show ?thesis using clerks s'(2) by simp
  qed
qed

lemma world_reachable_ok:
  assumes "world_reachable n k w" "2 \<le> n"
  shows "clerks_ok k w \<and> served_ok n k w"
  using assms(1)
proof induction
  case (world_start rs rnd)
  have "kv_inv n (kv_init n rnd)" by (rule kv_reachable_inv [OF kv_reachable.kv_init assms(2)])
  moreover have "rsys (kv_init n rnd) = init_sys n rnd" "pending (kv_init n rnd) = []" "replies (kv_init n rnd) = []" by (simp_all add: kv_init_def)
  ultimately show ?case using world_start
    by (simp add: clerks_ok_def served_ok_def world_init_def entries_def MakeClerk_def init_cmds)
next
  case (world_more w ev w')
  then show ?case using world_step_ok assms(2) by blast
qed

lemma world_in_order:
  assumes "world_reachable n k w" "2 \<le> n" "i < n"
  shows "inOrder [] (handed_over n (rsys (wSys w)) i)" "set (handed_over n (rsys (wSys w)) i) \<subseteq> entries w"
proof -
  have ok: "clerks_ok k w" "served_ok n k w" using world_reachable_ok [OF assms(1,2)] by blast+
  note cl = clerks_okD [OF ok(1)] and sv = served_okD [OF ok(2)]
  show sub: "set (handed_over n (rsys (wSys w)) i) \<subseteq> entries w" using handed_over_cmds [OF sv(2)] by blast
  show "inOrder [] (handed_over n (rsys (wSys w)) i)"
  proof (rule inOrder_settled [OF assms(2,3) refl])
    fix x e assume "x \<in> set (handed_over n (rsys (wSys w)) i)" "e \<in> set (handed_over n (rsys (wSys w)) i)" and id: "opId x = opId e"
    then have xe: "x \<in> entries w" "e \<in> entries w" using sub by blast+
    show "opReqId x = opReqId e \<Longrightarrow> x = e" using cl(4) [OF xe id] .
    assume lt: "opReqId e < opReqId x"
    obtain c where c: "c < k" "opId x = ckId (wClerk w c)" "opReqId x < ckReqId (wClerk w c)" using cl(2) [OF xe(1)] by blast
    then have "opReqId e < returned w c" using lt by (simp add: returned_def)
    then have "settled n (rsys (wSys w)) (entries w) e" using sv(5) [OF xe(2) c(1)] c(2) id by simp
    then show "\<exists>K. past_view n (rsys (wSys w)) K \<and> e \<in> set K \<and> x \<notin> set K" using lt id unfolding settled_def by fastforce
  qed
qed

text \<open>A call that has returned.\<close>

definition call_over :: "nat \<Rightarrow> World \<Rightarrow> request \<Rightarrow> bool" where
  "call_over k w q \<longleftrightarrow> q \<in> set (wIssued w) \<and> (\<forall>c < k. \<forall>r. wInflight w c = Some r \<longrightarrow> requestEntry r \<noteq> requestEntry q)"

lemma returned_settled:
  assumes "world_reachable n k w" "2 \<le> n" "call_over k w q"
  shows "settled n (rsys (wSys w)) (entries w) (requestEntry q)"
proof -
  have ok: "clerks_ok k w" "served_ok n k w" using world_reachable_ok [OF assms(1,2)] by blast+
  note cl = clerks_okD [OF ok(1)] and sv = served_okD [OF ok(2)]
  have e: "requestEntry q \<in> entries w" using assms(3) by (simp add: entries_def call_over_def)
  obtain c where c: "c < k" "opId (requestEntry q) = ckId (wClerk w c)" "opReqId (requestEntry q) < ckReqId (wClerk w c)" using cl(2) [OF e] by blast
  have "opReqId (requestEntry q) < returned w c"
    using c assms(3) cl(4) [OF e, of "requestEntry (the (wInflight w c))"] cl(5) [OF c(1)]
    by (cases "wInflight w c") (force simp: returned_def call_over_def)+
  then show ?thesis by (rule sv(5) [OF e c(1,2)])
qed

section \<open>Reads\<close>

definition world_leads :: "nat \<Rightarrow> nat \<Rightarrow> World \<Rightarrow> World \<Rightarrow> bool" where
  "world_leads n k = (\<lambda>w w'. \<exists>ev. world_step n k ev w = Some w')\<^sup>*\<^sup>*"

text \<open>
  \<open>read_from\<close>: a \<open>Get\<close> was answered with the value its key has after the operations of
  a view that contains the \<open>Get\<close> itself.
\<close>

definition read_from :: "nat \<Rightarrow> World \<Rightarrow> Op list \<Rightarrow> GetArgs \<Rightarrow> GetReply \<Rightarrow> bool" where
  "read_from n w K a r \<longleftrightarrow> past_view n (rsys (wSys w)) K \<and> set K \<subseteq> entries w \<and> getEntry a \<in> set K \<and>
     grValue r = dbGet (gKey a) (fold effect (rev (remdups (rev K))) Map.empty)"

text \<open>Views of an earlier moment, when the \<open>Get\<close> was not yet issued, are prefixes of the one it reads from.\<close>

definition reads_ok :: "nat \<Rightarrow> World \<Rightarrow> World \<Rightarrow> bool" where
  "reads_ok n w1 w \<longleftrightarrow> (\<exists>evs. sys_run n evs (rsys (wSys w1)) = Some (rsys (wSys w))) \<and> (\<not> raced (wSys w) \<longrightarrow>
     (\<forall>i a r. (i, ReqGet a, RepGet r) \<in> set (replies (wSys w)) \<longrightarrow> \<not> grWrongLeader r \<longrightarrow> getEntry a \<notin> entries w1 \<longrightarrow>
        (\<exists>K. read_from n w K a r \<and> (\<forall>K1. past_view n (rsys (wSys w1)) K1 \<longrightarrow> set K1 \<subseteq> entries w1 \<longrightarrow> prefix K1 K))))"

lemma past_view_prefix:
  assumes "past_view n s K1" "2 \<le> n" "i < n" "e \<in> set (handed_over n s i)" "e \<notin> set K1"
  shows "prefix K1 (handed_over n s i)"
proof -
  let ?L = "handed_over n s i"
  note agree = past_view_agrees [OF assms(1-3)]
  obtain m where m: "m < length ?L" "?L ! m = e" using assms(4) by (metis in_set_conv_nth)
  have "length K1 \<le> m" using agree [of m] m assms(5) nth_mem [of m K1] by (metis not_le)
  then have "take (length K1) ?L = K1" using m(1) agree by (intro nth_equalityI) simp_all
  then show ?thesis by (metis take_is_prefix)
qed

lemma kv_step_raced: "kv_step n ev s = Some s' \<Longrightarrow> raced s \<Longrightarrow> raced s'"
  by (cases ev) (auto simp: kv_step_def kvRequest_def kvApply_def kvFinish_def Let_def
      split: event.splits option.splits if_splits sum.splits prod.splits)

lemma reads_ok_server:
  assumes "world_reachable n k w" "2 \<le> n" "kv_step n kev (wSys w) = Some s'" "reads_ok n w1 w"
  shows "reads_ok n w1 (w\<lparr>wSys := s'\<rparr>)"
proof -
  note inv = served_okD [OF conjunct2 [OF world_reachable_ok [OF assms(1,2)]]]
  obtain evs where evs: "sys_run n evs (rsys (wSys w)) = Some (rsys s')" using kv_step_run [OF inv(1) assms(2,3)] by blast
  obtain evs1 where evs1: "sys_run n evs1 (rsys (wSys w1)) = Some (rsys (wSys w))" using assms(4) unfolding reads_ok_def by blast
  have ent: "entries (w\<lparr>wSys := s'\<rparr>) = entries w" by (simp add: entries_def)
  have later: "read_from n (w\<lparr>wSys := s'\<rparr>) K a r" if "read_from n w K a r" for K a r
    using that past_view_later [OF _ evs] unfolding read_from_def ent by simp
  have "\<exists>K. read_from n (w\<lparr>wSys := s'\<rparr>) K a r \<and> (\<forall>K1. past_view n (rsys (wSys w1)) K1 \<longrightarrow> set K1 \<subseteq> entries w1 \<longrightarrow> prefix K1 K)"
    if h: "\<not> raced s'" "(i, ReqGet a, RepGet r) \<in> set (replies s')" "\<not> grWrongLeader r" "getEntry a \<notin> entries w1" for i a r
  proof -
    have nr: "\<not> raced (wSys w)" using kv_step_raced [OF assms(3)] h(1) by blast
    have "accepted (RepGet r)" using h(3) by (simp add: accepted_def judgeGet_def)
    from kv_step_replies(2) [OF inv(1) assms(3) inv(3) h(2) this] show ?thesis
    proof
      assume "(i, ReqGet a, RepGet r) \<in> set (replies (wSys w))"
      then obtain K where "read_from n w K a r" "\<forall>K1. past_view n (rsys (wSys w1)) K1 \<longrightarrow> set K1 \<subseteq> entries w1 \<longrightarrow> prefix K1 K"
        using assms(4) nr h(3,4) unfolding reads_ok_def by blast
      then show ?thesis using later by blast
    next
      assume "applied_reply n (wSys w) i (ReqGet a) (RepGet r)"
      then have i: "i < n" "getEntry a \<in> set (handed_over n (rsys (wSys w)) i)" "grValue r = dbGet (gKey a) (db (kvs (wSys w) i))"
        by (simp_all add: applied_reply_def requestEntry_def)
      note ord = world_in_order [OF assms(1,2) i(1)]
      have "read_from n w (handed_over n (rsys (wSys w)) i) a r"
        using past_view_now [OF inv(4) i(1)] ord(2) i in_order_db [OF inv(1) nr i(1) ord(1)] by (simp add: read_from_def)
      moreover have "prefix K1 (handed_over n (rsys (wSys w)) i)" if "past_view n (rsys (wSys w1)) K1" "set K1 \<subseteq> entries w1" for K1
        by (rule past_view_prefix [OF past_view_later [OF that(1) evs1] assms(2) i(1,2)]) (use that(2) h(4) in blast)
      ultimately show ?thesis using later by blast
    qed
  qed
  moreover have "\<exists>evs. sys_run n evs (rsys (wSys w1)) = Some (rsys s')" using evs evs1 by (intro exI [of _ "evs1 @ evs"]) (simp add: sys_run_append)
  ultimately show ?thesis unfolding reads_ok_def by simp
qed

lemma reads_ok_clerk:
  assumes "reads_ok n w1 w" "wSys w' = wSys w" "entries w \<subseteq> entries w'"
  shows "reads_ok n w1 w'"
proof -
  have "read_from n w' K a r" if "read_from n w K a r" for K a r
    using that assms(2,3) unfolding read_from_def by auto
  then show ?thesis using assms(1) unfolding reads_ok_def assms(2) by meson
qed

lemma reads_ok_step:
  assumes "world_reachable n k w" "2 \<le> n" "world_step n k ev w = Some w'" "reads_ok n w1 w"
  shows "reads_ok n w1 w'"
proof (cases "wSys w' = wSys w")
  case True
  then have "set (wIssued w) \<subseteq> set (wIssued w')"
    using assms(3) by (auto simp: world_step_def clerkRequest_def split: wevent.splits kvevent.splits clientOp.splits if_splits option.splits)
  then show ?thesis using reads_ok_clerk [OF assms(4) True] by (auto simp: entries_def)
next
  case False
  then obtain kev s' where "kv_step n kev (wSys w) = Some s'" "w' = w\<lparr>wSys := s'\<rparr>"
    using assms(3) by (auto simp: world_step_def clerkRequest_def split: wevent.splits kvevent.splits clientOp.splits if_splits option.splits)
  then show ?thesis using reads_ok_server [OF assms(1,2) _ assms(4)] by simp
qed

lemma world_leads_reads:
  assumes "world_leads n k w1 w2" "world_reachable n k w1" "2 \<le> n"
  shows "world_reachable n k w2 \<and> reads_ok n w1 w2"
  using assms(1) unfolding world_leads_def
proof (induction rule: rtranclp_induct)
  case base
  note inv = served_okD [OF conjunct2 [OF world_reachable_ok [OF assms(2,3)]]]
  have "getEntry a \<in> entries w1" if "(i, ReqGet a, RepGet r) \<in> set (replies (wSys w1))" "\<not> grWrongLeader r" for i a r
    using inv(6) [OF that(1)] that(2) by (auto simp: accepted_def judgeGet_def requestEntry_def)
  moreover have "\<exists>evs. sys_run n evs (rsys (wSys w1)) = Some (rsys (wSys w1))" by (intro exI [of _ "[]"]) simp
  ultimately show ?case using assms(2) unfolding reads_ok_def by blast
next
  case (step w w')
  then obtain ev where "world_step n k ev w = Some w'" by blast
  then show ?case using step.IH world_more reads_ok_step assms(3) by blast
qed

section \<open>A run\<close>

text \<open>Server 0 is elected; a clerk appends, its request is delivered twice and committed twice, and its call returns.\<close>

fun world_script :: "nat \<Rightarrow> nat \<Rightarrow> (World \<Rightarrow> wevent) list \<Rightarrow> World \<Rightarrow> World option" where
  "world_script n k [] w = Some w"
| "world_script n k (f # fs) w = (case world_step n k (f w) w of None \<Rightarrow> None | Some w \<Rightarrow> world_script n k fs w)"

lemma world_script_leads: "world_script n k fs w = Some w' \<Longrightarrow> world_leads n k w w'"
  unfolding world_leads_def by (induction fs arbitrary: w) (auto split: option.splits intro: converse_rtranclp_into_rtranclp)

lemma world_script_reachable: "world_reachable n k w \<Longrightarrow> world_script n k fs w = Some w' \<Longrightarrow> world_reachable n k w'"
  by (induction fs arbitrary: w) (auto split: option.splits intro: world_more)

definition wdo :: "wevent \<Rightarrow> World \<Rightarrow> wevent" where
  "wdo ev w = ev"

definition wdeliver :: "nat \<Rightarrow> World \<Rightarrow> wevent" where
  "wdeliver m w = WServer (KRaft (EDeliver (net (rsys (wSys w)) ! m)))"

definition wrequest :: "World \<Rightarrow> wevent" where
  "wrequest w = WDeliver 0 (hd (wIssued w))"

definition wlast :: "World \<Rightarrow> wevent" where
  "wlast w = WDeliver 0 (last (wIssued w))"

definition clients_script :: "(World \<Rightarrow> wevent) list" where
  "clients_script = replicate 10 (wdo (WServer (KRaft (ETick 0)))) @ [wdeliver 0, wdeliver 2, wdo (WIssue 0 (OpAppend ''k'' ''x'')), wrequest, wrequest,
     wdeliver 7, wdeliver 9, wdo (WServer (KApply 0)), wdo (WServer (KFinish 0 False)),
     wdo (WReturn 0 0 (RepPutAppend \<lparr>parWrongLeader = False, parErr = ''OK''\<rparr>))]"

definition clients_world :: World where
  "clients_world = the (world_script 3 1 clients_script (world_init 3 (\<lambda>_. []) (\<lambda>_. 5)))"

text \<open>Then the clerk reads the key.\<close>

definition reads_script :: "(World \<Rightarrow> wevent) list" where
  "reads_script = [wdo (WIssue 0 (OpGet ''k'')), wlast, wdeliver 10, wdeliver 12, wdo (WServer (KApply 0)), wdo (WServer (KFinish 1 False))]"

definition reads_world :: World where
  "reads_world = the (world_script 3 1 reads_script clients_world)"

lemma clients_facts:
  "case world_script 3 1 clients_script (world_init 3 (\<lambda>_. []) (\<lambda>_. 5)) of None \<Rightarrow> False | Some w \<Rightarrow>
    \<not> raced (wSys w) \<and> prevIndex (kvs (wSys w) 0) = 2 \<and> db (kvs (wSys w) 0) ''k'' = Some ''x'' \<and> wInflight w 0 = None \<and>
    map requestEntry (wIssued w) = [\<lparr>opType = ''Append'', opKey = ''k'', opValue = ''x'', opId = 5, opReqId = 0\<rparr>] \<and>
    (case world_script 3 1 reads_script w of None \<Rightarrow> False | Some w' \<Rightarrow> \<not> raced (wSys w') \<and>
       last (replies (wSys w')) = (0, ReqGet \<lparr>gKey = ''k'', gId = 5, gReqId = 1\<rparr>, RepGet \<lparr>grWrongLeader = False, grErr = ''OK'', grValue = ''x''\<rparr>) \<and>
       replies (wSys w') \<noteq> [])"
  by code_simp

text \<open>
  A \<open>Get\<close> is delivered twice; the clerk goes on to append once. The second handler of the
  \<open>Get\<close> then lowers \<open>ack\<close> by its own write, and a repeated delivery of the append is applied
  again: the condition on \<open>raced\<close> in the theorems below cannot be dropped.
\<close>

definition twice_script :: "(World \<Rightarrow> wevent) list" where
  "twice_script = replicate 10 (wdo (WServer (KRaft (ETick 0)))) @ [wdeliver 0, wdeliver 2, wdo (WIssue 0 (OpGet ''k'')), wrequest, wrequest,
     wdeliver 7, wdeliver 9, wdo (WServer (KApply 0)), wdo (WServer (KFinish 0 False)),
     wdo (WReturn 0 0 (RepGet \<lparr>grWrongLeader = False, grErr = ''OK'', grValue = []\<rparr>)),
     wdo (WIssue 0 (OpAppend ''k'' ''x'')), wlast, wdeliver 10, wdeliver 12, wdo (WServer (KApply 0)), wdo (WServer (KFinish 0 False)),
     wlast, wdeliver 13, wdeliver 15, wdo (WServer (KApply 0))]"

lemma append_applied_twice:
  "case world_script 3 1 twice_script (world_init 3 (\<lambda>_. []) (\<lambda>_. 5)) of None \<Rightarrow> False
   | Some w \<Rightarrow> raced (wSys w) \<and> map requestEntry (wIssued w) =
       [\<lparr>opType = ''Get'', opKey = ''k'', opValue = [], opId = 5, opReqId = 0\<rparr>,
        \<lparr>opType = ''Append'', opKey = ''k'', opValue = ''x'', opId = 5, opReqId = 1\<rparr>] \<and>
       db (kvs (wSys w) 0) ''k'' = Some ''xx''"
  by code_simp

lemma clients_reachable: "world_reachable 3 1 clients_world"
  using clients_facts world_script_reachable [OF world_start [of "\<lambda>_. 5" 1 3 "\<lambda>_. []"]]
  by (auto simp: clients_world_def inj_on_def split: option.splits)

section \<open>Theorem\<close>

text \<open>
  C16: Exactly once, end to end. Take clerks that make one call after the other, a network that
  delivers requests late, repeatedly and to any server, and servers and peers that crash and
  restart. As long as no handler of a \<open>Get\<close> has changed \<open>ack\<close> by its own write, every server's
  database is the effect of operations that clerks issued, each applied once however often it was
  committed, and the operation of every call that has returned was applied by some server. Without
  that condition an append can be applied twice (\<open>append_applied_twice\<close>).
\<close>

theorem clerks_exactly_once:
  assumes "world_reachable n k w" "2 \<le> n" "\<not> raced (wSys w)" "i < n"
  shows "db (kvs (wSys w) i) = fold effect (rev (remdups (rev (handed_over n (rsys (wSys w)) i)))) Map.empty \<and>
    set (handed_over n (rsys (wSys w)) i) \<subseteq> requestEntry ` set (wIssued w) \<and>
    (call_over k w q \<longrightarrow>
       (\<exists>K. past_view n (rsys (wSys w)) K \<and> requestEntry q \<in> set K))"
proof -
  have "kv_inv n (wSys w)" using world_reachable_ok [OF assms(1,2)] served_okD(1) by blast
  from in_order_db [OF this assms(3,4) world_in_order(1) [OF assms(1,2,4)]] show ?thesis
    using world_in_order(2) [OF assms(1,2,4)] returned_settled [OF assms(1,2), of q] unfolding entries_def call_over_def settled_def by blast
qed

theorem clerks_exactly_once_witness:
  "db (kvs (wSys clients_world) 0) ''k'' = Some ''x'' \<and>
   db (kvs (wSys clients_world) 0) = fold effect (rev (remdups (rev (handed_over 3 (rsys (wSys clients_world)) 0)))) Map.empty \<and>
   length (handed_over 3 (rsys (wSys clients_world)) 0) = 2 \<and>
   (\<exists>K. past_view 3 (rsys (wSys clients_world)) K \<and> requestEntry (hd (wIssued clients_world)) \<in> set K)"
proof -
  have f: "\<not> raced (wSys clients_world)" "prevIndex (kvs (wSys clients_world) 0) = 2" "db (kvs (wSys clients_world) 0) ''k'' = Some ''x''"
    "wInflight clients_world 0 = None" "wIssued clients_world \<noteq> []" using clients_facts by (auto simp: clients_world_def split: option.splits)
  have "kv_inv 3 (wSys clients_world)" using world_reachable_ok [OF clients_reachable] by (simp add: served_ok_def)
  then have "length (handed_over 3 (rsys (wSys clients_world)) 0) = 2" using f(2) handed_over_length [of 3 "rsys (wSys clients_world)" 0]
    by (simp add: kv_inv_def server_ok_def)
  then show ?thesis using clerks_exactly_once [OF clients_reachable _ f(1), of 0 "hd (wIssued clients_world)"] f(3-5) by (simp add: call_over_def)
qed

text \<open>
  C17: Reads see what was written. Take clerks that make one call after the other, and any moment of
  a run. Whatever happens afterwards, as long as no handler of a \<open>Get\<close> has changed \<open>ack\<close> by its
  own write, a \<open>Get\<close> that a clerk issues after that moment and that a server accepts is answered
  with the value its key has after operations that contain, each once, the operation of every call that
  had returned by that moment and the \<open>Get\<close> itself, in the order in which a server applied them.
\<close>

theorem get_reads_latest:
  assumes "world_reachable n k w1" "2 \<le> n" "world_leads n k w1 w2" "\<not> raced (wSys w2)"
    "getEntry a \<notin> requestEntry ` set (wIssued w1)" "(i, ReqGet a, RepGet r) \<in> set (replies (wSys w2))" "\<not> grWrongLeader r"
  shows "\<exists>K. read_from n w2 K a r \<and> (\<forall>q. call_over k w1 q \<longrightarrow> requestEntry q \<in> set K)"
proof -
  have "reads_ok n w1 w2" using world_leads_reads [OF assms(3,1,2)] by blast
  then obtain K where K: "read_from n w2 K a r" "\<And>K1. past_view n (rsys (wSys w1)) K1 \<Longrightarrow> set K1 \<subseteq> entries w1 \<Longrightarrow> prefix K1 K"
    using assms(4-7) unfolding reads_ok_def entries_def by blast
  have "requestEntry q \<in> set K" if "call_over k w1 q" for q
    using returned_settled [OF assms(1,2) that] K(2) set_mono_prefix unfolding settled_def by blast
  then show ?thesis using K(1) by blast
qed

theorem get_reads_latest_witness:
  "call_over 1 clients_world (hd (wIssued clients_world)) \<and>
   (\<exists>K. read_from 3 reads_world K \<lparr>gKey = ''k'', gId = 5, gReqId = 1\<rparr> \<lparr>grWrongLeader = False, grErr = ''OK'', grValue = ''x''\<rparr> \<and>
     requestEntry (hd (wIssued clients_world)) \<in> set K)"
proof -
  have f: "wInflight clients_world 0 = None" "wIssued clients_world \<noteq> []"
    "requestEntry ` set (wIssued clients_world) = {\<lparr>opType = ''Append'', opKey = ''k'', opValue = ''x'', opId = 5, opReqId = 0\<rparr>}"
    "world_script 3 1 reads_script clients_world = Some reads_world" "\<not> raced (wSys reads_world)"
    "last (replies (wSys reads_world)) = (0, ReqGet \<lparr>gKey = ''k'', gId = 5, gReqId = 1\<rparr>, RepGet \<lparr>grWrongLeader = False, grErr = ''OK'', grValue = ''x''\<rparr>)"
    "replies (wSys reads_world) \<noteq> []"
    using clients_facts by (auto simp: clients_world_def reads_world_def split: option.splits)
  have c: "call_over 1 clients_world (hd (wIssued clients_world))" using f(1,2) by (simp add: call_over_def)
  have m: "(0, ReqGet \<lparr>gKey = ''k'', gId = 5, gReqId = 1\<rparr>, RepGet \<lparr>grWrongLeader = False, grErr = ''OK'', grValue = ''x''\<rparr>) \<in> set (replies (wSys reads_world))"
    using last_in_set [OF f(7)] unfolding f(6) .
  show ?thesis using get_reads_latest [OF clients_reachable _ world_script_leads [OF f(4)] f(5) _ m] c by (simp add: f(3) getEntry_def) blast
qed

end
