(* ===== verification/Kv_Progress.thy ===== *)
theory Kv_Progress
  imports Kv_Clients Raft_Progress
begin

text \<open>
  A call of a clerk can always end: the run of the Raft cluster that gets a command applied
  (\<open>Raft_Progress\<close>), lifted to the servers and the clerks, ends with the call's answer.
\<close>

section \<open>Runs of the whole\<close>

lemma leads_refl [simp]: "world_leads n k w w"
  by (simp add: world_leads_def)

lemma leads_trans [trans]: "world_leads n k w w' \<Longrightarrow> world_leads n k w' w'' \<Longrightarrow> world_leads n k w w''"
  by (simp add: world_leads_def)

lemma leads_step: "world_step n k ev w = Some w' \<Longrightarrow> world_leads n k w w'"
  unfolding world_leads_def by blast

lemma leads_reachable: "world_leads n k w w' \<Longrightarrow> world_reachable n k w \<Longrightarrow> world_reachable n k w'"
  unfolding world_leads_def by (induction rule: rtranclp_induct) (auto intro: world_more)

text \<open>What clerks and network see of a world apart from the servers' state.\<close>

definition same_calls :: "World \<Rightarrow> World \<Rightarrow> bool" where
  "same_calls w w' \<longleftrightarrow> wInflight w' = wInflight w \<and> wIssued w' = wIssued w \<and> replies (wSys w') = replies (wSys w)"

lemma quiet_run:
  assumes "runs_to n (rsys (wSys w)) r"
  shows "world_leads n k w (w\<lparr>wSys := (wSys w)\<lparr>rsys := r\<rparr>\<rparr>)"
proof -
  obtain evs where "sys_run n evs (rsys (wSys w)) = Some r" "\<forall>ev \<in> set evs. quiet ev" using assms by (auto simp: runs_by_def)
  then show ?thesis
  proof (induction evs arbitrary: w)
    case Nil
    then have "(wSys w)\<lparr>rsys := r\<rparr> = wSys w" by (cases "wSys w") simp
    moreover have "w\<lparr>wSys := wSys w\<rparr> = w" by (cases w) simp
    ultimately show ?case by simp
  next
    case (Cons ev evs)
    then obtain r1 where r1: "sys_step n ev (rsys (wSys w)) = Some r1" "sys_run n evs r1 = Some r" by (auto split: option.splits)
    have "world_step n k (WServer (KRaft ev)) w = Some (w\<lparr>wSys := (wSys w)\<lparr>rsys := r1\<rparr>\<rparr>)"
      using r1(1) Cons.prems(2) by (cases ev) (simp_all add: world_step_def kv_step_def)
    from leads_trans [OF leads_step [OF this]] Cons.IH [of "w\<lparr>wSys := (wSys w)\<lparr>rsys := r1\<rparr>\<rparr>"] r1(2) Cons.prems(2) show ?case by simp
  qed
qed

lemma revival_run:
  assumes "runs_by revival n (rsys (wSys w)) r"
  shows "\<exists>w'. world_leads n k w w' \<and> rsys (wSys w') = r \<and> same_calls w w'"
proof -
  obtain evs where "sys_run n evs (rsys (wSys w)) = Some r" "\<forall>ev \<in> set evs. revival ev" using assms by (auto simp: runs_by_def)
  then show ?thesis
  proof (induction evs arbitrary: w)
    case (Cons ev evs)
    then obtain r1 where r1: "sys_step n ev (rsys (wSys w)) = Some r1" "sys_run n evs r1 = Some r" by (auto split: option.splits)
    let ?kev = "case ev of ERestart i rnd \<Rightarrow> KRestart i rnd | _ \<Rightarrow> KRaft ev"
    obtain w1 where w1: "world_step n k (WServer ?kev) w = Some w1" "rsys (wSys w1) = r1" "same_calls w w1"
      using r1(1) Cons.prems(2) by (cases ev) (simp_all add: world_step_def kv_step_def same_calls_def)
    moreover obtain w' where "world_leads n k w1 w'" "rsys (wSys w') = r" "same_calls w1 w'"
      using Cons.IH [of w1] Cons.prems(2) r1(2) w1(2) by auto
    ultimately show ?case using leads_trans [OF leads_step [OF w1(1)]] by (auto simp: same_calls_def)
  qed (use leads_refl in \<open>fastforce simp: same_calls_def\<close>)
qed

section \<open>One call\<close>

lemma request_accepted:
  assumes "i < n" "all_up n (rsys (wSys w))" "q \<in> set (wIssued w)"
    "Start (requestEntry q) (node (rsys (wSys w)) i) = Inr (rf, int idx, t, True)"
    "sys_step n (EStart i (requestEntry q)) (rsys (wSys w)) = Some r"
  shows "\<exists>w'. world_leads n k w w' \<and> rsys (wSys w') = r \<and> pending (wSys w') = pending (wSys w) @ [(i, idx, q)] \<and> same_calls w w'"
proof -
  have "i \<notin> set (down (rsys (wSys w)))" using assms(1,2) by (simp add: all_up_def)
  then have "\<exists>w'. world_step n k (WDeliver i q) w = Some w' \<and> rsys (wSys w') = r \<and> pending (wSys w') = pending (wSys w) @ [(i, idx, q)] \<and> same_calls w w'"
    using assms by (simp add: world_step_def kv_step_def kvRequest_def AppendLog_def sys_step_def same_calls_def)
  then show ?thesis using leads_step by blast
qed

lemma request_applied:
  assumes "world_reachable n k w" "2 \<le> n" "i < n" "sys_step n (EApply i) (rsys (wSys w)) = Some r"
    "lastApplied (node (rsys (wSys w)) i) < idx" "idx \<le> lastApplied (node r i)"
  shows "\<exists>w'. world_leads n k w w' \<and> rsys (wSys w') = r \<and> pending (wSys w') = pending (wSys w) \<and> same_calls w w' \<and>
    result (kvs (wSys w') i) idx = Some [handed_over n r i ! (idx - 1)]"
proof -
  let ?s = "wSys w"
  have "kv_inv n ?s" using world_reachable_ok [OF assms(1,2)] by (simp add: served_ok_def)
  then have inv: "reachable n (rsys ?s)" "server_ok n (rsys ?s) (raced ?s) i (kvs ?s i)" using assms(3) by (simp_all add: kv_inv_def)
  obtain kv where kv: "getApplyAll (map snd (drop (length (applied (rsys ?s))) (applied r))) (kvs ?s i) = Inr kv"
    "result kv idx = Some [handed_over n r i ! (idx - 1)]"
    using server_ok_apply [OF inv(1) assms(2,4,3) inv(2)] assms(5,6) by metis
  have "world_step n k (WServer (KApply i)) w = Some (w\<lparr>wSys := ?s\<lparr>rsys := r, kvs := (kvs ?s)(i := kv)\<rparr>\<rparr>)"
    using assms(4) kv(1) by (simp add: world_step_def kv_step_def kvApply_def)
  from leads_step [OF this] show ?thesis by (intro exI conjI, assumption) (simp_all add: same_calls_def kv(2))
qed

lemma request_answered:
  assumes "i < n" "all_up n (rsys (wSys w))" "pending (wSys w) = ps @ [(i, idx, q)]" "result (kvs (wSys w) i) idx = Some [requestEntry q]"
  shows "\<exists>w' reply. world_leads n k w w' \<and> accepted reply \<and> replies (wSys w') = replies (wSys w) @ [(i, q, reply)] \<and> wInflight w' = wInflight w"
proof -
  let ?kv = "(kvs (wSys w) i)\<lparr>result := (result (kvs (wSys w) i))(idx \<mapsto> [])\<rparr>"
  obtain reply kv' where a: "answer q True ?kv = (reply, kv')" by (cases "answer q True ?kv")
  then have "accepted reply" by (cases q) (auto simp: answer_def accepted_def finishGet_def finishPutAppend_def judgeGet_def judgePutAppend_def)
  moreover have "i \<notin> set (down (rsys (wSys w)))" using assms(1,2) by (simp add: all_up_def)
  then have "\<exists>w'. world_step n k (WServer (KFinish (length ps) False)) w = Some w' \<and> replies (wSys w') = replies (wSys w) @ [(i, q, reply)] \<and> wInflight w' = wInflight w"
    using assms(3,4) a by (simp add: world_step_def kv_step_def kvFinish_def awaitLog_def)
  ultimately show ?thesis using leads_step by blast
qed

lemma handed_over_last:
  assumes "reachable n r" "2 \<le> n" "i < n" "log (node r i) = M" "lastApplied (node r i) = length M - 1" "1 < length M" "lCommand (last M) = Some c"
  shows "handed_over n r i ! (length M - 1 - 1) = c"
proof -
  have "M ! (length M - 1) = last M" using assms(6) by (metis last_conv_nth less_nat_zero_code list.size(3))
  moreover have "[1..<Suc (length M - 1)] ! (length M - 1 - 1) = length M - 1" using assms(6) by (simp del: upt_Suc)
  ultimately show ?thesis using assms by (simp add: handed_over_def del: upt_Suc)
qed

lemma call_answered:
  assumes "world_reachable n k w" "2 \<le> n" "q \<in> set (wIssued w)"
  shows "\<exists>w' i reply. world_leads n k w w' \<and> accepted reply \<and> replies (wSys w') = replies (wSys w) @ [(i, q, reply)] \<and> wInflight w' = wInflight w"
proof -
  have r: "world_leads n k w w' \<Longrightarrow> world_reachable n k w' \<and> reachable n (rsys (wSys w'))" for w'
    using leads_reachable [OF _ assms(1)] served_okD(4) world_reachable_ok assms(2) by blast
  obtain s0 s1 s2 s3 s4 i T M rf where p: "runs_by revival n (rsys (wSys w)) s0" "runs_to n s0 s1" "all_up n s1"
    "Start (requestEntry q) (node s1 i) = Inr (rf, int (length M - 1), int T, True)" "sys_step n (EStart i (requestEntry q)) s1 = Some s2"
    "runs_to n s2 s3" "sys_step n (EApply i) s3 = Some s4" "i < n" "all_up n s4" "lastApplied (node s3 i) = 0"
    "log (node s4 i) = M" "lastApplied (node s4 i) = length M - 1" "1 < length M" "lCommand (last M) = Some (requestEntry q)"
    using progress [of n "rsys (wSys w)" "requestEntry q"] r [OF leads_refl] assms(2) by blast
  obtain w0 where w0: "world_leads n k w w0" "rsys (wSys w0) = s0" "same_calls w w0" using revival_run [OF p(1)] by blast
  obtain w1 where w1: "world_leads n k w0 w1" "rsys (wSys w1) = s1" "same_calls w0 w1" using quiet_run [of n w0 s1 k] p(2) w0(2) by (auto simp: same_calls_def)
  obtain w2 where w2: "world_leads n k w1 w2" "rsys (wSys w2) = s2" "pending (wSys w2) = pending (wSys w1) @ [(i, length M - 1, q)]" "same_calls w1 w2"
    using request_accepted [of i n w1 q rf "length M - 1" "int T" s2 k] p(3-5,8) w0(3) w1(2,3) assms(3) by (auto simp: same_calls_def)
  obtain w3 where w3: "world_leads n k w2 w3" "rsys (wSys w3) = s3" "pending (wSys w3) = pending (wSys w2)" "same_calls w2 w3"
    using quiet_run [of n w2 s3 k] p(6) w2(2) by (auto simp: same_calls_def)
  have l3: "world_leads n k w w3" using w0(1) w1(1) w2(1) w3(1) leads_trans by blast
  obtain w4 where w4: "world_leads n k w3 w4" "rsys (wSys w4) = s4" "pending (wSys w4) = pending (wSys w3)" "same_calls w3 w4"
    "result (kvs (wSys w4) i) (length M - 1) = Some [handed_over n s4 i ! (length M - 1 - 1)]"
    using request_applied [of n k w3 i s4 "length M - 1"] r [OF l3] assms(2) p(7,8,10,12,13) w3(2) by auto
  have "reachable n s4" using r [OF leads_trans [OF l3 w4(1)]] w4(2) by simp
  then have "result (kvs (wSys w4) i) (length M - 1) = Some [requestEntry q]" using handed_over_last [OF _ assms(2) p(8,11-14)] w4(5) by simp
  from request_answered [OF p(8) _ _ this, of "pending (wSys w1)" k] obtain w5 reply where
    "world_leads n k w4 w5" "accepted reply" "replies (wSys w5) = replies (wSys w4) @ [(i, q, reply)]" "wInflight w5 = wInflight w4"
    using p(9) w2(3) w3(3) w4(2,3) by auto
  then show ?thesis using leads_trans [OF leads_trans [OF l3 w4(1)]] w0(3) w1(3) w2(4) w3(4) w4(4) by (auto simp: same_calls_def)
qed

section \<open>Theorem\<close>

text \<open>A call made while every server is down.\<close>

definition stuck_script :: "(World \<Rightarrow> wevent) list" where
  "stuck_script = map wdo [WServer (KRaft (EKill 0)), WServer (KRaft (EKill 1)), WServer (KRaft (EKill 2)), WIssue 0 (OpPut ''k'' ''v'')]"

definition stuck_world :: World where
  "stuck_world = the (world_script 3 1 stuck_script (world_init 3 (\<lambda>_. []) (\<lambda>_. 5)))"

abbreviation stuckRequest :: request where
  "stuckRequest \<equiv> ReqPutAppend \<lparr>paKey = ''k'', paValue = ''v'', paOp = ''Put'', paId = 5, paReqId = 0\<rparr>"

lemma stuck_facts:
  "case world_script 3 1 stuck_script (world_init 3 (\<lambda>_. []) (\<lambda>_. 5)) of None \<Rightarrow> False | Some w \<Rightarrow> wInflight w 0 = Some stuckRequest \<and> down (rsys (wSys w)) = [2, 1, 0] \<and> replies (wSys w) = []"
  by code_simp

lemma stuck_reachable:
  "world_reachable 3 1 stuck_world" "wInflight stuck_world 0 = Some stuckRequest" "down (rsys (wSys stuck_world)) = [2, 1, 0]" "replies (wSys stuck_world) = []"
  using stuck_facts world_script_reachable [OF world_start [of "\<lambda>_. 5" 1 3 "\<lambda>_. []"]]
  by (auto simp: stuck_world_def inj_on_def split: option.splits)

text \<open>
  C18: A clerk's call can always return. Whatever clerks, network, servers and peers have done so
  far, and even if every server is down, the system with a call in flight can be continued by crashes,
  restarts, ticks, deliveries and the servers' own steps so that a server answers that request with
  a reply the clerk accepts, and the call returns; the other clerks' calls are untouched.
\<close>

theorem call_can_return:
  assumes "world_reachable n k w" "2 \<le> n" "c < k" "wInflight w c = Some q"
  shows "\<exists>w' i reply. world_leads n k w w' \<and> (i, q, reply) \<in> set (drop (length (replies (wSys w))) (replies (wSys w'))) \<and>
    accepted reply \<and> wInflight w' = (wInflight w)(c := None)"
proof -
  have "q \<in> set (wIssued w)" using world_reachable_ok [OF assms(1,2)] assms(3,4) by (simp add: clerks_ok_def)
  from call_answered [OF assms(1,2) this] obtain w' i reply where
    w': "world_leads n k w w'" "accepted reply" "replies (wSys w') = replies (wSys w) @ [(i, q, reply)]" "wInflight w' = wInflight w" by blast
  have "world_step n k (WReturn c i reply) w' = Some (w'\<lparr>wInflight := (wInflight w')(c := None)\<rparr>)"
    using w' assms(3,4) by (simp add: world_step_def)
  from leads_trans [OF w'(1) leads_step [OF this]] show ?thesis
    by (intro exI [of _ "w'\<lparr>wInflight := (wInflight w')(c := None)\<rparr>"] exI [of _ i] exI [of _ reply]) (simp add: w')
qed

theorem call_can_return_witness:
  "down (rsys (wSys stuck_world)) = [2, 1, 0] \<and> wInflight stuck_world 0 = Some stuckRequest \<and>
   (\<exists>w' i reply. world_leads 3 1 stuck_world w' \<and> (i, stuckRequest, reply) \<in> set (replies (wSys w')) \<and> accepted reply \<and> wInflight w' 0 = None)"
  using call_can_return [OF stuck_reachable(1) _ _ stuck_reachable(2)] stuck_reachable(2-4) by fastforce

end
