(* ===== verification/Shard_Clerks.thy ===== *)
theory Shard_Clerks
  imports Clerk_Loops
begin

text \<open>
  The clerks of the sharded services and of the shardmasters: \<open>shardmaster\<close>,
  \<open>shardkv\<close>, their Paxos variants \<open>paxos-shardmaster\<close> and \<open>paxos-shardkv\<close>, and
  \<open>diskv\<close>, with the data they exchange and the shardmaster's server. Conventions are those
  of \<open>Clerk_Loops\<close>; the RPC parameters also take the method's name and the arguments.
\<close>

section \<open>Configurations\<close>

definition NShards :: nat where
  "NShards = 10"

text \<open>The array \<open>Shards\<close> has \<open>NShards\<close> entries.\<close>

record Config =
  Num :: int
  Shards :: "int list"
  Groups :: "int \<rightharpoonup> string list"

definition zeroConfig :: Config where
  "zeroConfig = \<lparr>Num = 0, Shards = replicate NShards 0, Groups = Map.empty\<rparr>"

section \<open>The shardmaster\<close>

record JoinArgs = jServers :: "int \<rightharpoonup> string list"
record LeaveArgs = lvGIDs :: "int list"
record MoveArgs =
  mvShard :: int
  mvGID :: int
record QueryArgs = qNum :: int

text \<open>\<open>JoinReply\<close>, \<open>LeaveReply\<close> and \<open>MoveReply\<close> have the same two fields.\<close>

record ChangeReply =
  crWrongLeader :: bool
  crErr :: string

record QueryReply =
  qrWrongLeader :: bool
  qrErr :: string
  qrConfig :: Config

record ShardMaster =
  smMe :: nat
  configs :: "Config list"

text \<open>The handlers leave the server and the zeroed reply as they are.\<close>

definition sm_StartServer :: "nat \<Rightarrow> ShardMaster" where
  "sm_StartServer m = \<lparr>smMe = m, configs = [zeroConfig]\<rparr>"

definition sm_Join_handler :: "JoinArgs \<Rightarrow> ChangeReply \<Rightarrow> ShardMaster \<Rightarrow> ShardMaster \<times> ChangeReply" where
  "sm_Join_handler args reply sm = (sm, reply)"

definition sm_Leave_handler :: "LeaveArgs \<Rightarrow> ChangeReply \<Rightarrow> ShardMaster \<Rightarrow> ShardMaster \<times> ChangeReply" where
  "sm_Leave_handler args reply sm = (sm, reply)"

definition sm_Move_handler :: "MoveArgs \<Rightarrow> ChangeReply \<Rightarrow> ShardMaster \<Rightarrow> ShardMaster \<times> ChangeReply" where
  "sm_Move_handler args reply sm = (sm, reply)"

definition sm_Query_handler :: "QueryArgs \<Rightarrow> QueryReply \<Rightarrow> ShardMaster \<Rightarrow> ShardMaster \<times> QueryReply" where
  "sm_Query_handler args reply sm = (sm, reply)"

text \<open>The reply variable a clerk passes is zero initialised.\<close>

definition zeroQueryReply :: QueryReply where
  "zeroQueryReply = \<lparr>qrWrongLeader = False, qrErr = [], qrConfig = zeroConfig\<rparr>"

section \<open>The shardmaster's clerk\<close>

definition judgeQuery :: "QueryReply option \<Rightarrow> Config verdict" where
  "judgeQuery r = (case r of Some reply \<Rightarrow> if qrWrongLeader reply = False then Return (qrConfig reply) else NextServer
     | None \<Rightarrow> NextServer)"

definition judgeChange :: "ChangeReply option \<Rightarrow> unit verdict" where
  "judgeChange r = (case r of Some reply \<Rightarrow> if crWrongLeader reply = False then Return () else NextServer
     | None \<Rightarrow> NextServer)"

definition sm_Query :: "(nat \<Rightarrow> 'srv \<Rightarrow> string \<Rightarrow> QueryArgs \<Rightarrow> QueryReply option) \<Rightarrow> 'srv list \<Rightarrow> int \<Rightarrow> nat \<Rightarrow>
    (Config \<times> nat) option" where
  "sm_Query rpc srvs num k = rounds (\<lambda>j srv. rpc j srv ''ShardMaster.Query'' \<lparr>qNum = num\<rparr>) judgeQuery srvs k"

definition sm_Join :: "(nat \<Rightarrow> 'srv \<Rightarrow> string \<Rightarrow> JoinArgs \<Rightarrow> ChangeReply option) \<Rightarrow> 'srv list \<Rightarrow>
    (int \<rightharpoonup> string list) \<Rightarrow> nat \<Rightarrow> (unit \<times> nat) option" where
  "sm_Join rpc srvs gs k = rounds (\<lambda>j srv. rpc j srv ''ShardMaster.Join'' \<lparr>jServers = gs\<rparr>) judgeChange srvs k"

definition sm_Leave :: "(nat \<Rightarrow> 'srv \<Rightarrow> string \<Rightarrow> LeaveArgs \<Rightarrow> ChangeReply option) \<Rightarrow> 'srv list \<Rightarrow>
    int list \<Rightarrow> nat \<Rightarrow> (unit \<times> nat) option" where
  "sm_Leave rpc srvs gids k = rounds (\<lambda>j srv. rpc j srv ''ShardMaster.Leave'' \<lparr>lvGIDs = gids\<rparr>) judgeChange srvs k"

definition sm_Move :: "(nat \<Rightarrow> 'srv \<Rightarrow> string \<Rightarrow> MoveArgs \<Rightarrow> ChangeReply option) \<Rightarrow> 'srv list \<Rightarrow>
    int \<Rightarrow> int \<Rightarrow> nat \<Rightarrow> (unit \<times> nat) option" where
  "sm_Move rpc srvs shard gid k =
     rounds (\<lambda>j srv. rpc j srv ''ShardMaster.Move'' \<lparr>mvShard = shard, mvGID = gid\<rparr>) judgeChange srvs k"

section \<open>The Paxos shardmaster's clerk\<close>

text \<open>
  \<open>call\<close> dials the server and sends the request on the connection; \<open>dial\<close> and
  \<open>send\<close> are the network's answers.
\<close>

definition netCall :: "(nat \<Rightarrow> 'srv \<Rightarrow> bool) \<Rightarrow> (nat \<Rightarrow> 'srv \<Rightarrow> string \<Rightarrow> 'a \<Rightarrow> 'r option) \<Rightarrow>
    nat \<Rightarrow> 'srv \<Rightarrow> string \<Rightarrow> 'a \<Rightarrow> 'r option" where
  "netCall dial send k srv rpcname args = (if dial k srv then send k srv rpcname args else None)"

definition judgeAny :: "'r option \<Rightarrow> 'r verdict" where
  "judgeAny r = (case r of Some reply \<Rightarrow> Return reply | None \<Rightarrow> NextServer)"

record PJoinArgs =
  pjGID :: int
  pjServers :: "string list"

definition psm_Query :: "(nat \<Rightarrow> 'srv \<Rightarrow> bool) \<Rightarrow> (nat \<Rightarrow> 'srv \<Rightarrow> string \<Rightarrow> QueryArgs \<Rightarrow> Config option) \<Rightarrow> 'srv list \<Rightarrow> int \<Rightarrow> nat \<Rightarrow>
    (Config \<times> nat) option" where
  "psm_Query dial send srvs num k = rounds (\<lambda>j srv. netCall dial send j srv ''ShardMaster.Query'' \<lparr>qNum = num\<rparr>) judgeAny srvs k"

definition psm_Join :: "(nat \<Rightarrow> 'srv \<Rightarrow> bool) \<Rightarrow> (nat \<Rightarrow> 'srv \<Rightarrow> string \<Rightarrow> PJoinArgs \<Rightarrow> unit option) \<Rightarrow> 'srv list \<Rightarrow>
    int \<Rightarrow> string list \<Rightarrow> nat \<Rightarrow> (unit \<times> nat) option" where
  "psm_Join dial send srvs gid gsrvs k =
     rounds (\<lambda>j srv. netCall dial send j srv ''ShardMaster.Join'' \<lparr>pjGID = gid, pjServers = gsrvs\<rparr>) judgeAny srvs k"

definition psm_Leave :: "(nat \<Rightarrow> 'srv \<Rightarrow> bool) \<Rightarrow> (nat \<Rightarrow> 'srv \<Rightarrow> string \<Rightarrow> int \<Rightarrow> unit option) \<Rightarrow> 'srv list \<Rightarrow>
    int \<Rightarrow> nat \<Rightarrow> (unit \<times> nat) option" where
  "psm_Leave dial send srvs gid k = rounds (\<lambda>j srv. netCall dial send j srv ''ShardMaster.Leave'' gid) judgeAny srvs k"

definition psm_Move :: "(nat \<Rightarrow> 'srv \<Rightarrow> bool) \<Rightarrow> (nat \<Rightarrow> 'srv \<Rightarrow> string \<Rightarrow> MoveArgs \<Rightarrow> unit option) \<Rightarrow> 'srv list \<Rightarrow>
    int \<Rightarrow> int \<Rightarrow> nat \<Rightarrow> (unit \<times> nat) option" where
  "psm_Move dial send srvs shard gid k =
     rounds (\<lambda>j srv. netCall dial send j srv ''ShardMaster.Move'' \<lparr>mvShard = shard, mvGID = gid\<rparr>) judgeAny srvs k"

section \<open>The sharded service's clerk\<close>

definition key2shard :: "string \<Rightarrow> nat" where
  "key2shard key = (let shard = 0; shard = (if length key > 0 then of_char (key ! 0) else shard) in shard mod NShards)"

record SGetReply =
  sgWrongLeader :: bool
  sgErr :: string
  sgValue :: string

record SPutAppendArgs =
  spKey :: string
  spValue :: string
  spOp :: string

record SPutAppendReply =
  spWrongLeader :: bool
  spErr :: string

text \<open>The servers of the group a configuration assigns a key's shard to.\<close>

definition groupOf :: "string \<Rightarrow> Config \<Rightarrow> string list option" where
  "groupOf key cfg = (let shard = key2shard key; gid = Shards cfg ! shard in Groups cfg gid)"

definition judgeSGet :: "SGetReply option \<Rightarrow> string verdict" where
  "judgeSGet r = (case r of None \<Rightarrow> NextServer
     | Some reply \<Rightarrow>
       if sgWrongLeader reply = False \<and> (sgErr reply = ''OK'' \<or> sgErr reply = ''ErrNoKey'') then Return (sgValue reply)
       else if sgErr reply = ''ErrWrongGroup'' then LeaveGroup else NextServer)"

definition judgeSPut :: "SPutAppendReply option \<Rightarrow> unit verdict" where
  "judgeSPut r = (case r of None \<Rightarrow> NextServer
     | Some reply \<Rightarrow>
       if spWrongLeader reply = False \<and> spErr reply = ''OK'' then Return ()
       else if spErr reply = ''ErrWrongGroup'' then LeaveGroup else NextServer)"

text \<open>
  The clerk is its shardmasters and its configuration; \<open>make_end\<close> turns a server's name into
  an end point.
\<close>

record 'srv SClerk =
  scMasters :: "'srv list"
  scConfig :: Config

definition skv_MakeClerk :: "'srv list \<Rightarrow> 'srv SClerk" where
  "skv_MakeClerk masters = \<lparr>scMasters = masters, scConfig = zeroConfig\<rparr>"

definition skv_Get ::
  "(string \<Rightarrow> 'end) \<Rightarrow> (nat \<Rightarrow> 'end \<Rightarrow> string \<Rightarrow> string \<Rightarrow> SGetReply option) \<Rightarrow>
   (nat \<Rightarrow> 'srv \<Rightarrow> string \<Rightarrow> QueryArgs \<Rightarrow> QueryReply option) \<Rightarrow>
   string \<Rightarrow> 'srv SClerk \<Rightarrow> nat \<Rightarrow> (string \<times> 'srv SClerk \<times> nat) option" where
  "skv_Get make_end rpc smrpc key ck k =
     (case groupRounds (\<lambda>j srv. rpc j (make_end srv) ''ShardKV.Get'' key) judgeSGet (groupOf key)
        (sm_Query smrpc (scMasters ck) (-1)) (scConfig ck) k of
        None \<Rightarrow> None
      | Some (v, cfg, k) \<Rightarrow> Some (v, ck\<lparr>scConfig := cfg\<rparr>, k))"

definition skv_PutAppend ::
  "(string \<Rightarrow> 'end) \<Rightarrow> (nat \<Rightarrow> 'end \<Rightarrow> string \<Rightarrow> SPutAppendArgs \<Rightarrow> SPutAppendReply option) \<Rightarrow>
   (nat \<Rightarrow> 'srv \<Rightarrow> string \<Rightarrow> QueryArgs \<Rightarrow> QueryReply option) \<Rightarrow>
   string \<Rightarrow> string \<Rightarrow> string \<Rightarrow> 'srv SClerk \<Rightarrow> nat \<Rightarrow> ('srv SClerk \<times> nat) option" where
  "skv_PutAppend make_end rpc smrpc key val op ck k =
     (case groupRounds (\<lambda>j srv. rpc j (make_end srv) ''ShardKV.PutAppend'' \<lparr>spKey = key, spValue = val, spOp = op\<rparr>)
        judgeSPut (groupOf key) (sm_Query smrpc (scMasters ck) (-1)) (scConfig ck) k of
        None \<Rightarrow> None
      | Some (_, cfg, k) \<Rightarrow> Some (ck\<lparr>scConfig := cfg\<rparr>, k))"

definition skv_Put ::
  "(string \<Rightarrow> 'end) \<Rightarrow> (nat \<Rightarrow> 'end \<Rightarrow> string \<Rightarrow> SPutAppendArgs \<Rightarrow> SPutAppendReply option) \<Rightarrow>
   (nat \<Rightarrow> 'srv \<Rightarrow> string \<Rightarrow> QueryArgs \<Rightarrow> QueryReply option) \<Rightarrow>
   string \<Rightarrow> string \<Rightarrow> 'srv SClerk \<Rightarrow> nat \<Rightarrow> ('srv SClerk \<times> nat) option" where
  "skv_Put make_end rpc smrpc key val = skv_PutAppend make_end rpc smrpc key val ''Put''"

definition skv_Append ::
  "(string \<Rightarrow> 'end) \<Rightarrow> (nat \<Rightarrow> 'end \<Rightarrow> string \<Rightarrow> SPutAppendArgs \<Rightarrow> SPutAppendReply option) \<Rightarrow>
   (nat \<Rightarrow> 'srv \<Rightarrow> string \<Rightarrow> QueryArgs \<Rightarrow> QueryReply option) \<Rightarrow>
   string \<Rightarrow> string \<Rightarrow> 'srv SClerk \<Rightarrow> nat \<Rightarrow> ('srv SClerk \<times> nat) option" where
  "skv_Append make_end rpc smrpc key val = skv_PutAppend make_end rpc smrpc key val ''Append''"

section \<open>The sharded key/value server\<close>

text \<open>The server's own state, next to its Raft peer; its handlers are not written either.\<close>

record 'srv SkvServer =
  skvMe :: nat
  skvMaxraftstate :: int
  skvGid :: int
  skvMasters :: "'srv list"

definition skv_StartServer :: "nat \<Rightarrow> int \<Rightarrow> int \<Rightarrow> 'srv list \<Rightarrow> 'srv SkvServer" where
  "skv_StartServer me maxraftstate gid masters =
     \<lparr>skvMe = me, skvMaxraftstate = maxraftstate, skvGid = gid, skvMasters = masters\<rparr>"

definition skv_Get_handler :: "string \<Rightarrow> SGetReply \<Rightarrow> 'srv SkvServer \<Rightarrow> 'srv SkvServer \<times> SGetReply" where
  "skv_Get_handler args reply kv = (kv, reply)"

definition skv_PutAppend_handler :: "SPutAppendArgs \<Rightarrow> SPutAppendReply \<Rightarrow> 'srv SkvServer \<Rightarrow> 'srv SkvServer \<times> SPutAppendReply" where
  "skv_PutAppend_handler args reply kv = (kv, reply)"

section \<open>The clerks of the Paxos variants\<close>

text \<open>Their replies have no \<open>WrongLeader\<close>, and their RPCs go through \<open>call\<close>.\<close>

record PGetReply =
  pgErr :: string
  pgValue :: string

definition judgePGet :: "PGetReply option \<Rightarrow> string verdict" where
  "judgePGet r = (case r of None \<Rightarrow> NextServer
     | Some reply \<Rightarrow>
       if pgErr reply = ''OK'' \<or> pgErr reply = ''ErrNoKey'' then Return (pgValue reply)
       else if pgErr reply = ''ErrWrongGroup'' then LeaveGroup else NextServer)"

definition judgePPut :: "string option \<Rightarrow> unit verdict" where
  "judgePPut r = (case r of None \<Rightarrow> NextServer
     | Some err \<Rightarrow> if err = ''OK'' then Return () else if err = ''ErrWrongGroup'' then LeaveGroup else NextServer)"

definition pskv_Get ::
  "(nat \<Rightarrow> string \<Rightarrow> bool) \<Rightarrow> (nat \<Rightarrow> string \<Rightarrow> string \<Rightarrow> string \<Rightarrow> PGetReply option) \<Rightarrow> (nat \<Rightarrow> string \<Rightarrow> string \<Rightarrow> QueryArgs \<Rightarrow> Config option) \<Rightarrow>
   string \<Rightarrow> string SClerk \<Rightarrow> nat \<Rightarrow> (string \<times> string SClerk \<times> nat) option" where
  "pskv_Get dial send smsend key ck k =
     (case groupRounds (\<lambda>j srv. netCall dial send j srv ''ShardKV.Get'' key) judgePGet (groupOf key)
        (psm_Query dial smsend (scMasters ck) (-1)) (scConfig ck) k of
        None \<Rightarrow> None | Some (v, cfg, k) \<Rightarrow> Some (v, ck\<lparr>scConfig := cfg\<rparr>, k))"

definition pskv_PutAppend ::
  "(nat \<Rightarrow> string \<Rightarrow> bool) \<Rightarrow> (nat \<Rightarrow> string \<Rightarrow> string \<Rightarrow> SPutAppendArgs \<Rightarrow> string option) \<Rightarrow> (nat \<Rightarrow> string \<Rightarrow> string \<Rightarrow> QueryArgs \<Rightarrow> Config option) \<Rightarrow>
   string \<Rightarrow> string \<Rightarrow> string \<Rightarrow> string SClerk \<Rightarrow> nat \<Rightarrow> (string SClerk \<times> nat) option" where
  "pskv_PutAppend dial send smsend key val op ck k =
     (case groupRounds (\<lambda>j srv. netCall dial send j srv ''ShardKV.PutAppend'' \<lparr>spKey = key, spValue = val, spOp = op\<rparr>) judgePPut
        (groupOf key) (psm_Query dial smsend (scMasters ck) (-1)) (scConfig ck) k of
        None \<Rightarrow> None | Some (_, cfg, k) \<Rightarrow> Some (ck\<lparr>scConfig := cfg\<rparr>, k))"

definition dkv_Get ::
  "(nat \<Rightarrow> string \<Rightarrow> bool) \<Rightarrow> (nat \<Rightarrow> string \<Rightarrow> string \<Rightarrow> string \<Rightarrow> PGetReply option) \<Rightarrow> (nat \<Rightarrow> string \<Rightarrow> string \<Rightarrow> QueryArgs \<Rightarrow> Config option) \<Rightarrow>
   string \<Rightarrow> string SClerk \<Rightarrow> nat \<Rightarrow> (string \<times> string SClerk \<times> nat) option" where
  "dkv_Get dial send smsend key ck k =
     (case groupRounds (\<lambda>j srv. netCall dial send j srv ''DisKV.Get'' key) judgePGet (groupOf key)
        (psm_Query dial smsend (scMasters ck) (-1)) (scConfig ck) k of
        None \<Rightarrow> None | Some (v, cfg, k) \<Rightarrow> Some (v, ck\<lparr>scConfig := cfg\<rparr>, k))"

definition dkv_PutAppend ::
  "(nat \<Rightarrow> string \<Rightarrow> bool) \<Rightarrow> (nat \<Rightarrow> string \<Rightarrow> string \<Rightarrow> SPutAppendArgs \<Rightarrow> string option) \<Rightarrow> (nat \<Rightarrow> string \<Rightarrow> string \<Rightarrow> QueryArgs \<Rightarrow> Config option) \<Rightarrow>
   string \<Rightarrow> string \<Rightarrow> string \<Rightarrow> string SClerk \<Rightarrow> nat \<Rightarrow> (string SClerk \<times> nat) option" where
  "dkv_PutAppend dial send smsend key val op ck k =
     (case groupRounds (\<lambda>j srv. netCall dial send j srv ''DisKV.PutAppend'' \<lparr>spKey = key, spValue = val, spOp = op\<rparr>) judgePPut
        (groupOf key) (psm_Query dial smsend (scMasters ck) (-1)) (scConfig ck) k of
        None \<Rightarrow> None | Some (_, cfg, k) \<Rightarrow> Some (ck\<lparr>scConfig := cfg\<rparr>, k))"

definition psm_MakeClerk :: "'srv list \<Rightarrow> 'srv list" where
  "psm_MakeClerk srvs = srvs"

definition pskv_MakeClerk :: "string list \<Rightarrow> string SClerk" where
  "pskv_MakeClerk shardmasters = \<lparr>scMasters = psm_MakeClerk shardmasters, scConfig = zeroConfig\<rparr>"

definition dkv_MakeClerk :: "string list \<Rightarrow> string SClerk" where
  "dkv_MakeClerk shardmasters = \<lparr>scMasters = psm_MakeClerk shardmasters, scConfig = zeroConfig\<rparr>"

definition pskv_Put where
  "pskv_Put dial send smsend key val = pskv_PutAppend dial send smsend key val ''Put''"

definition pskv_Append where
  "pskv_Append dial send smsend key val = pskv_PutAppend dial send smsend key val ''Append''"

definition dkv_Put where
  "dkv_Put dial send smsend key val = dkv_PutAppend dial send smsend key val ''Put''"

definition dkv_Append where
  "dkv_Append dial send smsend key val = dkv_PutAppend dial send smsend key val ''Append''"

section \<open>Lemmas\<close>

lemma key2shard_less: "key2shard key < NShards"
  by (simp add: key2shard_def NShards_def)

lemma judgeSGet_Return:
  "judgeSGet r = Return v \<longleftrightarrow> (\<exists>reply. r = Some reply \<and> \<not> sgWrongLeader reply \<and>
     sgErr reply \<in> {''OK'', ''ErrNoKey''} \<and> sgValue reply = v)"
  by (auto simp: judgeSGet_def split: option.splits)

lemma judgeQuery_Return:
  "judgeQuery r = Return cfg \<longleftrightarrow> (\<exists>reply. r = Some reply \<and> \<not> qrWrongLeader reply \<and> qrConfig reply = cfg)"
  by (auto simp: judgeQuery_def split: option.splits)

lemma judgeQuery_no_leave [simp]: "judgeQuery r \<noteq> LeaveGroup"
  by (auto simp: judgeQuery_def split: option.splits)

lemma sm_Query_result:
  assumes "sm_Query rpc srvs num k = Some (cfg, k')"
  obtains j srv reply where "k \<le> j" "j < k'" "srv \<in> set srvs"
    "rpc j srv ''ShardMaster.Query'' \<lparr>qNum = num\<rparr> = Some reply" "\<not> qrWrongLeader reply" "qrConfig reply = cfg"
proof -
  from rounds_return [OF assms [unfolded sm_Query_def]] obtain j s where
    j: "k \<le> j" "j < k'" "s \<in> set srvs" "judgeQuery (rpc j s ''ShardMaster.Query'' \<lparr>qNum = num\<rparr>) = Return cfg" by blast
  from j(4) obtain reply where "rpc j s ''ShardMaster.Query'' \<lparr>qNum = num\<rparr> = Some reply"
    "\<not> qrWrongLeader reply" "qrConfig reply = cfg" by (auto simp: judgeQuery_Return)
  with j(1-3) that show ?thesis by blast
qed

lemma zero_group: "groupOf key zeroConfig = None"
  by (simp add: groupOf_def zeroConfig_def)

section \<open>Theorems\<close>

text \<open>
  C29: The value a sharded clerk's \<open>Get\<close> returns comes from a server of the group that the
  clerk's configuration assigns the key's shard to, a shard within the array's bounds, in a reply
  that reports success or a missing key and not a wrong leader; and that configuration is the one
  the clerk had or one a shardmaster sent.
\<close>

theorem skv_Get_result:
  assumes "skv_Get make_end rpc smrpc key ck k = Some (v, ck', k')"
  shows "key2shard key < NShards \<and>
    (\<exists>srvs srv j reply. Groups (scConfig ck') (Shards (scConfig ck') ! key2shard key) = Some srvs \<and> srv \<in> set srvs \<and>
       rpc j (make_end srv) ''ShardKV.Get'' key = Some reply \<and> \<not> sgWrongLeader reply \<and>
       sgErr reply \<in> {''OK'', ''ErrNoKey''} \<and> sgValue reply = v) \<and>
    (scConfig ck' = scConfig ck \<or> (\<exists>j m reply. m \<in> set (scMasters ck) \<and>
       smrpc j m ''ShardMaster.Query'' \<lparr>qNum = -1\<rparr> = Some reply \<and> \<not> qrWrongLeader reply \<and> scConfig ck' = qrConfig reply))"
proof -
  let ?P = "\<lambda>c. c = scConfig ck \<or> (\<exists>j m reply. m \<in> set (scMasters ck) \<and>
       smrpc j m ''ShardMaster.Query'' \<lparr>qNum = -1\<rparr> = Some reply \<and> \<not> qrWrongLeader reply \<and> c = qrConfig reply)"
  obtain cfg where g: "groupRounds (\<lambda>j srv. rpc j (make_end srv) ''ShardKV.Get'' key) judgeSGet (groupOf key)
      (sm_Query smrpc (scMasters ck) (-1)) (scConfig ck) k = Some (v, cfg, k')" "ck' = ck\<lparr>scConfig := cfg\<rparr>"
    using assms by (auto simp: skv_Get_def split: option.splits)
  have q: "\<forall>j c k'. sm_Query smrpc (scMasters ck) (-1) j = Some (c, k') \<longrightarrow> ?P c"
    by (intro allI impI, erule sm_Query_result) blast
  from groupRounds_result [OF g(1), of ?P] q g(2) show ?thesis
    by (auto simp: groupOf_def Let_def judgeSGet_Return key2shard_less)
qed

definition demoConfig :: Config where
  "demoConfig = \<lparr>Num = 1, Shards = replicate 10 100, Groups = [100 \<mapsto> [''s0'']]\<rparr>"

lemma demo_group: "groupOf key demoConfig = Some [''s0'']"
  using key2shard_less [of key] by (simp add: groupOf_def demoConfig_def NShards_def Let_def)

definition demo_kv :: "nat \<Rightarrow> string \<Rightarrow> string \<Rightarrow> string \<Rightarrow> SGetReply option" where
  "demo_kv j srv meth key = (if j < 3 then None else Some \<lparr>sgWrongLeader = False, sgErr = ''OK'', sgValue = key\<rparr>)"

definition demo_sm :: "nat \<Rightarrow> nat \<Rightarrow> string \<Rightarrow> QueryArgs \<Rightarrow> QueryReply option" where
  "demo_sm j srv meth args = (if j < 2 then None else Some \<lparr>qrWrongLeader = False, qrErr = ''OK'', qrConfig = demoConfig\<rparr>)"

text \<open>
  C28: A sharded clerk's \<open>Get\<close> returns if from some call on one shardmaster answers queries,
  every configuration sent assigns the key's shard to a group with a server that answers with
  success or a missing key, and no server before it in the group's list answers that it is the wrong
  group (such an answer ends the round over the group).
\<close>

theorem skv_Get_returns:
  assumes "m \<in> set (scMasters ck)"
    "\<And>j. T \<le> j \<Longrightarrow> \<exists>reply. smrpc j m ''ShardMaster.Query'' \<lparr>qNum = -1\<rparr> = Some reply \<and> \<not> qrWrongLeader reply"
    "\<And>j m reply. T \<le> j \<Longrightarrow> smrpc j m ''ShardMaster.Query'' \<lparr>qNum = -1\<rparr> = Some reply \<Longrightarrow>
       \<exists>before srv after. groupOf key (qrConfig reply) = Some (before @ srv # after) \<and>
         (\<forall>i \<ge> T. \<exists>r. rpc i (make_end srv) ''ShardKV.Get'' key = Some r \<and> \<not> sgWrongLeader r \<and> sgErr r \<in> {''OK'', ''ErrNoKey''}) \<and>
         (\<forall>i \<ge> T. \<forall>s \<in> set before. \<forall>r. rpc i (make_end s) ''ShardKV.Get'' key = Some r \<longrightarrow> sgErr r \<noteq> ''ErrWrongGroup'')"
  shows "\<exists>v ck' k'. skv_Get make_end rpc smrpc key ck k = Some (v, ck', k')"
proof -
  let ?q = "sm_Query smrpc (scMasters ck) (-1)"
  let ?r = "\<lambda>j srv. rpc j (make_end srv) ''ShardKV.Get'' key"
  have "\<exists>cfg k'. ?q j = Some (cfg, k')" for j
    unfolding sm_Query_def
    by (rule rounds_terminates [of m _ T]) (use assms(1,2) in \<open>auto simp: judgeQuery_Return\<close>)
  moreover have "j < k'" if "?q j = Some (cfg, k')" for j cfg k'
    using that by (auto elim: sm_Query_result)
  ultimately have q: "\<exists>cfg k'. ?q j = Some (cfg, k') \<and> j < k'" for j by blast
  have good: "\<exists>before s after. groupOf key cfg = Some (before @ s # after) \<and> (\<forall>i \<ge> T. \<exists>v. judgeSGet (?r i s) = Return v) \<and>
      (\<forall>i \<ge> T. \<forall>s' \<in> set before. judgeSGet (?r i s') \<noteq> LeaveGroup)"
    if c: "?q j = Some (cfg, k')" "T \<le> j" for j cfg k'
  proof -
    obtain i m reply where "j \<le> i" "smrpc i m ''ShardMaster.Query'' \<lparr>qNum = -1\<rparr> = Some reply" "qrConfig reply = cfg"
      by (rule sm_Query_result [OF c(1)])
    with c(2) assms(3) [of i m reply] obtain before srv after where g: "groupOf key cfg = Some (before @ srv # after)"
      "\<forall>i \<ge> T. \<exists>r. ?r i srv = Some r \<and> \<not> sgWrongLeader r \<and> sgErr r \<in> {''OK'', ''ErrNoKey''}"
      "\<forall>i \<ge> T. \<forall>s \<in> set before. \<forall>r. ?r i s = Some r \<longrightarrow> sgErr r \<noteq> ''ErrWrongGroup''" by auto
    have "\<forall>i \<ge> T. \<exists>v. judgeSGet (?r i srv) = Return v" using g(2) by (auto simp: judgeSGet_Return)
    moreover have "\<forall>i \<ge> T. \<forall>s \<in> set before. judgeSGet (?r i s) \<noteq> LeaveGroup"
      using g(3) by (fastforce simp: judgeSGet_def split: option.splits if_splits)
    ultimately show ?thesis using g(1) by blast
  qed
  have "\<exists>w. groupRounds ?r judgeSGet (groupOf key) ?q (scConfig ck) k = Some w"
    by (rule groupRounds_terminates [of ?q T]) (fact q good)+
  then obtain w where "groupRounds ?r judgeSGet (groupOf key) ?q (scConfig ck) k = Some w" by blast
  then show ?thesis by (cases w) (simp add: skv_Get_def)
qed

theorem skv_Get_returns_witness:
  "\<exists>v ck' k'. skv_Get id demo_kv demo_sm ''key'' (skv_MakeClerk [5]) 0 = Some (v, ck', k')"
proof (rule skv_Get_returns [of 5 _ 3])
  show "5 \<in> set (scMasters (skv_MakeClerk [5]))" by (simp add: skv_MakeClerk_def)
  show "\<exists>before srv after. groupOf ''key'' (qrConfig reply) = Some (before @ srv # after) \<and>
      (\<forall>i \<ge> 3. \<exists>r. demo_kv i (id srv) ''ShardKV.Get'' ''key'' = Some r \<and> \<not> sgWrongLeader r \<and> sgErr r \<in> {''OK'', ''ErrNoKey''}) \<and>
      (\<forall>i \<ge> 3. \<forall>s \<in> set before. \<forall>r. demo_kv i (id s) ''ShardKV.Get'' ''key'' = Some r \<longrightarrow> sgErr r \<noteq> ''ErrWrongGroup'')"
    if "3 \<le> j" "demo_sm j m ''ShardMaster.Query'' \<lparr>qNum = -1\<rparr> = Some reply" for j m reply
    by (rule exI [of _ "[]"]) (use that in \<open>auto simp: demo_sm_def demo_kv_def demo_group split: if_splits\<close>)
qed (auto simp: demo_sm_def)

lemma demo_Get: "skv_Get id demo_kv demo_sm ''key'' (skv_MakeClerk [5]) 0 =
    Some (''key'', \<lparr>scMasters = [5], scConfig = demoConfig\<rparr>, 4)"
proof -
  let ?Q = "rounds (\<lambda>j srv. demo_sm j srv ''ShardMaster.Query'' \<lparr>qNum = -1\<rparr>) judgeQuery [5]"
  have "?Q 0 = ?Q 1" by (subst rounds.simps) (simp add: demo_sm_def judgeQuery_def)
  also have "\<dots> = ?Q 2" by (subst rounds.simps) (simp add: demo_sm_def judgeQuery_def numeral_2_eq_2)
  also have "\<dots> = Some (demoConfig, 3)" by (subst rounds.simps) (simp add: demo_sm_def judgeQuery_def)
  finally have "?Q 0 = Some (demoConfig, 3)" .
  then have q: "sm_Query demo_sm [5] (-1) 0 = Some (demoConfig, 3)" by (simp add: sm_Query_def)
  let ?G = "groupRounds (\<lambda>j srv. demo_kv j (id srv) ''ShardKV.Get'' ''key'') judgeSGet (groupOf ''key'') (sm_Query demo_sm [5] (-1))"
  have "?G zeroConfig 0 = ?G demoConfig 3" by (subst groupRounds.simps) (simp add: zero_group q)
  also have "\<dots> = Some (''key'', demoConfig, 4)"
    by (subst groupRounds.simps) (simp add: demo_group demo_kv_def judgeSGet_def)
  finally show ?thesis by (simp add: skv_Get_def skv_MakeClerk_def)
qed

theorem skv_Get_result_witness:
  "key2shard ''key'' < NShards \<and> (\<exists>j srv reply. demo_kv j srv ''ShardKV.Get'' ''key'' = Some reply \<and> sgValue reply = ''key'')"
  using skv_Get_result [OF demo_Get] by auto

text \<open>
  C30: Against the shardmaster of this repository, whose handlers are not written, a fresh clerk's
  \<open>Get\<close> never returns: each answered query brings the zero configuration, which has no group
  for any key.
\<close>

theorem skv_Get_blocked:
  assumes "\<And>j m args reply. smrpc j m ''ShardMaster.Query'' args = Some reply \<Longrightarrow>
    (\<exists>sm. reply = snd (sm_Query_handler args zeroQueryReply sm))"
  shows "skv_Get make_end rpc smrpc key (skv_MakeClerk masters) k = None"
proof -
  have "c = zeroConfig" if q: "sm_Query smrpc masters (-1) j = Some (c, k')" for j c k'
  proof -
    obtain i m reply where "smrpc i m ''ShardMaster.Query'' \<lparr>qNum = -1\<rparr> = Some reply" "qrConfig reply = c"
      by (rule sm_Query_result [OF q])
    then show ?thesis using assms by (fastforce simp: sm_Query_handler_def zeroQueryReply_def)
  qed
  then have "groupRounds (\<lambda>j srv. rpc j (make_end srv) ''ShardKV.Get'' key) judgeSGet (groupOf key)
      (sm_Query smrpc masters (-1)) zeroConfig k = None"
    by (intro groupRounds_no_group [where P = "\<lambda>c. c = zeroConfig"]) (auto simp: zero_group)
  then show ?thesis by (simp add: skv_Get_def skv_MakeClerk_def)
qed

theorem skv_Get_blocked_witness:
  "skv_Get id demo_kv (\<lambda>j m meth args. Some (snd (sm_Query_handler args zeroQueryReply (sm_StartServer m))))
     ''key'' (skv_MakeClerk [0, 1, 2]) 0 = None"
  by (rule skv_Get_blocked) auto

end
