(* ===== verification/Strconv.thy ===== *)
theory Strconv
  imports Prelude
begin

text \<open>
  Decimal numbers as \<open>strconv.Itoa\<close> writes them, for the natural numbers the programs
  convert.
\<close>

definition digit :: "nat \<Rightarrow> char" where
  "digit d = char_of (48 + d)"

text \<open>\<open>strconv.Itoa\<close>\<close>

fun itoa :: "nat \<Rightarrow> string" where
  "itoa n = (if n < 10 then [digit n] else itoa (n div 10) @ [digit (n mod 10)])"

declare itoa.simps [simp del]

lemma digit_val: "d < 10 \<Longrightarrow> of_char (digit d) = 48 + d"
  by (simp add: digit_def)

definition numVal :: "string \<Rightarrow> nat" where
  "numVal s = foldl (\<lambda>a c. 10 * a + (of_char c - 48)) 0 s"

lemma numVal_snoc: "numVal (s @ [c]) = 10 * numVal s + (of_char c - 48)"
  by (simp add: numVal_def)

lemma numVal_itoa: "numVal (itoa n) = n"
proof (induction n rule: itoa.induct)
  case (1 n)
  show ?case
  proof (cases "n < 10")
    case True
    then show ?thesis by (subst itoa.simps) (simp add: numVal_def digit_val)
  next
    case False
    then show ?thesis using 1 by (subst itoa.simps) (simp add: numVal_snoc digit_val)
  qed
qed

lemma itoa_inject [simp]: "itoa m = itoa n \<longleftrightarrow> m = n"
  using numVal_itoa by metis

lemma itoa_digits: "c \<in> set (itoa n) \<Longrightarrow> 48 \<le> (of_char c :: nat) \<and> (of_char c :: nat) < 58"
proof (induction n rule: itoa.induct)
  case (1 n)
  show ?case
  proof (cases "n < 10")
    case True
    then have "c = digit n" using 1(2) by (simp add: itoa.simps)
    then show ?thesis using True by (simp add: digit_val)
  next
    case False
    then have "c \<in> set (itoa (n div 10)) \<or> c = digit (n mod 10)" using 1(2) by (subst (asm) itoa.simps) auto
    then show ?thesis using 1(1) [OF False] by (auto simp: digit_val)
  qed
qed

lemma itoa_no_dash: "CHR ''-'' \<notin> set (itoa n)" "CHR ''r'' \<notin> set (itoa n)"
  using itoa_digits [of "CHR ''-''" n] itoa_digits [of "CHR ''r''" n] by auto

lemma itoa_nonempty [simp]: "itoa n \<noteq> []"
  by (subst itoa.simps) auto

end
