(* ===== verification/Json_Utf8.thy ===== *)
theory Json_Utf8
  imports Strconv
begin

text \<open>
  What is left of a Go string after \<open>encoding/json\<close> has encoded and decoded it. A Go string is any
  sequence of bytes. The encoder writes a byte that is not part of a well-formed UTF-8 sequence as
  the escape of U+FFFD, which the decoder reads as the three bytes of that character; everything else,
  escaped or not, is read back as it was.
\<close>

section \<open>UTF-8\<close>

definition inRange :: "nat \<Rightarrow> nat \<Rightarrow> char \<Rightarrow> bool" where
  "inRange lo hi c \<longleftrightarrow> lo \<le> (of_char c :: nat) \<and> (of_char c :: nat) \<le> hi"

text \<open>\<open>n\<close> continuation bytes, the first of them between \<open>lo\<close> and \<open>hi\<close>.\<close>

fun continues :: "nat \<Rightarrow> nat \<Rightarrow> nat \<Rightarrow> string \<Rightarrow> bool" where
  "continues 0 lo hi s = True"
| "continues (Suc n) lo hi [] = False"
| "continues (Suc n) lo hi (c # s) = (inRange lo hi c \<and> continues n 0x80 0xBF s)"

text \<open>
  The lead bytes \<open>utf8.DecodeRuneInString\<close> accepts, with the number of continuation bytes and the
  range of the first of them; and the size of the character at the start of a string, 0 if it is
  ill-formed.
\<close>

definition leadByte :: "char \<Rightarrow> (nat \<times> nat \<times> nat) option" where
  "leadByte c =
     (if inRange 0 0x7F c then Some (0, 0x80, 0xBF)
      else if inRange 0xC2 0xDF c then Some (1, 0x80, 0xBF)
      else if inRange 0xE0 0xE0 c then Some (2, 0xA0, 0xBF)
      else if inRange 0xED 0xED c then Some (2, 0x80, 0x9F)
      else if inRange 0xE1 0xEF c then Some (2, 0x80, 0xBF)
      else if inRange 0xF0 0xF0 c then Some (3, 0x90, 0xBF)
      else if inRange 0xF1 0xF3 c then Some (3, 0x80, 0xBF)
      else if inRange 0xF4 0xF4 c then Some (3, 0x80, 0x8F)
      else None)"

definition runeSize :: "char \<Rightarrow> string \<Rightarrow> nat" where
  "runeSize c s = (case leadByte c of None \<Rightarrow> 0 | Some (n, lo, hi) \<Rightarrow> if continues n lo hi s then Suc n else 0)"

definition runeError :: string where
  "runeError = [CHR 0xEF, CHR 0xBF, CHR 0xBD]"

function jsonString :: "string \<Rightarrow> string" where
  "jsonString [] = []"
| "jsonString (c # s) = (let n = runeSize c s in
     if n = 0 then runeError @ jsonString s else take n (c # s) @ jsonString (drop n (c # s)))"
  by pat_completeness auto
termination by (relation "measure length") auto

declare jsonString.simps(2) [simp del]

section \<open>Well-formed strings\<close>

definition validUtf8 :: "string \<Rightarrow> bool" where
  "validUtf8 s \<longleftrightarrow> jsonString s = s"

lemma validUtf8_D: "validUtf8 s \<Longrightarrow> jsonString s = s"
  by (simp add: validUtf8_def)

lemma continues_append: "continues n lo hi s \<Longrightarrow> continues n lo hi (s @ t)"
  by (induction n lo hi s rule: continues.induct) auto

lemma continues_length: "continues n lo hi s \<Longrightarrow> n \<le> length s"
  by (induction n lo hi s rule: continues.induct) auto

lemma runeSize_append: "runeSize c s \<noteq> 0 \<Longrightarrow> runeSize c (s @ t) = runeSize c s"
  by (auto simp: runeSize_def continues_append split: option.splits if_splits)

lemma runeSize_length: "runeSize c s \<le> Suc (length s)"
  by (auto simp: runeSize_def dest: continues_length split: option.splits)

lemma jsonString_length: "length s \<le> length (jsonString s)"
proof (induction s rule: jsonString.induct)
  case (2 c s)
  show ?case
  proof (cases "runeSize c s = 0")
    case True
    then show ?thesis using 2(1) by (simp add: jsonString.simps(2) runeError_def)
  next
    case False
    then show ?thesis using 2(2) [OF refl False] runeSize_length [of c s] by (simp add: jsonString.simps(2) Let_def)
  qed
qed simp

lemma jsonString_append: "validUtf8 a \<Longrightarrow> jsonString (a @ b) = a @ jsonString b"
  unfolding validUtf8_def
proof (induction a rule: jsonString.induct)
  case (2 c s)
  let ?n = "runeSize c s"
  have n: "?n \<noteq> 0"
  proof
    assume "?n = 0"
    then have "length (jsonString (c # s)) = 3 + length (jsonString s)" by (simp add: jsonString.simps(2) runeError_def)
    then show False using 2(3) jsonString_length [of s] by simp
  qed
  then have "take ?n (c # s) @ jsonString (drop ?n (c # s)) = take ?n (c # s) @ drop ?n (c # s)"
    using 2(3) unfolding append_take_drop_id by (simp add: jsonString.simps(2) Let_def)
  then have "jsonString (drop ?n (c # s)) = drop ?n (c # s)" unfolding same_append_eq .
  note IH = 2(2) [OF refl n this]
  have "drop ?n ((c # s) @ b) = drop ?n (c # s) @ b" "take ?n ((c # s) @ b) = take ?n (c # s)"
    using runeSize_length [of c s] unfolding drop_append take_append by simp_all
  moreover have "jsonString ((c # s) @ b) = take ?n ((c # s) @ b) @ jsonString (drop ?n ((c # s) @ b))"
    using n runeSize_append [OF n, of b] by (simp add: jsonString.simps(2) Let_def)
  ultimately show ?case using IH append_take_drop_id [of ?n "c # s"] by (metis append_assoc)
qed simp

lemma validUtf8_Nil [simp]: "validUtf8 []"
  by (simp add: validUtf8_def)

lemma validUtf8_append [intro]: "validUtf8 a \<Longrightarrow> validUtf8 b \<Longrightarrow> validUtf8 (a @ b)"
  by (simp add: jsonString_append validUtf8_def)

lemma validUtf8_ascii: "list_all (inRange 0 0x7F) s \<Longrightarrow> validUtf8 s"
proof (induction s)
  case (Cons c s)
  then show ?case by (simp add: validUtf8_def jsonString.simps(2) runeSize_def leadByte_def)
qed simp

text \<open>Bytes that are not UTF-8 are lost: different strings become the same.\<close>

lemma jsonString_collision: "jsonString [CHR 0xFF] = jsonString [CHR 0xFE]"
  by code_simp

end
