(* ===== verification/Mapreduce.thy ===== *)
theory Mapreduce
  imports Json_Utf8 "HOL-Library.Word" "HOL-Library.AList" "HOL-Library.Char_ord" "HOL-Library.List_Lexorder"
begin

text \<open>
  The MapReduce library of \<open>src/mit/src/mapreduce\<close>: task names, the hash that partitions
  keys, map and reduce tasks, the merge, the sequential job and the clean-up. The file system is
  a map from names to files. A file written through \<open>json.Encoder\<close> is the list of the
  values that decoding gives back one by one: those encoded into it, with the bytes that are not
  UTF-8 replaced (\<open>Json_Utf8\<close>). The bytes of such a file and what
  decoding makes of other files are the parameter \<open>codec\<close>. \<open>log.Fatal\<close> and panics are the left summand.
\<close>

unbundle bit_operations_syntax

section \<open>Data and names\<close>

datatype jobPhase = mapPhase | reducePhase

record KeyValue =
  Key :: string
  Value :: string

datatype contents = Bytes string | Json "KeyValue list"

record codec =
  render :: "KeyValue list \<Rightarrow> string"
  parse :: "string \<Rightarrow> KeyValue list"

type_synonym fs = "string \<rightharpoonup> contents"

datatype mrfail = FatalOpen string | FatalRemove string | PanicDivideByZero | PanicIndex

definition reduceName :: "string \<Rightarrow> nat \<Rightarrow> nat \<Rightarrow> string" where
  "reduceName jobName mapTask reduceTask = ''mrtmp.'' @ jobName @ ''-'' @ itoa mapTask @ ''-'' @ itoa reduceTask"

definition mergeName :: "string \<Rightarrow> nat \<Rightarrow> string" where
  "mergeName jobName reduceTask = ''mrtmp.'' @ jobName @ ''-res-'' @ itoa reduceTask"

definition outName :: "string \<Rightarrow> string" where
  "outName jobName = ''mrtmp.'' @ jobName"

text \<open>The hash \<open>fnv.New32a\<close> over the bytes of the key.\<close>

definition ihash :: "string \<Rightarrow> 32 word" where
  "ihash s = fold (\<lambda>c h. (h XOR word_of_nat (of_char c)) * 16777619) s 2166136261"

text \<open>The reduce task of a key, \<open>ihash(key) % uint32(nReduce)\<close>.\<close>

definition bin :: "nat \<Rightarrow> string \<Rightarrow> nat" where
  "bin nReduce key = unat (ihash key mod word_of_nat nReduce)"

section \<open>Map tasks\<close>

definition fileBytes :: "codec \<Rightarrow> contents \<Rightarrow> string" where
  "fileBytes c f = (case f of Bytes s \<Rightarrow> s | Json kvs \<Rightarrow> render c kvs)"

text \<open>\<open>enc.Encode\<close> of a key/value pair, as decoding will give it back.\<close>

definition jsonKV :: "KeyValue \<Rightarrow> KeyValue" where
  "jsonKV kv = \<lparr>Key = jsonString (Key kv), Value = jsonString (Value kv)\<rparr>"

definition appendKV :: "string \<Rightarrow> KeyValue \<Rightarrow> fs \<Rightarrow> fs" where
  "appendKV name kv d = d(name \<mapsto> Json ((case d name of Some (Json kvs) \<Rightarrow> kvs | _ \<Rightarrow> []) @ [jsonKV kv]))"

text \<open>The encoding loop of \<open>doMap\<close>; \<open>opened\<close> are the files already created.\<close>

fun encodeAll :: "string \<Rightarrow> nat \<Rightarrow> nat \<Rightarrow> KeyValue list \<Rightarrow> string list \<Rightarrow> fs \<Rightarrow> mrfail + fs" where
  "encodeAll jobName task nReduce [] opened d = Inr d"
| "encodeAll jobName task nReduce (kv # kvs) opened d =
     (if (word_of_nat nReduce :: 32 word) = 0 then Inl PanicDivideByZero
      else let name = reduceName jobName task (bin nReduce (Key kv));
               (opened, d) = (if name \<notin> set opened then (name # opened, d(name \<mapsto> Json [])) else (opened, d))
           in encodeAll jobName task nReduce kvs opened (appendKV name kv d))"

definition doMap :: "codec \<Rightarrow> string \<Rightarrow> nat \<Rightarrow> string \<Rightarrow> nat \<Rightarrow> (string \<Rightarrow> string \<Rightarrow> KeyValue list) \<Rightarrow> fs \<Rightarrow> mrfail + fs" where
  "doMap c jobName task inFile nReduce mapF d = (case d inFile of
     Some f \<Rightarrow> encodeAll jobName task nReduce (mapF inFile (fileBytes c f)) [] d
   | None \<Rightarrow> Inl (FatalOpen inFile))"

section \<open>Reduce tasks\<close>

definition decodeFile :: "codec \<Rightarrow> contents \<Rightarrow> KeyValue list" where
  "decodeFile c f = (case f of Json kvs \<Rightarrow> kvs | Bytes s \<Rightarrow> parse c s)"

definition addValue :: "KeyValue \<Rightarrow> (string \<times> string list) list \<Rightarrow> (string \<times> string list) list" where
  "addValue kv m = (case map_of m (Key kv) of
     Some arr \<Rightarrow> AList.update (Key kv) (arr @ [Value kv]) m
   | None \<Rightarrow> AList.update (Key kv) [Value kv] m)"

text \<open>The files a reduce task reads, skipping those that do not exist.\<close>

fun collect :: "codec \<Rightarrow> string \<Rightarrow> nat \<Rightarrow> nat list \<Rightarrow> fs \<Rightarrow>
    (string \<times> string list) list \<Rightarrow> (string \<times> string list) list" where
  "collect c jobName task [] d m = m"
| "collect c jobName task (i # is) d m = (case d (reduceName jobName i task) of
     None \<Rightarrow> collect c jobName task is d m
   | Some f \<Rightarrow> collect c jobName task is d (fold addValue (decodeFile c f) m))"

text \<open>
  Go iterates over a map in an unspecified order: \<open>ord\<close> gives the order of the keys.
\<close>

definition doReduce :: "codec \<Rightarrow> (string list \<Rightarrow> string list) \<Rightarrow> string \<Rightarrow> nat \<Rightarrow> nat \<Rightarrow>
    (string \<Rightarrow> string list \<Rightarrow> string) \<Rightarrow> fs \<Rightarrow> fs" where
  "doReduce c ord jobName task nMap reduceF d =
     (let m = collect c jobName task [0..<nMap] d [] in
      d(mergeName jobName task \<mapsto>
         Json (map (\<lambda>k. jsonKV \<lparr>Key = k, Value = reduceF k (the (map_of m k))\<rparr>) (ord (map fst m)))))"

section \<open>The merge\<close>

fun readMerged :: "codec \<Rightarrow> string \<Rightarrow> nat list \<Rightarrow> fs \<Rightarrow> (string \<times> string) list \<Rightarrow>
    mrfail + (string \<times> string) list" where
  "readMerged c jobName [] d m = Inr m"
| "readMerged c jobName (i # is) d m = (case d (mergeName jobName i) of
     None \<Rightarrow> Inl (FatalOpen (mergeName jobName i))
   | Some f \<Rightarrow> readMerged c jobName is d (fold (\<lambda>kv. AList.update (Key kv) (Value kv)) (decodeFile c f) m))"

definition outLine :: "string \<Rightarrow> string \<Rightarrow> string" where
  "outLine k v = k @ '': '' @ v @ [CHR 10]"

definition merge :: "codec \<Rightarrow> string \<Rightarrow> nat \<Rightarrow> fs \<Rightarrow> mrfail + fs" where
  "merge c jobName nReduce d = (case readMerged c jobName [0..<nReduce] d [] of
     Inl e \<Rightarrow> Inl e
   | Inr kvs \<Rightarrow> (let keys = sort (map fst kvs) in
       Inr (d(outName jobName \<mapsto> Bytes (concat (map (\<lambda>k. outLine k (the (map_of kvs k))) keys))))))"

section \<open>The sequential job\<close>

record Master =
  jobName :: string
  files :: "string list"
  nReduce :: nat
  workers :: "string list"
  stats :: "nat list"

definition newMaster :: Master where
  "newMaster = \<lparr>jobName = [], files = [], nReduce = 0, workers = [], stats = []\<rparr>"

fun mapTasks :: "codec \<Rightarrow> string \<Rightarrow> nat \<Rightarrow> (string \<Rightarrow> string \<Rightarrow> KeyValue list) \<Rightarrow> nat \<Rightarrow> string list \<Rightarrow> fs \<Rightarrow> mrfail + fs" where
  "mapTasks c job nR mapF i [] d = Inr d"
| "mapTasks c job nR mapF i (f # fls) d = (case doMap c job i f nR mapF d of
     Inl e \<Rightarrow> Inl e | Inr d \<Rightarrow> mapTasks c job nR mapF (Suc i) fls d)"

definition reduceTasks :: "codec \<Rightarrow> (string list \<Rightarrow> string list) \<Rightarrow> string \<Rightarrow> nat \<Rightarrow>
    (string \<Rightarrow> string list \<Rightarrow> string) \<Rightarrow> nat list \<Rightarrow> fs \<Rightarrow> fs" where
  "reduceTasks c ord job nMap reduceF ts d = fold (\<lambda>i. doReduce c ord job i nMap reduceF) ts d"

definition sequentialSchedule :: "codec \<Rightarrow> (string list \<Rightarrow> string list) \<Rightarrow>
    (string \<Rightarrow> string \<Rightarrow> KeyValue list) \<Rightarrow> (string \<Rightarrow> string list \<Rightarrow> string) \<Rightarrow> jobPhase \<Rightarrow> Master \<Rightarrow> fs \<Rightarrow> mrfail + fs" where
  "sequentialSchedule c ord mapF reduceF phase mr d = (case phase of
     mapPhase \<Rightarrow> mapTasks c (jobName mr) (nReduce mr) mapF 0 (files mr) d
   | reducePhase \<Rightarrow> Inr (reduceTasks c ord (jobName mr) (length (files mr)) reduceF [0..<nReduce mr] d))"

text \<open>\<open>run\<close>, for any way to schedule a phase and to finish.\<close>

definition run :: "codec \<Rightarrow> (jobPhase \<Rightarrow> Master \<Rightarrow> fs \<Rightarrow> mrfail + fs) \<Rightarrow> (Master \<Rightarrow> Master) \<Rightarrow>
    string \<Rightarrow> string list \<Rightarrow> nat \<Rightarrow> Master \<Rightarrow> fs \<Rightarrow> mrfail + Master \<times> fs" where
  "run c schedule finish job fls nreduce mr d =
     (let mr = mr\<lparr>jobName := job, files := fls, nReduce := nreduce\<rparr> in
      case schedule mapPhase mr d of Inl e \<Rightarrow> Inl e
      | Inr d \<Rightarrow> (case schedule reducePhase mr d of Inl e \<Rightarrow> Inl e
        | Inr d \<Rightarrow> (let mr = finish mr in
            case merge c (jobName mr) (nReduce mr) d of Inl e \<Rightarrow> Inl e | Inr d \<Rightarrow> Inr (mr, d))))"

definition Sequential :: "codec \<Rightarrow> (string list \<Rightarrow> string list) \<Rightarrow>
    (string \<Rightarrow> string \<Rightarrow> KeyValue list) \<Rightarrow> (string \<Rightarrow> string list \<Rightarrow> string) \<Rightarrow>
    string \<Rightarrow> string list \<Rightarrow> nat \<Rightarrow> fs \<Rightarrow> mrfail + Master \<times> fs" where
  "Sequential c ord mapF reduceF job fls nreduce d =
     run c (sequentialSchedule c ord mapF reduceF) (\<lambda>mr. mr\<lparr>stats := [length fls + nreduce]\<rparr>)
       job fls nreduce newMaster d"

section \<open>Clean-up\<close>

definition removeFile :: "string \<Rightarrow> fs \<Rightarrow> mrfail + fs" where
  "removeFile n d = (case d n of None \<Rightarrow> Inl (FatalRemove n) | Some _ \<Rightarrow> Inr (d(n := None)))"

fun removeFiles :: "string list \<Rightarrow> fs \<Rightarrow> mrfail + fs" where
  "removeFiles [] d = Inr d"
| "removeFiles (n # ns) d = (case removeFile n d of Inl e \<Rightarrow> Inl e | Inr d \<Rightarrow> removeFiles ns d)"

definition CleanupFiles :: "Master \<Rightarrow> fs \<Rightarrow> mrfail + fs" where
  "CleanupFiles mr d = removeFiles
     (concat (map (\<lambda>i. map (reduceName (jobName mr) i) [0..<nReduce mr]) [0..<length (files mr)]) @
      map (mergeName (jobName mr)) [0..<nReduce mr] @ [outName (jobName mr)]) d"

section \<open>Names\<close>

lemma dash_split: "CHR ''-'' \<notin> set a \<Longrightarrow> CHR ''-'' \<notin> set b \<Longrightarrow>
    a @ CHR ''-'' # s = b @ CHR ''-'' # t \<longleftrightarrow> a = b \<and> s = t"
proof (induction a arbitrary: b)
  case Nil
  then show ?case by (cases b) auto
next
  case (Cons x a)
  then show ?case by (cases b) auto
qed

lemma reduceName_inject [simp]: "reduceName job i r = reduceName job j q \<longleftrightarrow> i = j \<and> r = q"
  using dash_split [OF itoa_no_dash(1) itoa_no_dash(1)] by (auto simp: reduceName_def)

lemma mergeName_inject [simp]: "mergeName job r = mergeName job q \<longleftrightarrow> r = q"
  by (simp add: mergeName_def)

lemma reduceName_mergeName [simp]: "reduceName job i r \<noteq> mergeName job q" "mergeName job q \<noteq> reduceName job i r"
proof -
  have "CHR ''-'' \<notin> set ''res''" by simp
  have "itoa i \<noteq> ''res''" using itoa_no_dash(2) [of i] by auto
  then have "itoa i @ CHR ''-'' # itoa r \<noteq> ''res'' @ CHR ''-'' # itoa q"
    using dash_split [OF itoa_no_dash(1) \<open>CHR ''-'' \<notin> set ''res''\<close>] by blast
  then show "reduceName job i r \<noteq> mergeName job q" by (simp add: reduceName_def mergeName_def)
  then show "mergeName job q \<noteq> reduceName job i r" by metis
qed

end
