(* ===== verification/Mapreduce_Correct.thy ===== *)
theory Mapreduce_Correct
  imports Mapreduce "HOL-Library.Multiset"
begin

text \<open>
  The output of a MapReduce job against its specification: every key emitted by the map function,
  in order, with what the reduce function makes of all its values in the order of the map tasks.
  Keys are UTF-8; values and results that are not are read back with the ill-formed bytes replaced.
\<close>

definition mrValues :: "string \<Rightarrow> KeyValue list \<Rightarrow> string list" where
  "mrValues k kvs = map Value (filter (\<lambda>kv. Key kv = k) kvs)"

definition mrSpec :: "(string \<Rightarrow> string list \<Rightarrow> string) \<Rightarrow> KeyValue list \<Rightarrow> string" where
  "mrSpec reduceF kvs =
     concat (map (\<lambda>k. outLine k (reduceF k (mrValues k kvs))) (sorted_list_of_set (Key ` set kvs)))"

text \<open>What arrives of the map function's output and of the reduce function's result.\<close>

definition emitted :: "(string \<Rightarrow> string \<Rightarrow> KeyValue list) \<Rightarrow> string \<Rightarrow> string \<Rightarrow> KeyValue list" where
  "emitted mapF f s = map jsonKV (mapF f s)"

definition rendered :: "(string \<Rightarrow> string list \<Rightarrow> string) \<Rightarrow> string \<Rightarrow> string list \<Rightarrow> string" where
  "rendered reduceF k vs = jsonString (reduceF k vs)"

definition utf8_keys :: "KeyValue list \<Rightarrow> bool" where
  "utf8_keys kvs \<longleftrightarrow> (\<forall>kv \<in> set kvs. validUtf8 (Key kv))"

lemma utf8_keys_take: "utf8_keys kvs \<Longrightarrow> utf8_keys (take p kvs)"
  by (auto simp: utf8_keys_def dest: in_set_takeD)

lemma jsonKV_Key: "validUtf8 (Key kv) \<Longrightarrow> Key (jsonKV kv) = Key kv"
  by (simp add: jsonKV_def validUtf8_D)

lemma utf8_keys_json: "utf8_keys kvs \<Longrightarrow> utf8_keys (map jsonKV kvs)"
  by (auto simp: utf8_keys_def jsonKV_Key)

section \<open>Map tasks\<close>

definition jsonOf :: "contents option \<Rightarrow> KeyValue list" where
  "jsonOf f = (case f of Some (Json kvs) \<Rightarrow> kvs | _ \<Rightarrow> [])"

definition inBin :: "nat \<Rightarrow> nat \<Rightarrow> KeyValue list \<Rightarrow> KeyValue list" where
  "inBin nR r kvs = filter (\<lambda>kv. bin nR (Key kv) = r) kvs"

text \<open>What a map task leaves in a bin that had contents \<open>old\<close>.\<close>

definition binFile :: "KeyValue list \<Rightarrow> contents option \<Rightarrow> contents option" where
  "binFile kvs old = (if kvs = [] then old else Some (Json kvs))"

lemma inBin_json: "utf8_keys kvs \<Longrightarrow> map jsonKV (inBin nR r kvs) = inBin nR r (map jsonKV kvs)"
  by (induction kvs) (auto simp: inBin_def utf8_keys_def jsonKV_Key)

lemma encodeAll_spec:
  assumes "(word_of_nat nR :: 32 word) \<noteq> 0"
  shows "\<exists>d'. encodeAll job t nR kvs opened d = Inr d' \<and>
    (\<forall>r. d' (reduceName job t r) = (if inBin nR r kvs = [] then d (reduceName job t r)
       else Some (Json ((if reduceName job t r \<in> set opened then jsonOf (d (reduceName job t r)) else []) @ map jsonKV (inBin nR r kvs))))) \<and>
    (\<forall>n. (\<forall>r. n \<noteq> reduceName job t r) \<longrightarrow> d' n = d n)"
proof (induction kvs arbitrary: opened d)
  case Nil
  then show ?case by (simp add: inBin_def)
next
  case (Cons kv kvs)
  let ?b = "bin nR (Key kv)"
  let ?n = "reduceName job t ?b"
  define o1 where "o1 = (if ?n \<notin> set opened then ?n # opened else opened)"
  define d1 where "d1 = (if ?n \<notin> set opened then d(?n \<mapsto> Json []) else d)"
  let ?old = "if ?n \<in> set opened then jsonOf (d ?n) else []"
  have e: "encodeAll job t nR (kv # kvs) opened d = encodeAll job t nR kvs o1 (appendKV ?n kv d1)"
    using assms by (simp add: o1_def d1_def Let_def)
  have o1: "set o1 = insert ?n (set opened)" by (auto simp: o1_def)
  have d1: "appendKV ?n kv d1 = d(?n \<mapsto> Json (?old @ [jsonKV kv]))"
    by (auto simp: appendKV_def d1_def jsonOf_def fun_eq_iff)
  obtain d' where d': "encodeAll job t nR kvs o1 (appendKV ?n kv d1) = Inr d'"
    and bins: "\<And>r. d' (reduceName job t r) = (if inBin nR r kvs = [] then appendKV ?n kv d1 (reduceName job t r)
       else Some (Json ((if reduceName job t r \<in> set o1 then jsonOf (appendKV ?n kv d1 (reduceName job t r)) else []) @ map jsonKV (inBin nR r kvs))))"
    and rest: "\<And>n. (\<And>r. n \<noteq> reduceName job t r) \<Longrightarrow> d' n = appendKV ?n kv d1 n"
    using Cons.IH [of o1 "appendKV ?n kv d1"] by auto
  have "d' (reduceName job t r) = (if inBin nR r (kv # kvs) = [] then d (reduceName job t r)
       else Some (Json ((if reduceName job t r \<in> set opened then jsonOf (d (reduceName job t r)) else []) @ map jsonKV (inBin nR r (kv # kvs)))))" for r
    using bins [of r] by (cases "r = ?b") (auto simp: d1 o1 inBin_def jsonOf_def)
  moreover have "d' n = d n" if "\<forall>r. n \<noteq> reduceName job t r" for n
    using rest [of n] that by (auto simp: d1)
  ultimately show ?case using e d' by auto
qed

lemma doMap_spec:
  assumes "(word_of_nat nR :: 32 word) \<noteq> 0" "d f = Some c0" "utf8_keys (mapF f (fileBytes c c0))"
  obtains d' where "doMap c job t f nR mapF d = Inr d'"
    "\<And>r. d' (reduceName job t r) = binFile (inBin nR r (emitted mapF f (fileBytes c c0))) (d (reduceName job t r))"
    "\<And>n. (\<And>r. n \<noteq> reduceName job t r) \<Longrightarrow> d' n = d n"
proof -
  obtain d' where d': "encodeAll job t nR (mapF f (fileBytes c c0)) [] d = Inr d'"
    "\<forall>r. d' (reduceName job t r) = (if inBin nR r (mapF f (fileBytes c c0)) = [] then d (reduceName job t r)
       else Some (Json ([] @ map jsonKV (inBin nR r (mapF f (fileBytes c c0))))))"
    "\<forall>n. (\<forall>r. n \<noteq> reduceName job t r) \<longrightarrow> d' n = d n"
    using encodeAll_spec [OF assms(1), of job t "mapF f (fileBytes c c0)" "[]" d] by auto
  have "inBin nR r (emitted mapF f (fileBytes c c0)) = map jsonKV (inBin nR r (mapF f (fileBytes c c0)))" for r
    using inBin_json [OF assms(3)] by (simp add: emitted_def)
  then show ?thesis by (intro that [of d']) (use d' assms(2) in \<open>auto simp: doMap_def binFile_def\<close>)
qed

lemma mapTasks_spec:
  assumes "(word_of_nat nR :: 32 word) \<noteq> 0"
    "\<And>f. f \<in> set fls \<Longrightarrow> d f \<noteq> None \<and> (\<forall>i r. f \<noteq> reduceName job i r) \<and> utf8_keys (mapF f (fileBytes c (the (d f))))"
  shows "\<exists>d'. mapTasks c job nR mapF i0 fls d = Inr d' \<and>
    (\<forall>j r. d' (reduceName job j r) = (if i0 \<le> j \<and> j < i0 + length fls
       then binFile (inBin nR r (emitted mapF (fls ! (j - i0)) (fileBytes c (the (d (fls ! (j - i0))))))) (d (reduceName job j r))
       else d (reduceName job j r))) \<and>
    (\<forall>n. (\<forall>i r. n \<noteq> reduceName job i r) \<longrightarrow> d' n = d n)"
  using assms(2)
proof (induction fls arbitrary: i0 d)
  case (Cons f fls)
  from Cons.prems [of f] obtain c0 where c0: "d f = Some c0" by auto
  obtain d1 where d1: "doMap c job i0 f nR mapF d = Inr d1"
    "\<And>r. d1 (reduceName job i0 r) = binFile (inBin nR r (emitted mapF f (fileBytes c c0))) (d (reduceName job i0 r))"
    "\<And>n. (\<And>r. n \<noteq> reduceName job i0 r) \<Longrightarrow> d1 n = d n"
    by (rule doMap_spec [of nR d f c0 mapF c job i0, OF assms(1) c0]) (use Cons.prems [of f] c0 in auto)
  have inp: "d1 g = d g" if "g \<in> set (f # fls)" for g using that Cons.prems [of g] by (intro d1(3)) auto
  obtain d2 where d2: "mapTasks c job nR mapF (Suc i0) fls d1 = Inr d2"
    and bins: "\<And>j r. d2 (reduceName job j r) = (if Suc i0 \<le> j \<and> j < Suc i0 + length fls
       then binFile (inBin nR r (emitted mapF (fls ! (j - Suc i0)) (fileBytes c (the (d1 (fls ! (j - Suc i0))))))) (d1 (reduceName job j r))
       else d1 (reduceName job j r))"
    and rest: "\<And>n. (\<forall>i r. n \<noteq> reduceName job i r) \<Longrightarrow> d2 n = d1 n"
    using Cons.IH [of d1 "Suc i0"] Cons.prems inp by auto
  have "d2 (reduceName job j r) = (if i0 \<le> j \<and> j < i0 + length (f # fls)
       then binFile (inBin nR r (emitted mapF ((f # fls) ! (j - i0)) (fileBytes c (the (d ((f # fls) ! (j - i0))))))) (d (reduceName job j r))
       else d (reduceName job j r))" for j r
  proof (cases "j = i0")
    case True
    then show ?thesis using bins [of j r] d1(2) [of r] c0 by simp
  next
    case False
    then have same: "d1 (reduceName job j r) = d (reduceName job j r)" by (intro d1(3)) simp
    show ?thesis
    proof (cases "Suc i0 \<le> j \<and> j < Suc i0 + length fls")
      case True
      then have "(f # fls) ! (j - i0) = fls ! (j - Suc i0)" "fls ! (j - Suc i0) \<in> set (f # fls)"
        by (auto simp: nth_Cons' less_diff_conv2)
      then show ?thesis using bins [of j r] True same inp [of "fls ! (j - Suc i0)"] by auto
    next
      case out: False
      then show ?thesis using bins [of j r] same False by auto
    qed
  qed
  moreover have "d2 n = d n" if "\<forall>i r. n \<noteq> reduceName job i r" for n
    using rest [OF that] d1(3) [of n] that by auto
  ultimately show ?case using d1(1) d2 by auto
qed auto

section \<open>Reduce tasks\<close>

lemma collect_spec:
  assumes "\<And>i. i \<in> set is \<Longrightarrow> d (reduceName job i t) = binFile (g i) None"
  shows "collect c job t is d m = fold addValue (concat (map g is)) m"
  using assms
proof (induction "is" arbitrary: m)
  case (Cons i "is")
  have "d (reduceName job i t) = binFile (g i) None" using Cons.prems by simp
  then show ?case using Cons by (auto simp: binFile_def decodeFile_def split: if_splits)
qed simp

lemma addValue_map_of:
  "map_of (addValue kv m) k = (if k = Key kv then Some ((case map_of m k of Some a \<Rightarrow> a | None \<Rightarrow> []) @ [Value kv]) else map_of m k)"
  by (auto simp: addValue_def update_conv split: option.splits)

lemma addValue_keys: "fst ` set (addValue kv m) = insert (Key kv) (fst ` set m)"
  by (auto simp: addValue_def dom_update split: option.splits)

lemma addValue_distinct: "distinct (map fst m) \<Longrightarrow> distinct (map fst (addValue kv m))"
  by (auto simp: addValue_def distinct_update split: option.splits)

lemma addValues_map_of:
  "map_of (fold addValue kvs m) k = (if mrValues k kvs = [] then map_of m k
     else Some ((case map_of m k of Some a \<Rightarrow> a | None \<Rightarrow> []) @ mrValues k kvs))"
proof (induction kvs arbitrary: m)
  case (Cons kv kvs)
  show ?case using Cons [of "addValue kv m"]
    by (auto simp: mrValues_def addValue_map_of split: option.splits)
qed (simp add: mrValues_def)

lemma addValues_keys: "fst ` set (fold addValue kvs m) = Key ` set kvs \<union> fst ` set m"
  by (induction kvs arbitrary: m) (auto simp: addValue_keys)

lemma addValues_distinct: "distinct (map fst m) \<Longrightarrow> distinct (map fst (fold addValue kvs m))"
  by (induction kvs arbitrary: m) (auto simp: addValue_distinct)

lemma mrValues_empty: "mrValues k kvs = [] \<longleftrightarrow> k \<notin> Key ` set kvs"
  by (auto simp: mrValues_def filter_empty_conv)

text \<open>The output of a reduce task as a list of keys and values.\<close>

definition reduceOut :: "(string list \<Rightarrow> string list) \<Rightarrow> (string \<Rightarrow> string list \<Rightarrow> string) \<Rightarrow> KeyValue list \<Rightarrow> KeyValue list" where
  "reduceOut ord reduceF kvs = map (\<lambda>k. \<lparr>Key = k, Value = reduceF k (mrValues k kvs)\<rparr>) (ord (map fst (fold addValue kvs [])))"

lemma doReduce_spec:
  assumes "\<And>i. i < nMap \<Longrightarrow> d (reduceName job i t) = binFile (g i) None" "\<And>ks. mset (ord ks) = mset ks"
    "utf8_keys (concat (map g [0..<nMap]))"
  shows "doReduce c ord job t nMap reduceF d =
    d(mergeName job t \<mapsto> Json (reduceOut ord (rendered reduceF) (concat (map g [0..<nMap]))))"
proof -
  let ?kvs = "concat (map g [0..<nMap])"
  have c: "collect c job t [0..<nMap] d [] = fold addValue ?kvs []"
    by (rule collect_spec) (simp add: assms(1))
  have "set (ord (map fst (fold addValue ?kvs []))) = Key ` set ?kvs"
    using assms(2) [THEN mset_eq_setD, of "map fst (fold addValue ?kvs [])"] addValues_keys [of ?kvs "[]"] by simp
  then have "jsonKV \<lparr>Key = k, Value = reduceF k (the (map_of (fold addValue ?kvs []) k))\<rparr> = \<lparr>Key = k, Value = rendered reduceF k (mrValues k ?kvs)\<rparr>"
    if "k \<in> set (ord (map fst (fold addValue ?kvs [])))" for k
    using that assms(3) by (auto simp: jsonKV_def utf8_keys_def rendered_def validUtf8_D addValues_map_of mrValues_empty simp del: set_concat)
  then have "map (\<lambda>k. jsonKV \<lparr>Key = k, Value = reduceF k (the (map_of (fold addValue ?kvs []) k))\<rparr>) (ord (map fst (fold addValue ?kvs []))) =
      reduceOut ord (rendered reduceF) ?kvs" unfolding reduceOut_def by (rule map_cong [OF refl])
  then show ?thesis by (simp add: doReduce_def c Let_def)
qed

lemma reduceOut_keys:
  assumes "\<And>ks. mset (ord ks) = mset ks"
  shows "Key ` set (reduceOut ord reduceF kvs) = Key ` set kvs"
    "kv \<in> set (reduceOut ord reduceF kvs) \<Longrightarrow> Value kv = reduceF (Key kv) (mrValues (Key kv) kvs)"
proof -
  have s: "set (ord (map fst (fold addValue kvs []))) = Key ` set kvs"
    using assms [THEN mset_eq_setD, of "map fst (fold addValue kvs [])"] addValues_keys [of kvs "[]"] by simp
  show "Key ` set (reduceOut ord reduceF kvs) = Key ` set kvs"
    by (auto simp: reduceOut_def s image_image)
  show "kv \<in> set (reduceOut ord reduceF kvs) \<Longrightarrow> Value kv = reduceF (Key kv) (mrValues (Key kv) kvs)"
    by (auto simp: reduceOut_def)
qed

lemma reduceTasks_spec:
  assumes "\<And>i r. i < nMap \<Longrightarrow> r \<in> set ts \<Longrightarrow> d (reduceName job i r) = binFile (g i r) None"
    "\<And>ks. mset (ord ks) = mset ks" "\<And>i r. i < nMap \<Longrightarrow> utf8_keys (g i r)"
  shows "(\<forall>r. reduceTasks c ord job nMap reduceF ts d (mergeName job r) =
      (if r \<in> set ts then Some (Json (reduceOut ord (rendered reduceF) (concat (map (\<lambda>i. g i r) [0..<nMap])))) else d (mergeName job r))) \<and>
    (\<forall>n. (\<forall>r. n \<noteq> mergeName job r) \<longrightarrow> reduceTasks c ord job nMap reduceF ts d n = d n)"
  using assms(1)
proof (induction ts arbitrary: d)
  case (Cons t ts)
  define d1 where "d1 = doReduce c ord job t nMap reduceF d"
  have upd: "d1 = d(mergeName job t \<mapsto> Json (reduceOut ord (rendered reduceF) (concat (map (\<lambda>i. g i t) [0..<nMap]))))"
    unfolding d1_def by (rule doReduce_spec) (use Cons.prems assms(2,3) in \<open>auto simp: utf8_keys_def\<close>)
  have r: "reduceTasks c ord job nMap reduceF (t # ts) d = reduceTasks c ord job nMap reduceF ts d1"
    by (simp add: reduceTasks_def d1_def)
  have "d1 (reduceName job i r) = binFile (g i r) None" if "i < nMap" "r \<in> set ts" for i r
    using Cons.prems [of i r] that by (simp add: upd)
  note IH = Cons.IH [OF this]
  moreover have "d1 (mergeName job t) = Some (Json (reduceOut ord (rendered reduceF) (concat (map (\<lambda>i. g i t) [0..<nMap]))))"
    "n \<noteq> mergeName job t \<Longrightarrow> d1 n = d n" for n by (simp_all add: upd)
  ultimately show ?case unfolding r by auto
qed (simp add: reduceTasks_def)

section \<open>The merge\<close>

abbreviation putKV :: "KeyValue \<Rightarrow> (string \<times> string) list \<Rightarrow> (string \<times> string) list" where
  "putKV kv \<equiv> AList.update (Key kv) (Value kv)"

lemma readMerged_spec:
  assumes "\<And>i. i \<in> set is \<Longrightarrow> d (mergeName job i) = Some (Json (h i))"
  shows "readMerged c job is d m = Inr (fold putKV (concat (map h is)) m)"
  using assms by (induction "is" arbitrary: m) (auto simp: decodeFile_def)

lemma putKVs:
  assumes "\<And>kv. kv \<in> set kvs \<Longrightarrow> Value kv = v (Key kv)" "distinct (map fst m)"
  shows "distinct (map fst (fold putKV kvs m)) \<and> fst ` set (fold putKV kvs m) = Key ` set kvs \<union> fst ` set m \<and>
    (\<forall>k. map_of (fold putKV kvs m) k = (if k \<in> Key ` set kvs then Some (v k) else map_of m k))"
  using assms
proof (induction kvs arbitrary: m)
  case (Cons kv kvs)
  have "distinct (map fst (putKV kv m))" using Cons.prems(2) by (rule distinct_update)
  from Cons.IH [OF _ this] Cons.prems(1) show ?case by (auto simp: dom_update update_conv)
qed simp

lemma merge_spec:
  assumes "\<And>i. i < nR \<Longrightarrow> d (mergeName job i) = Some (Json (h i))"
    "\<And>i kv. i < nR \<Longrightarrow> kv \<in> set (h i) \<Longrightarrow> Value kv = v (Key kv)"
  shows "merge c job nR d = Inr (d(outName job \<mapsto> Bytes (concat (map (\<lambda>k. outLine k (v k))
      (sorted_list_of_set (Key ` (\<Union>i<nR. set (h i))))))))"
proof -
  let ?kvs = "concat (map h [0..<nR])"
  have r: "readMerged c job [0..<nR] d [] = Inr (fold putKV ?kvs [])"
    by (rule readMerged_spec) (simp add: assms(1))
  have s: "set ?kvs = (\<Union>i<nR. set (h i))" by auto
  have v: "Value kv = v (Key kv)" if "kv \<in> set ?kvs" for kv using that assms(2) s by auto
  have p: "distinct (map fst (fold putKV ?kvs []))" "fst ` set (fold putKV ?kvs []) = Key ` set ?kvs"
    "\<And>k. k \<in> Key ` set ?kvs \<Longrightarrow> map_of (fold putKV ?kvs []) k = Some (v k)"
    using putKVs [of ?kvs v "[]", OF v] by (simp_all only: list.map distinct.simps simp_thms list.set image_empty Un_empty_right if_True)
  have "sort (map fst (fold putKV ?kvs [])) = sorted_list_of_set (Key ` set ?kvs)"
    using sorted_list_of_set_sort_remdups [of "map fst (fold putKV ?kvs [])"] p(1,2) by (simp add: distinct_remdups_id)
  moreover have "concat (map (\<lambda>k. outLine k (the (map_of (fold putKV ?kvs []) k))) (sorted_list_of_set (Key ` set ?kvs))) =
      concat (map (\<lambda>k. outLine k (v k)) (sorted_list_of_set (Key ` set ?kvs)))"
    using p(3) by (intro arg_cong [of _ _ concat] map_cong) auto
  ultimately show ?thesis by (simp add: merge_def r Let_def lessThan_atLeast0)
qed

section \<open>The whole job\<close>

lemma unat_nReduce: "nR < 2 ^ 32 \<Longrightarrow> unat (word_of_nat nR :: 32 word) = nR"
  by (simp add: unat_of_nat take_bit_nat_eq_self)

lemma bin_less: "0 < nR \<Longrightarrow> nR < 2 ^ 32 \<Longrightarrow> bin nR k < nR"
  using unat_nReduce [of nR] by (simp add: bin_def unat_mod)

lemma word_nonzero: "0 < nR \<Longrightarrow> nR < 2 ^ 32 \<Longrightarrow> (word_of_nat nR :: 32 word) \<noteq> 0"
  using unat_nReduce [of nR] by (metis less_numeral_extra(3) unat_0)

text \<open>A key's values in its bin are all its values.\<close>

lemma mrValues_bin:
  "mrValues k (concat (map (\<lambda>i. inBin nR (bin nR k) (out i)) is)) = mrValues k (concat (map out is))"
proof (induction "is")
  case (Cons i "is")
  have "mrValues k (inBin nR (bin nR k) (out i)) = mrValues k (out i)"
    by (auto simp: mrValues_def inBin_def intro: arg_cong [of _ _ "map Value"] filter_cong)
  then show ?case using Cons by (simp add: mrValues_def)
qed (simp add: mrValues_def)

text \<open>The output of reduce task \<open>r\<close> when map task \<open>i\<close> emits \<open>out i\<close>.\<close>

definition taskOut :: "(string list \<Rightarrow> string list) \<Rightarrow> (string \<Rightarrow> string list \<Rightarrow> string) \<Rightarrow> nat \<Rightarrow> nat \<Rightarrow>
    (nat \<Rightarrow> KeyValue list) \<Rightarrow> nat \<Rightarrow> KeyValue list" where
  "taskOut ord reduceF nR nMap out r = reduceOut ord reduceF (concat (map (\<lambda>i. inBin nR r (out i)) [0..<nMap]))"

lemma taskOut_key:
  assumes "\<And>ks. mset (ord ks) = mset ks"
  shows "k \<in> Key ` set (taskOut ord reduceF nR nMap out r) \<longleftrightarrow>
    k \<in> Key ` set (concat (map out [0..<nMap])) \<and> bin nR k = r"
  unfolding taskOut_def reduceOut_keys(1) [of ord, OF assms] by (auto simp: inBin_def image_iff)

lemma taskOut_value:
  assumes "\<And>ks. mset (ord ks) = mset ks" "kv \<in> set (taskOut ord reduceF nR nMap out r)"
  shows "Value kv = reduceF (Key kv) (mrValues (Key kv) (concat (map out [0..<nMap])))"
proof -
  have "bin nR (Key kv) = r" using taskOut_key [of ord, OF assms(1)] assms(2) by blast
  then show ?thesis
    using reduceOut_keys(2) [of ord, OF assms(1) assms(2) [unfolded taskOut_def]] mrValues_bin [of "Key kv" nR out "[0..<nMap]"]
    by simp
qed

lemma taskOut_all_keys:
  assumes "0 < nR" "nR < 2 ^ 32" "\<And>ks. mset (ord ks) = mset ks"
  shows "Key ` (\<Union>r<nR. set (taskOut ord reduceF nR nMap out r)) = Key ` set (concat (map out [0..<nMap]))"
proof -
  have "k \<in> (\<Union>r<nR. Key ` set (taskOut ord reduceF nR nMap out r)) \<longleftrightarrow> k \<in> Key ` set (concat (map out [0..<nMap]))" for k
    unfolding UN_iff taskOut_key [of ord, OF assms(3)] using bin_less [OF assms(1,2), of k] by blast
  then show ?thesis by (auto simp only: image_UN set_eq_iff)
qed

lemma sequential_output:
  assumes "0 < nR" "nR < 2 ^ 32" "\<And>ks. mset (ord ks) = mset ks"
    "\<And>f. f \<in> set fls \<Longrightarrow> d f = Some (Bytes (inp f)) \<and> (\<forall>i r. f \<noteq> reduceName job i r)"
    "\<And>i r. i < length fls \<Longrightarrow> r < nR \<Longrightarrow> d (reduceName job i r) = None"
    "\<And>f. f \<in> set fls \<Longrightarrow> utf8_keys (mapF f (inp f))"
  shows "\<exists>mr d'. Sequential c ord mapF reduceF job fls nR d = Inr (mr, d') \<and> stats mr = [length fls + nR] \<and>
    d' (outName job) = Some (Bytes (mrSpec (rendered reduceF) (concat (map (\<lambda>f. emitted mapF f (inp f)) fls))))"
proof -
  let ?out = "\<lambda>i. emitted mapF (fls ! i) (inp (fls ! i))"
  let ?n = "length fls"
  have "map ?out [0..<?n] = map (\<lambda>f. emitted mapF f (inp f)) fls" by (rule nth_equalityI) auto
  then have all: "concat (map ?out [0..<?n]) = concat (map (\<lambda>f. emitted mapF f (inp f)) fls)" by (rule arg_cong)
  obtain d1 where d1: "mapTasks c job nR mapF 0 fls d = Inr d1"
    and bins: "\<And>j r. d1 (reduceName job j r) = (if 0 \<le> j \<and> j < 0 + ?n
       then binFile (inBin nR r (emitted mapF (fls ! (j - 0)) (fileBytes c (the (d (fls ! (j - 0))))))) (d (reduceName job j r))
       else d (reduceName job j r))"
    using mapTasks_spec [OF word_nonzero [OF assms(1,2)], of fls d job mapF c 0] assms(4,6) by (auto simp: fileBytes_def)
  have b1: "d1 (reduceName job i r) = binFile (inBin nR r (?out i)) None" if "i < ?n" "r \<in> set [0..<nR]" for i r
    using bins [of i r] that assms(4) [of "fls ! i"] assms(5) [of i r] by (simp add: fileBytes_def)
  let ?h = "taskOut ord (rendered reduceF) nR ?n ?out"
  define d2 where "d2 = reduceTasks c ord job ?n reduceF [0..<nR] d1"
  have keys: "utf8_keys (inBin nR r (?out i))" if "i < ?n" for i r
    using utf8_keys_json [OF assms(6) [OF nth_mem [OF that]]] by (auto simp: utf8_keys_def inBin_def emitted_def)
  have m2: "d2 (mergeName job r) = Some (Json (?h r))" if "r < nR" for r
    using reduceTasks_spec [of ?n "[0..<nR]" d1 job "\<lambda>i r. inBin nR r (?out i)" ord c reduceF, OF b1 assms(3) keys] that by (simp add: d2_def taskOut_def)
  have "merge c job nR d2 = Inr (d2(outName job \<mapsto> Bytes (mrSpec (rendered reduceF) (concat (map ?out [0..<?n])))))"
  proof -
    have "Value kv = rendered reduceF (Key kv) (mrValues (Key kv) (concat (map ?out [0..<?n])))" if "kv \<in> set (?h r)" for r kv
      by (rule taskOut_value [of ord, OF assms(3) that])
    then show ?thesis
      using merge_spec [of nR d2 job ?h "\<lambda>k. rendered reduceF k (mrValues k (concat (map ?out [0..<?n])))" c, OF m2]
      by (simp add: mrSpec_def taskOut_all_keys [of nR ord, OF assms(1-3)])
  qed
  then show ?thesis
    by (simp add: Sequential_def run_def sequentialSchedule_def d1 d2_def [symmetric] Let_def all)
qed

end
