(* ===== verification/Mr_Schedule.thy ===== *)
theory Mr_Schedule
  imports Mapreduce_Correct
begin

text \<open>
  The distributed scheduler of \<open>schedule.go\<close> and the workers of \<open>worker.go\<close>, as an
  executable transition function over the goroutines of one phase. A worker may fail at any point
  of a task: then a prefix of the task's output is on disk and the call fails. A call that fails is
  taken to have ended its task: a worker that went on writing after its connection was lost, while
  another worker does the task again, is not modelled. The unbuffered
  channel \<open>registerChannel\<close>, with one goroutine per value sent, is the list of the workers
  offered on it.
\<close>

section \<open>Workers\<close>

record DoTaskArgs =
  daJobName :: string
  daFile :: string
  daPhase :: jobPhase
  daTaskNumber :: nat
  daNumOtherPhase :: nat

definition DoTask :: "codec \<Rightarrow> (string list \<Rightarrow> string list) \<Rightarrow> (string \<Rightarrow> string \<Rightarrow> KeyValue list) \<Rightarrow>
    (string \<Rightarrow> string list \<Rightarrow> string) \<Rightarrow> DoTaskArgs \<Rightarrow> fs \<Rightarrow> mrfail + fs" where
  "DoTask c ord mapF reduceF arg d = (case daPhase arg of
     mapPhase \<Rightarrow> doMap c (daJobName arg) (daTaskNumber arg) (daFile arg) (daNumOtherPhase arg) mapF d
   | reducePhase \<Rightarrow> Inr (doReduce c ord (daJobName arg) (daTaskNumber arg) (daNumOtherPhase arg) reduceF d))"

text \<open>A task of which only the first \<open>p\<close> key/value pairs of the output were written.\<close>

definition DoTaskUpTo :: "nat \<Rightarrow> codec \<Rightarrow> (string list \<Rightarrow> string list) \<Rightarrow> (string \<Rightarrow> string \<Rightarrow> KeyValue list) \<Rightarrow>
    (string \<Rightarrow> string list \<Rightarrow> string) \<Rightarrow> DoTaskArgs \<Rightarrow> fs \<Rightarrow> fs" where
  "DoTaskUpTo p c ord mapF reduceF arg d = (case daPhase arg of
     mapPhase \<Rightarrow> (case doMap c (daJobName arg) (daTaskNumber arg) (daFile arg) (daNumOtherPhase arg)
         (\<lambda>f s. take p (mapF f s)) d of Inl e \<Rightarrow> d | Inr d \<Rightarrow> d)
   | reducePhase \<Rightarrow> (let name = mergeName (daJobName arg) (daTaskNumber arg);
         d' = doReduce c ord (daJobName arg) (daTaskNumber arg) (daNumOtherPhase arg) reduceF d in
       d(name \<mapsto> Json (take p (jsonOf (d' name))))))"

record Worker =
  wName :: string
  nRPC :: int
  nTasks :: int

definition workerAccept :: "Worker \<Rightarrow> Worker option" where
  "workerAccept wk = (if nRPC wk = 0 then None else Some (wk\<lparr>nRPC := nRPC wk - 1, nTasks := nTasks wk + 1\<rparr>))"

definition workerShutdown :: "Worker \<Rightarrow> int \<times> Worker" where
  "workerShutdown wk = (nTasks wk, wk\<lparr>nRPC := 1, nTasks := nTasks wk - 1\<rparr>)"

section \<open>The master\<close>

definition Register :: "string \<Rightarrow> Master \<Rightarrow> Master" where
  "Register w mr = mr\<lparr>workers := workers mr @ [w]\<rparr>"

text \<open>\<open>killWorkers\<close>; \<open>shut w\<close> is the reply to the shutdown call, None when it fails.\<close>

fun killAll :: "(string \<Rightarrow> int option) \<Rightarrow> string list \<Rightarrow> int list" where
  "killAll shut [] = []"
| "killAll shut (w # ws) = (case shut w of None \<Rightarrow> killAll shut ws | Some n \<Rightarrow> n # killAll shut ws)"

definition killWorkers :: "(string \<Rightarrow> int option) \<Rightarrow> Master \<Rightarrow> int list" where
  "killWorkers shut mr = killAll shut (workers mr)"

datatype gstate = NotStarted | Taking | Calling string | Finished

record Sched =
  gs :: "gstate list"
  avail :: "string list"
  wg :: nat
  returned :: bool
  crashed :: bool
  disk :: fs

datatype sevent =
    SRegister string
  | SBegin nat
  | STake nat nat
  | SDone nat "string list \<Rightarrow> string list"
  | SFail nat nat "string list \<Rightarrow> string list"
  | SReturn

definition ntasks :: "Master \<Rightarrow> jobPhase \<Rightarrow> nat" where
  "ntasks mr phase = (case phase of mapPhase \<Rightarrow> length (files mr) | reducePhase \<Rightarrow> nReduce mr)"

definition nios :: "Master \<Rightarrow> jobPhase \<Rightarrow> nat" where
  "nios mr phase = (case phase of mapPhase \<Rightarrow> nReduce mr | reducePhase \<Rightarrow> length (files mr))"

definition taskArgs :: "Master \<Rightarrow> jobPhase \<Rightarrow> nat \<Rightarrow> DoTaskArgs" where
  "taskArgs mr phase i = \<lparr>daJobName = jobName mr, daFile = files mr ! i, daPhase = phase, daTaskNumber = i,
     daNumOtherPhase = nios mr phase\<rparr>"

definition schedule_init :: "Master \<Rightarrow> jobPhase \<Rightarrow> string list \<Rightarrow> fs \<Rightarrow> Sched" where
  "schedule_init mr phase ws d = \<lparr>gs = replicate (ntasks mr phase) NotStarted, avail = ws, wg = 0,
     returned = False, crashed = False, disk = d\<rparr>"

text \<open>
  One step: a worker registers; a goroutine starts and adds itself to the wait group; it takes a
  worker, and panics if the list of files is too short for its index; its call succeeds, and the
  worker is offered again; its call fails after a prefix of the work, and it takes the next
  worker; \<open>wg.Wait\<close> returns.
\<close>

definition schedule_step :: "codec \<Rightarrow> (string \<Rightarrow> string \<Rightarrow> KeyValue list) \<Rightarrow> (string \<Rightarrow> string list \<Rightarrow> string) \<Rightarrow>
    Master \<Rightarrow> jobPhase \<Rightarrow> sevent \<Rightarrow> Sched \<Rightarrow> Sched option" where
  "schedule_step c mapF reduceF mr phase ev s =
     (if crashed s then None else case ev of
       SRegister w \<Rightarrow> Some (s\<lparr>avail := avail s @ [w]\<rparr>)
     | SBegin i \<Rightarrow> (if i < length (gs s) \<and> gs s ! i = NotStarted
         then Some (s\<lparr>gs := (gs s)[i := Taking], wg := wg s + 1\<rparr>) else None)
     | STake i k \<Rightarrow> (if i < length (gs s) \<and> gs s ! i = Taking \<and> k < length (avail s)
         then if i < length (files mr)
              then Some (s\<lparr>gs := (gs s)[i := Calling (avail s ! k)], avail := take k (avail s) @ drop (Suc k) (avail s)\<rparr>)
              else Some (s\<lparr>crashed := True\<rparr>)
         else None)
     | SDone i ord \<Rightarrow> (if i < length (gs s) then (case gs s ! i of
           Calling w \<Rightarrow> (case DoTask c ord mapF reduceF (taskArgs mr phase i) (disk s) of
               Inl e \<Rightarrow> None
             | Inr d \<Rightarrow> Some (s\<lparr>gs := (gs s)[i := Finished], avail := avail s @ [w], wg := wg s - 1, disk := d\<rparr>))
         | _ \<Rightarrow> None) else None)
     | SFail i p ord \<Rightarrow> (if i < length (gs s) then (case gs s ! i of
           Calling w \<Rightarrow> Some (s\<lparr>gs := (gs s)[i := Taking], disk := DoTaskUpTo p c ord mapF reduceF (taskArgs mr phase i) (disk s)\<rparr>)
         | _ \<Rightarrow> None) else None)
     | SReturn \<Rightarrow> (if wg s = 0 \<and> \<not> returned s then Some (s\<lparr>returned := True\<rparr>) else None))"

inductive schedule_reaches :: "codec \<Rightarrow> (string \<Rightarrow> string \<Rightarrow> KeyValue list) \<Rightarrow> (string \<Rightarrow> string list \<Rightarrow> string) \<Rightarrow>
    Master \<Rightarrow> jobPhase \<Rightarrow> fs \<Rightarrow> Sched \<Rightarrow> bool" for c mapF reduceF mr phase d0 where
  schedule_start: "schedule_reaches c mapF reduceF mr phase d0 (schedule_init mr phase ws d0)"
| schedule_more: "schedule_reaches c mapF reduceF mr phase d0 s \<Longrightarrow>
    (\<And>i ord. ev = SDone i ord \<Longrightarrow> \<forall>ks. mset (ord ks) = mset ks) \<Longrightarrow>
    schedule_step c mapF reduceF mr phase ev s = Some s' \<Longrightarrow>
    schedule_reaches c mapF reduceF mr phase d0 s'"

section \<open>The wait group\<close>

definition active :: "gstate \<Rightarrow> bool" where
  "active g \<longleftrightarrow> (case g of Taking \<Rightarrow> True | Calling _ \<Rightarrow> True | _ \<Rightarrow> False)"

lemma active_simps [simp]: "\<not> active NotStarted" "active Taking" "active (Calling w)" "\<not> active Finished"
  by (simp_all add: active_def)

lemma count_active_upd:
  assumes "i < length xs"
  shows "length (filter active (xs[i := g])) + (if active (xs ! i) then 1 else 0) =
    length (filter active xs) + (if active g then 1 else 0)"
  using assms
proof (induction xs arbitrary: i)
  case (Cons x xs)
  show ?case
  proof (cases i)
    case (Suc j)
    then show ?thesis using Cons.IH [of j] Cons.prems by auto
  qed simp
qed simp

lemma schedule_step_cases:
  assumes "schedule_step c mapF reduceF mr phase ev s = Some s'"
  obtains
    (keep) "gs s' = gs s" "wg s' = wg s" "disk s' = disk s"
  | (begin_task) i where "i < length (gs s)" "gs s ! i = NotStarted" "gs s' = (gs s)[i := Taking]" "wg s' = wg s + 1" "disk s' = disk s"
  | (take_worker) i w where "i < length (gs s)" "gs s ! i = Taking" "gs s' = (gs s)[i := Calling w]" "wg s' = wg s"
      "disk s' = disk s" "i < length (files mr)"
  | (done_task) i w ord where "ev = SDone i ord" "i < length (gs s)" "gs s ! i = Calling w" "gs s' = (gs s)[i := Finished]"
      "wg s' = wg s - 1" "DoTask c ord mapF reduceF (taskArgs mr phase i) (disk s) = Inr (disk s')"
  | (fail_task) i w p ord where "i < length (gs s)" "gs s ! i = Calling w" "gs s' = (gs s)[i := Taking]"
      "wg s' = wg s" "disk s' = DoTaskUpTo p c ord mapF reduceF (taskArgs mr phase i) (disk s)"
proof (cases ev)
  case (SDone i ord)
  then show ?thesis using assms done_task
    by (auto simp: schedule_step_def split: if_splits gstate.splits sum.splits)
next
  case (SFail i p ord)
  then show ?thesis using assms fail_task
    by (auto simp: schedule_step_def split: if_splits gstate.splits)
qed (use assms keep begin_task take_worker in \<open>auto simp: schedule_step_def split: if_splits\<close>)

lemma schedule_wg:
  "schedule_reaches c mapF reduceF mr phase d0 s \<Longrightarrow>
     wg s = length (filter active (gs s)) \<and> length (gs s) = ntasks mr phase"
proof (induction rule: schedule_reaches.induct)
  case (schedule_start ws)
  then show ?case by (simp add: schedule_init_def)
next
  case (schedule_more s ev s')
  from schedule_more(3) show ?case
  proof (cases rule: schedule_step_cases)
    case keep
    then show ?thesis using schedule_more by simp
  next
    case (begin_task i)
    then show ?thesis using schedule_more count_active_upd [of i "gs s" Taking] by simp
  next
    case (take_worker i w)
    then show ?thesis using schedule_more count_active_upd [of i "gs s" "Calling w"] by simp
  next
    case (done_task i w)
    then show ?thesis using schedule_more count_active_upd [of i "gs s" Finished] by simp
  next
    case (fail_task i w)
    then show ?thesis using schedule_more count_active_upd [of i "gs s" Taking] by simp
  qed
qed

text \<open>
  When the wait group is empty and every goroutine has started, every task is finished.
\<close>

lemma schedule_all_finished:
  assumes "schedule_reaches c mapF reduceF mr phase d0 s" "wg s = 0" "NotStarted \<notin> set (gs s)" "i < ntasks mr phase"
  shows "gs s ! i = Finished"
proof -
  have "filter active (gs s) = []" "gs s ! i \<in> set (gs s)" using schedule_wg [OF assms(1)] assms(2,4) by auto
  then have "\<not> active (gs s ! i)" "gs s ! i \<noteq> NotStarted" using assms(3) by (auto simp: filter_empty_conv)
  then show ?thesis by (cases "gs s ! i") auto
qed

section \<open>The map phase\<close>

text \<open>What arrives of the map function's output for a task, the inputs having contents \<open>inp\<close>.\<close>

definition emits :: "(string \<Rightarrow> string \<Rightarrow> KeyValue list) \<Rightarrow> (string \<Rightarrow> string) \<Rightarrow> Master \<Rightarrow> nat \<Rightarrow> KeyValue list" where
  "emits mapF inp mr i = emitted mapF (files mr ! i) (inp (files mr ! i))"

text \<open>A job that can run: its inputs exist and no intermediate file is left over.\<close>

definition job_ok :: "(string \<Rightarrow> string) \<Rightarrow> Master \<Rightarrow> fs \<Rightarrow> bool" where
  "job_ok inp mr d \<longleftrightarrow> 0 < nReduce mr \<and> nReduce mr < 2 ^ 32 \<and>
     (\<forall>f \<in> set (files mr). d f = Some (Bytes (inp f)) \<and> (\<forall>i r. f \<noteq> reduceName (jobName mr) i r)) \<and>
     (\<forall>i < length (files mr). \<forall>r < nReduce mr. d (reduceName (jobName mr) i r) = None)"

text \<open>
  The bins of a map task hold a prefix of its output, and all of it when the task is finished.
\<close>

definition bins_ok :: "Master \<Rightarrow> KeyValue list \<Rightarrow> bool \<Rightarrow> nat \<Rightarrow> fs \<Rightarrow> bool" where
  "bins_ok mr kvs fin i d \<longleftrightarrow> (\<forall>r < nReduce mr.
     (\<exists>p. d (reduceName (jobName mr) i r) = binFile (inBin (nReduce mr) r (take p kvs)) None) \<and>
     (fin \<longrightarrow> d (reduceName (jobName mr) i r) = binFile (inBin (nReduce mr) r kvs) None))"

lemma inBin_take: "inBin nR r kvs = [] \<Longrightarrow> inBin nR r (take p kvs) = []"
  by (auto simp: inBin_def filter_empty_conv dest: in_set_takeD)

lemma binFile_redo: "binFile (inBin nR r kvs) (binFile (inBin nR r (take p kvs)) None) = binFile (inBin nR r kvs) None"
  using inBin_take [of nR r kvs p] by (auto simp: binFile_def)

lemma bins_ok_redo:
  assumes "bins_ok mr kvs fin i d"
    "\<And>r. d' (reduceName (jobName mr) i r) = binFile (inBin (nReduce mr) r (take p kvs)) (d (reduceName (jobName mr) i r))"
  shows "bins_ok mr kvs False i d'"
  unfolding bins_ok_def
proof (intro allI impI conjI)
  fix r assume "r < nReduce mr"
  with assms(1) obtain q where "d (reduceName (jobName mr) i r) = binFile (inBin (nReduce mr) r (take q kvs)) None"
    by (auto simp: bins_ok_def)
  then show "\<exists>p. d' (reduceName (jobName mr) i r) = binFile (inBin (nReduce mr) r (take p kvs)) None"
    using assms(2) [of r] by (cases "inBin (nReduce mr) r (take p kvs) = []") (auto simp: binFile_def)
qed simp

lemma bins_ok_all:
  assumes "bins_ok mr kvs fin i d"
    "\<And>r. d' (reduceName (jobName mr) i r) = binFile (inBin (nReduce mr) r kvs) (d (reduceName (jobName mr) i r))"
  shows "bins_ok mr kvs True i d'"
  unfolding bins_ok_def
proof (intro allI impI)
  fix r assume "r < nReduce mr"
  with assms(1) obtain q where "d (reduceName (jobName mr) i r) = binFile (inBin (nReduce mr) r (take q kvs)) None"
    by (auto simp: bins_ok_def)
  then have "d' (reduceName (jobName mr) i r) = binFile (inBin (nReduce mr) r kvs) None"
    using assms(2) [of r] binFile_redo by simp
  then show "(\<exists>p. d' (reduceName (jobName mr) i r) = binFile (inBin (nReduce mr) r (take p kvs)) None) \<and>
      (True \<longrightarrow> d' (reduceName (jobName mr) i r) = binFile (inBin (nReduce mr) r kvs) None)"
    by (auto intro: exI [of _ "length kvs"])
qed

lemma bins_ok_weaken: "bins_ok mr kvs fin i d \<Longrightarrow> (fin' \<Longrightarrow> fin) \<Longrightarrow> bins_ok mr kvs fin' i d"
  by (simp add: bins_ok_def)

definition map_inv :: "(string \<Rightarrow> string \<Rightarrow> KeyValue list) \<Rightarrow> (string \<Rightarrow> string) \<Rightarrow> Master \<Rightarrow> Sched \<Rightarrow> bool" where
  "map_inv mapF inp mr s \<longleftrightarrow> length (gs s) = length (files mr) \<and>
     (\<forall>f \<in> set (files mr). disk s f = Some (Bytes (inp f)) \<and> (\<forall>i r. f \<noteq> reduceName (jobName mr) i r)) \<and>
     (\<forall>i < length (files mr). bins_ok mr (emits mapF inp mr i) (gs s ! i = Finished) i (disk s))"

lemma map_inv_gs:
  assumes "map_inv mapF inp mr s" "gs s' = (gs s)[i := g]" "g \<noteq> Finished" "disk s' = disk s"
  shows "map_inv mapF inp mr s'"
proof -
  have "gs s' ! j = Finished \<Longrightarrow> gs s ! j = Finished" if "j < length (gs s)" for j
    using assms(2,3) that by (cases "i = j") auto
  then have "bins_ok mr (emits mapF inp mr j) (gs s' ! j = Finished) j (disk s')" if "j < length (files mr)" for j
    using assms(1,4) that bins_ok_weaken [of mr "emits mapF inp mr j" "gs s ! j = Finished"] by (simp add: map_inv_def)
  then show ?thesis using assms(1,2,4) by (simp add: map_inv_def)
qed

lemma map_inv_task:
  assumes inv: "map_inv mapF inp mr s" and i: "i < length (files mr)"
    and gs: "gs s' = (gs s)[i := g]"
    and bins: "bins_ok mr (emits mapF inp mr i) (g = Finished) i (disk s')"
    and rest: "\<And>n. (\<And>r. n \<noteq> reduceName (jobName mr) i r) \<Longrightarrow> disk s' n = disk s n"
  shows "map_inv mapF inp mr s'"
  unfolding map_inv_def
proof (intro conjI ballI allI impI)
  show "length (gs s') = length (files mr)" using inv gs by (simp add: map_inv_def)
  fix f assume f: "f \<in> set (files mr)"
  with inv have *: "disk s f = Some (Bytes (inp f))" "\<And>i r. f \<noteq> reduceName (jobName mr) i r" by (auto simp: map_inv_def)
  then show "disk s' f = Some (Bytes (inp f))" using rest [of f] by simp
  show "f \<noteq> reduceName (jobName mr) j r" for j r by (rule *)
next
  fix j assume j: "j < length (files mr)"
  show "bins_ok mr (emits mapF inp mr j) (gs s' ! j = Finished) j (disk s')"
  proof (cases "j = i")
    case True
    then show ?thesis using bins gs inv j by (simp add: map_inv_def)
  next
    case False
    then have "disk s' (reduceName (jobName mr) j r) = disk s (reduceName (jobName mr) j r)" for r by (intro rest) auto
    then show ?thesis using inv j gs False by (simp add: map_inv_def bins_ok_def)
  qed
qed

lemma map_phase_inv:
  assumes "job_ok inp mr d0" "\<And>f. f \<in> set (files mr) \<Longrightarrow> utf8_keys (mapF f (inp f))" "schedule_reaches c mapF reduceF mr mapPhase d0 s"
  shows "map_inv mapF inp mr s"
  using assms(3)
proof (induction rule: schedule_reaches.induct)
  case (schedule_start ws)
  show ?case using assms(1)
    by (auto simp: map_inv_def schedule_init_def ntasks_def job_ok_def bins_ok_def binFile_def inBin_def intro: exI [of _ 0])
next
  case (schedule_more s ev s')
  note inv = schedule_more.IH
  have nz: "(word_of_nat (nReduce mr) :: 32 word) \<noteq> 0" using assms(1) word_nonzero by (simp add: job_ok_def)
  have inputs: "disk s (files mr ! i) = Some (Bytes (inp (files mr ! i)))" if "i < length (gs s)" for i
    using inv that by (simp add: map_inv_def)
  have keys: "utf8_keys (mapF (files mr ! i) (inp (files mr ! i)))" if "i < length (gs s)" for i
    using inv that assms(2) by (simp add: map_inv_def)
  have bins: "bins_ok mr (emits mapF inp mr i) (gs s ! i = Finished) i (disk s)" if "i < length (gs s)" for i
    using inv that by (simp add: map_inv_def)
  from schedule_more.hyps(3) show ?case
  proof (cases rule: schedule_step_cases)
    case keep
    then show ?thesis using inv by (simp add: map_inv_def)
  next
    case (begin_task i)
    then show ?thesis using map_inv_gs [OF inv] by simp
  next
    case (take_worker i w)
    then show ?thesis using map_inv_gs [OF inv] by simp
  next
    case (done_task i w ord)
    obtain d' where d': "doMap c (jobName mr) i (files mr ! i) (nReduce mr) mapF (disk s) = Inr d'"
      "\<And>r. d' (reduceName (jobName mr) i r) = binFile (inBin (nReduce mr) r (emits mapF inp mr i)) (disk s (reduceName (jobName mr) i r))"
      "\<And>n. (\<And>r. n \<noteq> reduceName (jobName mr) i r) \<Longrightarrow> d' n = disk s n"
      by (rule doMap_spec [of "nReduce mr" "disk s" "files mr ! i" "Bytes (inp (files mr ! i))" mapF c "jobName mr" i,
            OF nz inputs [OF done_task(2)]]) (use keys [OF done_task(2)] in \<open>auto simp: emits_def fileBytes_def\<close>)
    then have d: "disk s' = d'" using done_task(6) by (simp add: DoTask_def taskArgs_def nios_def)
    show ?thesis
    proof (rule map_inv_task [OF inv _ done_task(4)])
      show "i < length (files mr)" using done_task(2) inv by (simp add: map_inv_def)
      show "bins_ok mr (emits mapF inp mr i) (Finished = Finished) i (disk s')"
        using bins_ok_all [OF bins [OF done_task(2)], of d'] d'(2) d by simp
    qed (use d'(3) d in auto)
  next
    case (fail_task i w p ord)
    obtain d' where d': "doMap c (jobName mr) i (files mr ! i) (nReduce mr) (\<lambda>f x. take p (mapF f x)) (disk s) = Inr d'"
      "\<And>r. d' (reduceName (jobName mr) i r) = binFile (inBin (nReduce mr) r (take p (emits mapF inp mr i))) (disk s (reduceName (jobName mr) i r))"
      "\<And>n. (\<And>r. n \<noteq> reduceName (jobName mr) i r) \<Longrightarrow> d' n = disk s n"
      by (rule doMap_spec [of "nReduce mr" "disk s" "files mr ! i" "Bytes (inp (files mr ! i))" "\<lambda>f x. take p (mapF f x)" c "jobName mr" i,
            OF nz inputs [OF fail_task(1)]])
        (use utf8_keys_take [OF keys [OF fail_task(1)]] in \<open>auto simp: emits_def emitted_def fileBytes_def take_map\<close>)
    then have d: "disk s' = d'" using fail_task(5) by (simp add: DoTaskUpTo_def taskArgs_def nios_def)
    show ?thesis
    proof (rule map_inv_task [OF inv _ fail_task(3)])
      show "i < length (files mr)" using fail_task(1) inv by (simp add: map_inv_def)
      show "bins_ok mr (emits mapF inp mr i) (Taking = Finished) i (disk s')"
        using bins_ok_redo [OF bins [OF fail_task(1)], of d' p] d'(2) d by simp
    qed (use d'(3) d in auto)
  qed
qed

section \<open>The reduce phase\<close>

text \<open>The map phase's files, complete.\<close>

definition mapped :: "(nat \<Rightarrow> KeyValue list) \<Rightarrow> Master \<Rightarrow> fs \<Rightarrow> bool" where
  "mapped out mr d \<longleftrightarrow> (\<forall>i < length (files mr). \<forall>r < nReduce mr.
     d (reduceName (jobName mr) i r) = binFile (inBin (nReduce mr) r (out i)) None)"

definition reduced :: "(string \<Rightarrow> string list \<Rightarrow> string) \<Rightarrow> (nat \<Rightarrow> KeyValue list) \<Rightarrow> Master \<Rightarrow> nat \<Rightarrow> fs \<Rightarrow> bool" where
  "reduced reduceF out mr r d \<longleftrightarrow> (\<exists>ord. (\<forall>ks. mset (ord ks) = mset ks) \<and>
     d (mergeName (jobName mr) r) = Some (Json (taskOut ord (rendered reduceF) (nReduce mr) (length (files mr)) out r)))"

definition reduce_inv :: "(string \<Rightarrow> string list \<Rightarrow> string) \<Rightarrow> (nat \<Rightarrow> KeyValue list) \<Rightarrow> Master \<Rightarrow> Sched \<Rightarrow> bool" where
  "reduce_inv reduceF out mr s \<longleftrightarrow> length (gs s) = nReduce mr \<and> mapped out mr (disk s) \<and>
     (\<forall>r < nReduce mr. gs s ! r = Finished \<longrightarrow> reduced reduceF out mr r (disk s))"

lemma reduce_inv_gs:
  assumes "reduce_inv reduceF out mr s" "gs s' = (gs s)[i := g]" "g \<noteq> Finished"
    "\<And>n. n \<noteq> mergeName (jobName mr) i \<Longrightarrow> disk s' n = disk s n"
    "i < length (gs s) \<Longrightarrow> gs s ! i \<noteq> Finished"
  shows "reduce_inv reduceF out mr s'"
proof -
  have "mapped out mr (disk s')" using assms(1,4) by (simp add: reduce_inv_def mapped_def)
  moreover have "reduced reduceF out mr r (disk s')" if "r < nReduce mr" "gs s' ! r = Finished" for r
  proof -
    have "r \<noteq> i" using assms(1,2,3) that by (auto simp: reduce_inv_def)
    moreover from this have "gs s ! r = Finished" using assms(2) that by simp
    ultimately have "r \<noteq> i" "gs s ! r = Finished" .
    then show ?thesis using assms(1,4) that by (simp add: reduce_inv_def reduced_def)
  qed
  ultimately show ?thesis using assms(1,2) by (simp add: reduce_inv_def)
qed

lemma reduce_phase_inv:
  assumes "mapped out mr d0" "\<And>i. i < length (files mr) \<Longrightarrow> utf8_keys (out i)" "schedule_reaches c mapF reduceF mr reducePhase d0 s"
  shows "reduce_inv reduceF out mr s"
  using assms(3)
proof (induction rule: schedule_reaches.induct)
  case (schedule_start ws)
  show ?case using assms(1) by (auto simp: reduce_inv_def schedule_init_def ntasks_def)
next
  case (schedule_more s ev s')
  note inv = schedule_more.IH
  from schedule_more.hyps(3) show ?case
  proof (cases rule: schedule_step_cases)
    case keep
    then show ?thesis using inv by (simp add: reduce_inv_def)
  next
    case (begin_task i)
    then show ?thesis using reduce_inv_gs [OF inv begin_task(3)] by simp
  next
    case (take_worker i w)
    then show ?thesis using reduce_inv_gs [OF inv take_worker(3)] by simp
  next
    case (fail_task i w p ord)
    have "disk s' n = disk s n" if "n \<noteq> mergeName (jobName mr) i" for n
      using fail_task(5) that by (simp add: DoTaskUpTo_def taskArgs_def Let_def)
    then show ?thesis using reduce_inv_gs [OF inv fail_task(3)] fail_task(2) by simp
  next
    case (done_task i w ord)
    have i: "i < nReduce mr" using done_task(2) inv by (simp add: reduce_inv_def)
    have ord: "mset (ord ks) = mset ks" for ks using schedule_more.hyps(2) done_task(1) by blast
    have d: "disk s' = (disk s)(mergeName (jobName mr) i \<mapsto>
        Json (taskOut ord (rendered reduceF) (nReduce mr) (length (files mr)) out i))"
    proof -
      have "doReduce c ord (jobName mr) i (length (files mr)) reduceF (disk s) = (disk s)(mergeName (jobName mr) i \<mapsto>
          Json (reduceOut ord (rendered reduceF) (concat (map (\<lambda>j. inBin (nReduce mr) i (out j)) [0..<length (files mr)]))))"
        by (rule doReduce_spec) (use inv i ord assms(2) in \<open>auto simp: reduce_inv_def mapped_def utf8_keys_def inBin_def\<close>)
      then show ?thesis using done_task(6) by (simp add: DoTask_def taskArgs_def nios_def taskOut_def)
    qed
    then have "mapped out mr (disk s')" using inv by (simp add: reduce_inv_def mapped_def)
    moreover have "reduced reduceF out mr r (disk s')" if "r < nReduce mr" "gs s' ! r = Finished" for r
    proof (cases "r = i")
      case True
      then show ?thesis using d ord by (auto simp: reduced_def)
    next
      case False
      then have "gs s ! r = Finished" using that done_task(4) by simp
      then show ?thesis using inv that(1) False d by (simp add: reduce_inv_def reduced_def)
    qed
    ultimately show ?thesis using inv done_task(4) by (simp add: reduce_inv_def)
  qed
qed

text \<open>When all reduce tasks are finished, merging gives the specified output.\<close>

lemma merge_reduced:
  assumes "0 < nReduce mr" "nReduce mr < 2 ^ 32" "\<And>r. r < nReduce mr \<Longrightarrow> reduced reduceF out mr r d"
  shows "merge c (jobName mr) (nReduce mr) d = Inr (d(outName (jobName mr) \<mapsto>
    Bytes (mrSpec (rendered reduceF) (concat (map out [0..<length (files mr)])))))"
proof -
  let ?all = "concat (map out [0..<length (files mr)])"
  obtain ord where ord: "\<And>r ks. r < nReduce mr \<Longrightarrow> mset (ord r ks) = mset ks"
    "\<And>r. r < nReduce mr \<Longrightarrow>
       d (mergeName (jobName mr) r) = Some (Json (taskOut (ord r) (rendered reduceF) (nReduce mr) (length (files mr)) out r))"
    using assms(3) unfolding reduced_def by metis
  let ?h = "\<lambda>r. taskOut (ord r) (rendered reduceF) (nReduce mr) (length (files mr)) out r"
  have v: "Value kv = rendered reduceF (Key kv) (mrValues (Key kv) ?all)" if "r < nReduce mr" "kv \<in> set (?h r)" for r kv
    by (rule taskOut_value [OF ord(1) that(2)]) (rule that(1))
  have "k \<in> (\<Union>r<nReduce mr. Key ` set (?h r)) \<longleftrightarrow> k \<in> Key ` set ?all" for k
    using taskOut_key [OF ord(1), where k = k] bin_less [OF assms(1,2), of k] by (auto simp del: set_concat)
  then have "Key ` (\<Union>r<nReduce mr. set (?h r)) = Key ` set ?all" by (auto simp only: image_UN set_eq_iff)
  then show ?thesis
    using merge_spec [of "nReduce mr" d "jobName mr" ?h "\<lambda>k. rendered reduceF k (mrValues k ?all)" c, OF ord(2) v]
    by (simp add: mrSpec_def)
qed

end
