(* ===== verification/Mr_Apps.thy ===== *)
theory Mr_Apps
  imports Mapreduce_Correct
begin

text \<open>
  The two MapReduce programs of the repository, word count (\<open>main/wc.go\<close>) and the inverted
  index (\<open>main/ii.go\<close>). Texts are ASCII: \<open>unicode.IsLetter\<close> is modelled on ASCII
  characters.
\<close>

section \<open>What the programs use of the Go library\<close>

definition isLetter :: "char \<Rightarrow> bool" where
  "isLetter c \<longleftrightarrow> (65 \<le> (of_char c :: nat) \<and> (of_char c :: nat) \<le> 90) \<or> (97 \<le> (of_char c :: nat) \<and> (of_char c :: nat) \<le> 122)"

text \<open>\<open>strings.FieldsFunc\<close>; \<open>cur\<close> is the field being read.\<close>

fun fieldsFunc :: "(char \<Rightarrow> bool) \<Rightarrow> string \<Rightarrow> string \<Rightarrow> string list" where
  "fieldsFunc p [] cur = (if cur = [] then [] else [cur])"
| "fieldsFunc p (c # s) cur = (if p c then (if cur = [] then fieldsFunc p s [] else cur # fieldsFunc p s [])
     else fieldsFunc p s (cur @ [c]))"

definition isDigit :: "char \<Rightarrow> bool" where
  "isDigit c \<longleftrightarrow> 48 \<le> (of_char c :: nat) \<and> (of_char c :: nat) \<le> 57"

text \<open>
  The number \<open>strconv.Atoi\<close> returns: 0 with a syntax error, the closest 64-bit integer with a
  range error.
\<close>

definition atoi :: "string \<Rightarrow> int" where
  "atoi s = (let neg = (s \<noteq> [] \<and> hd s = CHR ''-'');
                 ds = (if s \<noteq> [] \<and> (hd s = CHR ''-'' \<or> hd s = CHR ''+'') then tl s else s) in
     if ds = [] \<or> \<not> list_all isDigit ds then 0
     else if neg then max (- (2 ^ 63)) (- int (numVal ds)) else min (2 ^ 63 - 1) (int (numVal ds)))"

definition itoaInt :: "int \<Rightarrow> string" where
  "itoaInt n = (if n < 0 then CHR ''-'' # itoa (nat (- n)) else itoa (nat n))"

section \<open>Word count\<close>

definition wc_mapF :: "string \<Rightarrow> string \<Rightarrow> KeyValue list" where
  "wc_mapF document val = map (\<lambda>word. \<lparr>Key = word, Value = ''1''\<rparr>) (fieldsFunc (\<lambda>c. \<not> isLetter c) val [])"

definition wc_reduceF :: "string \<Rightarrow> string list \<Rightarrow> string" where
  "wc_reduceF key vals = (let cnt = fold (\<lambda>v cnt. cnt + word_of_int (atoi v)) vals (0 :: 64 word) in itoaInt (sint cnt))"

section \<open>Inverted index\<close>

fun sliceUnique :: "string list \<Rightarrow> string list \<Rightarrow> string list" where
  "sliceUnique [] maps = []"
| "sliceUnique (item # items) maps =
     (if item \<notin> set maps then item # sliceUnique items (item # maps) else sliceUnique items maps)"

definition SliceUnique :: "string list \<Rightarrow> string list" where
  "SliceUnique items = sliceUnique items []"

definition ii_mapF :: "string \<Rightarrow> string \<Rightarrow> KeyValue list" where
  "ii_mapF document val = map (\<lambda>word. \<lparr>Key = word, Value = document\<rparr>) (SliceUnique (fieldsFunc (\<lambda>c. \<not> isLetter c) val []))"

fun joinNames :: "nat \<Rightarrow> nat \<Rightarrow> string list \<Rightarrow> string" where
  "joinNames len index [] = []"
| "joinNames len index (name # names) =
     name @ (if Suc index \<noteq> len then '','' else []) @ joinNames len (Suc index) names"

definition ii_reduceF :: "string \<Rightarrow> string list \<Rightarrow> string" where
  "ii_reduceF key vals = (let vals = sort vals; len = length vals in itoa len @ '' '' @ joinNames len 0 vals)"

section \<open>Lemmas\<close>

text \<open>The fields are not empty, have no separator, and are what is left of the text without them.\<close>

lemma fieldsFunc_concat: "list_all (\<lambda>c. \<not> p c) cur \<Longrightarrow> concat (fieldsFunc p s cur) = cur @ filter (\<lambda>c. \<not> p c) s"
  by (induction s arbitrary: cur) auto

lemma fieldsFunc_words:
  "list_all (\<lambda>c. \<not> p c) cur \<Longrightarrow> w \<in> set (fieldsFunc p s cur) \<Longrightarrow> w \<noteq> [] \<and> list_all (\<lambda>c. \<not> p c) w"
proof (induction s arbitrary: cur)
  case (Cons c s)
  show ?case using Cons.prems Cons.IH [of "[]"] Cons.IH [of "cur @ [c]"] by (auto split: if_splits)
qed (auto split: if_splits)

lemma atoi_one: "atoi ''1'' = 1"
  by (simp add: atoi_def isDigit_def numVal_def Let_def)

lemma count_ones: "fold (\<lambda>v cnt. cnt + word_of_int (atoi v)) (replicate n ''1'') (c :: 64 word) = c + word_of_nat n"
  by (induction n arbitrary: c) (simp_all add: atoi_one algebra_simps)

lemma wc_reduceF_ones:
  assumes "n < 2 ^ 63"
  shows "wc_reduceF key (replicate n ''1'') = itoa n"
proof -
  have "sint (word_of_nat n :: 64 word) = int n"
    using assms by (subst signed_of_nat) (simp add: signed_take_bit_int_eq_self)
  then show ?thesis unfolding wc_reduceF_def count_ones itoaInt_def Let_def by simp
qed

lemma mrValues_wc: "mrValues k (map (\<lambda>word. \<lparr>Key = word, Value = v\<rparr>) ws) = replicate (count_list ws k) v"
  by (induction ws) (auto simp: mrValues_def)

lemma sliceUnique_set: "set (sliceUnique xs maps) = set xs - set maps \<and> distinct (sliceUnique xs maps)"
  by (induction xs arbitrary: maps) auto

lemma mrValues_unique:
  "distinct ws \<Longrightarrow> mrValues k (map (\<lambda>word. \<lparr>Key = word, Value = v\<rparr>) ws) = (if k \<in> set ws then [v] else [])"
proof -
  assume "distinct ws"
  then have "count_list ws k = (if k \<in> set ws then 1 else 0)" by (induction ws) auto
  then show ?thesis by (simp add: mrValues_wc)
qed

lemma mrValues_append: "mrValues k (xs @ ys) = mrValues k xs @ mrValues k ys"
  by (simp add: mrValues_def)

text \<open>The documents that contain a word.\<close>

lemma mrValues_ii:
  "mrValues k (concat (map (\<lambda>f. ii_mapF f (inp f)) fls)) =
     filter (\<lambda>f. k \<in> set (fieldsFunc (\<lambda>c. \<not> isLetter c) (inp f) [])) fls"
proof (induction fls)
  case (Cons f fls)
  let ?ws = "fieldsFunc (\<lambda>c. \<not> isLetter c) (inp f) []"
  have "mrValues k (ii_mapF f (inp f)) = (if k \<in> set ?ws then [f] else [])"
    using sliceUnique_set [of ?ws "[]"] by (simp add: ii_mapF_def SliceUnique_def mrValues_unique)
  then show ?case using Cons by (simp add: mrValues_append)
qed (simp add: mrValues_def)

section \<open>UTF-8\<close>

lemma validUtf8_itoa: "validUtf8 (itoa n)"
  by (rule validUtf8_ascii) (use itoa_digits in \<open>fastforce simp: list_all_iff inRange_def\<close>)

lemma validUtf8_word: "w \<in> set (fieldsFunc (\<lambda>c. \<not> isLetter c) s []) \<Longrightarrow> validUtf8 w"
  by (rule validUtf8_ascii) (use fieldsFunc_words [of "\<lambda>c. \<not> isLetter c" "[]" w s] in \<open>auto simp: list_all_iff inRange_def isLetter_def\<close>)

lemma wc_keys: "utf8_keys (wc_mapF f s)"
  by (auto simp: utf8_keys_def wc_mapF_def validUtf8_word)

lemma ii_keys: "utf8_keys (ii_mapF f s)"
  using sliceUnique_set [of _ "[]"] by (auto simp: utf8_keys_def ii_mapF_def SliceUnique_def validUtf8_word)

lemma emitted_same: "(\<And>kv. kv \<in> set (mapF f s) \<Longrightarrow> validUtf8 (Key kv) \<and> validUtf8 (Value kv)) \<Longrightarrow> emitted mapF f s = mapF f s"
  unfolding emitted_def by (rule map_idI) (simp add: jsonKV_def validUtf8_D)

lemma wc_emitted: "emitted wc_mapF f s = wc_mapF f s"
  using validUtf8_ascii [of "''1''"] by (intro emitted_same) (auto simp: wc_mapF_def validUtf8_word inRange_def)

lemma ii_emitted: "validUtf8 f \<Longrightarrow> emitted ii_mapF f s = ii_mapF f s"
  using sliceUnique_set [of _ "[]"] by (intro emitted_same) (auto simp: ii_mapF_def SliceUnique_def validUtf8_word)

lemma joinNames_valid: "(\<And>name. name \<in> set names \<Longrightarrow> validUtf8 name) \<Longrightarrow> validUtf8 (joinNames len index names)"
proof (induction len index names rule: joinNames.induct)
  case (2 len index name names)
  have "validUtf8 (if Suc index \<noteq> len then '','' else [])" by (auto intro!: validUtf8_ascii simp: inRange_def)
  then show ?case using 2 by (simp add: validUtf8_append)
qed simp

lemma ii_reduceF_valid: "(\<And>v. v \<in> set vals \<Longrightarrow> validUtf8 v) \<Longrightarrow> rendered ii_reduceF key vals = ii_reduceF key vals"
proof -
  assume "\<And>v. v \<in> set vals \<Longrightarrow> validUtf8 v"
  then have "validUtf8 (joinNames (length (sort vals)) 0 (sort vals))" by (intro joinNames_valid) simp
  moreover have "validUtf8 '' ''" by (rule validUtf8_ascii) (simp add: inRange_def)
  ultimately show ?thesis unfolding rendered_def
    by (intro validUtf8_D) (auto simp: ii_reduceF_def Let_def intro: validUtf8_itoa simp flip: append_Cons)
qed

end
