(* ===== verification/Mr_Properties.thy ===== *)
theory Mr_Properties
  imports Mr_Schedule Mr_Apps
begin

text \<open>
  The correctness theorems of the MapReduce library and its programs.
\<close>

section \<open>A small job\<close>

definition demo_codec :: codec where
  "demo_codec = \<lparr>render = (\<lambda>_. []), parse = (\<lambda>_. [])\<rparr>"

definition demo_inp :: "string \<Rightarrow> string" where
  "demo_inp f = (if f = ''a'' then ''x y x'' else ''y'')"

definition demo_fs :: fs where
  "demo_fs = [''a'' \<mapsto> Bytes ''x y x'', ''b'' \<mapsto> Bytes ''y'']"

lemma demo_not_temp: "''a'' \<noteq> reduceName job i r" "''b'' \<noteq> reduceName job i r"
  by (simp_all add: reduceName_def)

lemma demo_files: "f \<in> set [''a'', ''b''] \<Longrightarrow> demo_fs f = Some (Bytes (demo_inp f)) \<and> (\<forall>i r. f \<noteq> reduceName job i r)"
  by (auto simp: demo_fs_def demo_inp_def demo_not_temp)

lemma demo_fresh: "demo_fs (reduceName job i r) = None"
  using demo_not_temp [of job i r] by (auto simp: demo_fs_def)

lemma demo_names: "f \<in> set [''a'', ''b''] \<Longrightarrow> validUtf8 f"
  by (auto intro!: validUtf8_ascii simp: inRange_def)

definition demo_mr :: Master where
  "demo_mr = \<lparr>jobName = ''j'', files = [''a'', ''b''], nReduce = 2, workers = [], stats = []\<rparr>"

fun schedule_run :: "codec \<Rightarrow> (string \<Rightarrow> string \<Rightarrow> KeyValue list) \<Rightarrow> (string \<Rightarrow> string list \<Rightarrow> string) \<Rightarrow>
    Master \<Rightarrow> jobPhase \<Rightarrow> sevent list \<Rightarrow> Sched \<Rightarrow> Sched option" where
  "schedule_run c mapF reduceF mr phase [] s = Some s"
| "schedule_run c mapF reduceF mr phase (ev # evs) s = (case schedule_step c mapF reduceF mr phase ev s of
     None \<Rightarrow> None | Some s \<Rightarrow> schedule_run c mapF reduceF mr phase evs s)"

lemma schedule_run_reaches:
  "schedule_reaches c mapF reduceF mr phase d s \<Longrightarrow> schedule_run c mapF reduceF mr phase evs s = Some s' \<Longrightarrow>
     \<forall>i ord. SDone i ord \<in> set evs \<longrightarrow> (\<forall>ks. mset (ord ks) = mset ks) \<Longrightarrow>
     schedule_reaches c mapF reduceF mr phase d s'"
proof (induction evs arbitrary: s)
  case (Cons ev evs)
  from Cons.prems(2) obtain s1 where s1: "schedule_step c mapF reduceF mr phase ev s = Some s1"
    "schedule_run c mapF reduceF mr phase evs s1 = Some s'" by (auto split: option.splits)
  have "schedule_reaches c mapF reduceF mr phase d s1"
    by (rule schedule_reaches.schedule_more [OF Cons.prems(1) _ s1(1)]) (use Cons.prems(3) in auto)
  from Cons.IH [OF this s1(2)] Cons.prems(3) show ?case by simp
qed simp

text \<open>Worker 0 fails in the middle of task 0; worker 1 does both tasks.\<close>

definition demo_events :: "sevent list" where
  "demo_events = [SBegin 0, SBegin 1, STake 0 0, SFail 0 1 id, STake 0 0, SDone 0 rev, STake 1 0, SDone 1 rev, SReturn]"

definition demo_run :: "jobPhase \<Rightarrow> fs \<Rightarrow> Sched" where
  "demo_run phase d = the (schedule_run demo_codec wc_mapF wc_reduceF demo_mr phase demo_events
     (schedule_init demo_mr phase [''w0'', ''w1''] d))"

lemma demo_map_run: "map_option (\<lambda>s. (wg s, gs s)) (schedule_run demo_codec wc_mapF wc_reduceF demo_mr mapPhase demo_events
    (schedule_init demo_mr mapPhase [''w0'', ''w1''] demo_fs)) = Some (0, [Finished, Finished])"
  by code_simp

lemma demo_reduce_run: "map_option (\<lambda>s. (wg s, gs s)) (schedule_run demo_codec wc_mapF wc_reduceF demo_mr reducePhase demo_events
    (schedule_init demo_mr reducePhase [''w0'', ''w1''] d)) = Some (0, [Finished, Finished])"
  by (simp add: demo_events_def schedule_step_def schedule_init_def demo_mr_def ntasks_def DoTask_def taskArgs_def
      numeral_2_eq_2)

lemma demo_run_ok:
  assumes "map_option (\<lambda>s. (wg s, gs s)) (schedule_run demo_codec wc_mapF wc_reduceF demo_mr phase demo_events
    (schedule_init demo_mr phase [''w0'', ''w1''] d)) = Some (0, [Finished, Finished])"
  shows "schedule_reaches demo_codec wc_mapF wc_reduceF demo_mr phase d (demo_run phase d)"
    "wg (demo_run phase d) = 0" "NotStarted \<notin> set (gs (demo_run phase d))"
proof -
  obtain s where s: "schedule_run demo_codec wc_mapF wc_reduceF demo_mr phase demo_events
    (schedule_init demo_mr phase [''w0'', ''w1''] d) = Some s" "wg s = 0" "gs s = [Finished, Finished]"
    using assms by auto
  have "schedule_reaches demo_codec wc_mapF wc_reduceF demo_mr phase d s"
    by (rule schedule_run_reaches [OF schedule_reaches.schedule_start s(1)]) (auto simp: demo_events_def)
  then show "schedule_reaches demo_codec wc_mapF wc_reduceF demo_mr phase d (demo_run phase d)"
    "wg (demo_run phase d) = 0" "NotStarted \<notin> set (gs (demo_run phase d))" using s by (simp_all add: demo_run_def)
qed

section \<open>Theorems\<close>

text \<open>
  C27: A sequential job computes its specification. With at least one and fewer than \<open>2 ^ 32\<close>
  reduce tasks, input files that exist and are not named like the job's intermediate files, no
  leftover intermediate file, keys that are UTF-8, and whatever order Go iterates over maps in, the
  job ends without failing, and its output lists every key the map function emitted, sorted, once,
  with the reduce function applied to all its values (values and results as JSON carries them, with
  bytes that are not UTF-8 replaced).
\<close>

theorem Sequential_correct:
  assumes "0 < nR" "nR < 2 ^ 32" "\<And>ks. mset (ord ks) = mset ks"
    "\<And>f. f \<in> set fls \<Longrightarrow> d f = Some (Bytes (inp f)) \<and> (\<forall>i r. f \<noteq> reduceName job i r)"
    "\<And>i r. i < length fls \<Longrightarrow> r < nR \<Longrightarrow> d (reduceName job i r) = None"
    "\<And>f. f \<in> set fls \<Longrightarrow> utf8_keys (mapF f (inp f))"
  shows "\<exists>mr d'. Sequential c ord mapF reduceF job fls nR d = Inr (mr, d') \<and> stats mr = [length fls + nR] \<and>
    d' (outName job) = Some (Bytes (mrSpec (rendered reduceF) (concat (map (\<lambda>f. emitted mapF f (inp f)) fls))))"
  by (rule sequential_output) (use assms in auto)

theorem Sequential_correct_witness:
  "\<exists>mr d'. Sequential demo_codec rev wc_mapF wc_reduceF ''wcseq'' [''a'', ''b''] 3 demo_fs = Inr (mr, d') \<and>
     stats mr = [5] \<and> d' ''mrtmp.wcseq'' \<noteq> None"
proof -
  have "\<exists>mr d'. Sequential demo_codec rev wc_mapF wc_reduceF ''wcseq'' [''a'', ''b''] 3 demo_fs = Inr (mr, d') \<and>
     stats mr = [length [''a'', ''b''] + 3] \<and> d' (outName ''wcseq'') =
       Some (Bytes (mrSpec (rendered wc_reduceF) (concat (map (\<lambda>f. emitted wc_mapF f (demo_inp f)) [''a'', ''b'']))))"
    by (rule Sequential_correct) (simp_all add: demo_files demo_fresh wc_keys del: set_simps)
  then show ?thesis by (auto simp: outName_def)
qed

text \<open>
  C26: A distributed job computes the same output as its specification, whatever workers register,
  fail at any point of a task or serve several tasks, and however tasks interleave. The job has at
  least one and fewer than \<open>2 ^ 32\<close> reduce tasks, inputs that exist and are not named like its
  intermediate files, no leftover intermediate file, and a map function whose keys are UTF-8; a call
  that fails has ended its task. If each phase reaches a state in which all its goroutines have
  started and the wait group is empty, merging gives the specified output (values and results as
  JSON carries them).
\<close>

theorem Distributed_correct:
  assumes "job_ok inp mr d0" "\<And>f. f \<in> set (files mr) \<Longrightarrow> utf8_keys (mapF f (inp f))"
    "schedule_reaches c mapF reduceF mr mapPhase d0 s1" "wg s1 = 0" "NotStarted \<notin> set (gs s1)"
    "schedule_reaches c mapF reduceF mr reducePhase (disk s1) s2" "wg s2 = 0" "NotStarted \<notin> set (gs s2)"
  shows "\<exists>d. merge c (jobName mr) (nReduce mr) (disk s2) = Inr d \<and> d (outName (jobName mr)) =
    Some (Bytes (mrSpec (rendered reduceF) (concat (map (\<lambda>f. emitted mapF f (inp f)) (files mr)))))"
proof -
  have inv: "map_inv mapF inp mr s1" by (rule map_phase_inv [OF assms(1-3)])
  have keys: "utf8_keys (emits mapF inp mr i)" if "i < length (files mr)" for i
    using utf8_keys_json [OF assms(2) [OF nth_mem [OF that]]] by (simp add: emits_def emitted_def)
  have "mapped (emits mapF inp mr) mr (disk s1)"
    using inv schedule_all_finished [OF assms(3-5)] by (simp add: mapped_def map_inv_def bins_ok_def ntasks_def)
  from reduce_phase_inv [OF this keys assms(6)] have "reduced reduceF (emits mapF inp mr) mr r (disk s2)" if "r < nReduce mr" for r
    using schedule_all_finished [OF assms(6-8)] that by (simp add: reduce_inv_def ntasks_def)
  moreover have "map (emits mapF inp mr) [0..<length (files mr)] = map (\<lambda>f. emitted mapF f (inp f)) (files mr)"
    by (rule nth_equalityI) (auto simp: emits_def)
  moreover have "0 < nReduce mr" "nReduce mr < 2 ^ 32" using assms(1) by (simp_all add: job_ok_def)
  ultimately show ?thesis using merge_reduced [of mr reduceF "emits mapF inp mr" "disk s2" c] by simp
qed

theorem Distributed_correct_witness:
  "\<exists>d. merge demo_codec ''j'' 2 (disk (demo_run reducePhase (disk (demo_run mapPhase demo_fs)))) = Inr d \<and>
     d ''mrtmp.j'' \<noteq> None"
proof -
  let ?s1 = "demo_run mapPhase demo_fs"
  let ?s2 = "demo_run reducePhase (disk ?s1)"
  have "job_ok demo_inp demo_mr demo_fs" using demo_files [of _ "''j''"] by (auto simp: job_ok_def demo_mr_def demo_fresh)
  from Distributed_correct [OF this wc_keys demo_run_ok [OF demo_map_run] demo_run_ok [OF demo_reduce_run]]
  obtain d where "merge demo_codec (jobName demo_mr) (nReduce demo_mr) (disk ?s2) = Inr d" "d (outName (jobName demo_mr)) \<noteq> None"
    by blast
  then show ?thesis by (auto simp: demo_mr_def outName_def)
qed

text \<open>
  The scheduler can return before any task has run: the goroutines add themselves to the wait
  group after they are started, so \<open>wg.Wait\<close> may find it empty.
\<close>

theorem schedule_returns_early:
  "\<exists>s. schedule_reaches c mapF reduceF mr phase d s \<and> returned s \<and> disk s = d \<and>
     gs s = replicate (ntasks mr phase) NotStarted"
proof -
  let ?s = "(schedule_init mr phase [] d)\<lparr>returned := True\<rparr>"
  have "schedule_reaches c mapF reduceF mr phase d ?s"
    by (rule schedule_reaches.schedule_more [OF schedule_reaches.schedule_start, where ev = SReturn])
      (simp_all add: schedule_step_def schedule_init_def)
  then show ?thesis by (intro exI [of _ ?s]) (simp add: schedule_init_def)
qed

text \<open>
  With more reduce tasks than input files, the reduce phase of a distributed job can panic:
  the scheduler indexes the list of input files with the number of a reduce task.
\<close>

theorem reduce_phase_panics:
  assumes "length (files mr) < nReduce mr"
  shows "\<exists>s. schedule_reaches c mapF reduceF mr reducePhase d s \<and> crashed s"
proof -
  let ?i = "length (files mr)"
  let ?s0 = "schedule_init mr reducePhase [w] d"
  let ?s1 = "?s0\<lparr>gs := (gs ?s0)[?i := Taking], wg := 1\<rparr>"
  have "schedule_reaches c mapF reduceF mr reducePhase d ?s1"
    by (rule schedule_reaches.schedule_more [OF schedule_reaches.schedule_start, where ev = "SBegin ?i"])
      (use assms in \<open>simp_all add: schedule_step_def schedule_init_def ntasks_def\<close>)
  then have "schedule_reaches c mapF reduceF mr reducePhase d (?s1\<lparr>crashed := True\<rparr>)"
    by (rule schedule_reaches.schedule_more [where ev = "STake ?i 0"])
      (use assms in \<open>simp_all add: schedule_step_def schedule_init_def ntasks_def\<close>)
  then show ?thesis by (intro exI [of _ "?s1\<lparr>crashed := True\<rparr>"]) simp
qed

theorem reduce_phase_panics_witness:
  "\<exists>s. schedule_reaches demo_codec wc_mapF wc_reduceF
     \<lparr>jobName = ''wcseq'', files = [''a'', ''b''], nReduce = 3, workers = [], stats = []\<rparr> reducePhase demo_fs s \<and> crashed s"
  by (rule reduce_phase_panics) simp

text \<open>
  An intermediate file left by an earlier job corrupts the output: a map task creates only
  the files of the bins it has output for, and a reduce task reads every file that exists. There
  is a file system in which a job with an empty input reports a word that does not occur.
\<close>

theorem leftover_bin_corrupts:
  "\<exists>d mr d'. d ''a'' = Some (Bytes []) \<and> wc_mapF ''a'' [] = [] \<and>
     Sequential c (\<lambda>ks. ks) wc_mapF wc_reduceF ''wcseq'' [''a''] 1 d = Inr (mr, d') \<and>
     d' (outName ''wcseq'') = Some (Bytes (outLine ''old'' ''1''))"
proof -
  let ?d = "[''a'' \<mapsto> Bytes [], reduceName ''wcseq'' 0 0 \<mapsto> Json [\<lparr>Key = ''old'', Value = ''1''\<rparr>]]"
  have w: "wc_mapF ''a'' [] = []" by (simp add: wc_mapF_def)
  have "itoa 1 = ''1''" by code_simp
  then have r: "wc_reduceF ''old'' [''1''] = ''1''" using wc_reduceF_ones [of 1] by simp
  have j: "jsonKV \<lparr>Key = ''old'', Value = ''1''\<rparr> = \<lparr>Key = ''old'', Value = ''1''\<rparr>" by code_simp
  show ?thesis
    by (rule exI [of _ ?d])
      (simp add: w r Sequential_def run_def sequentialSchedule_def doMap_def fileBytes_def demo_not_temp reduceTasks_def
        doReduce_def decodeFile_def addValue_def merge_def newMaster_def Let_def j)
qed

section \<open>The programs\<close>

abbreviation wordsOf :: "string \<Rightarrow> string list" where
  "wordsOf text \<equiv> fieldsFunc (\<lambda>c. \<not> isLetter c) text []"

lemma wc_spec:
  assumes "length (concat (map (\<lambda>f. wordsOf (inp f)) fls)) < 2 ^ 63"
  shows "mrSpec (rendered wc_reduceF) (concat (map (\<lambda>f. emitted wc_mapF f (inp f)) fls)) =
    concat (map (\<lambda>w. outLine w (itoa (count_list (concat (map (\<lambda>f. wordsOf (inp f)) fls)) w)))
      (sorted_list_of_set (set (concat (map (\<lambda>f. wordsOf (inp f)) fls)))))"
proof -
  let ?ws = "concat (map (\<lambda>f. wordsOf (inp f)) fls)"
  have e: "concat (map (\<lambda>f. emitted wc_mapF f (inp f)) fls) = map (\<lambda>w. \<lparr>Key = w, Value = ''1''\<rparr>) ?ws"
    by (simp add: wc_emitted wc_mapF_def map_concat comp_def)
  have "count_list ?ws w < 2 ^ 63" for w using assms count_le_length [of ?ws w] by linarith
  then show ?thesis unfolding mrSpec_def e by (simp add: mrValues_wc rendered_def wc_reduceF_ones validUtf8_D [OF validUtf8_itoa] image_image del: set_concat)
qed

lemma ii_spec:
  assumes "\<And>f. f \<in> set fls \<Longrightarrow> validUtf8 f"
  shows "mrSpec (rendered ii_reduceF) (concat (map (\<lambda>f. emitted ii_mapF f (inp f)) fls)) =
    concat (map (\<lambda>w. let docs = sort (filter (\<lambda>f. w \<in> set (wordsOf (inp f))) fls) in
        outLine w (itoa (length docs) @ '' '' @ joinNames (length docs) 0 docs))
      (sorted_list_of_set (set (concat (map (\<lambda>f. wordsOf (inp f)) fls)))))"
proof -
  have "Key ` set (concat (map (\<lambda>f. ii_mapF f (inp f)) fls)) = set (concat (map (\<lambda>f. wordsOf (inp f)) fls))"
    using sliceUnique_set [of _ "[]"] by (force simp: ii_mapF_def SliceUnique_def image_UN image_image)
  moreover have "concat (map (\<lambda>f. emitted ii_mapF f (inp f)) fls) = concat (map (\<lambda>f. ii_mapF f (inp f)) fls)"
    using assms by (intro arg_cong [of _ _ concat] map_cong) (auto simp: ii_emitted)
  moreover have "rendered ii_reduceF w (filter P fls) = ii_reduceF w (filter P fls)" for w P using assms by (intro ii_reduceF_valid) simp
  ultimately show ?thesis unfolding mrSpec_def by (simp add: mrValues_ii ii_reduceF_def Let_def del: set_concat)
qed

text \<open>
  The word count program: run on ASCII texts with fewer than \<open>2 ^ 63\<close> words, it writes
  each word that occurs, in order, with the number of its occurrences in all texts.
\<close>

theorem wordcount_correct:
  assumes "\<And>ks. mset (ord ks) = mset ks"
    "\<And>f. f \<in> set fls \<Longrightarrow> d f = Some (Bytes (inp f)) \<and> (\<forall>i r. f \<noteq> reduceName ''wcseq'' i r)"
    "\<And>i r. i < length fls \<Longrightarrow> r < 3 \<Longrightarrow> d (reduceName ''wcseq'' i r) = None"
    "length (concat (map (\<lambda>f. wordsOf (inp f)) fls)) < 2 ^ 63"
  shows "\<exists>mr d'. Sequential c ord wc_mapF wc_reduceF ''wcseq'' fls 3 d = Inr (mr, d') \<and> d' ''mrtmp.wcseq'' =
    Some (Bytes (concat (map (\<lambda>w. outLine w (itoa (count_list (concat (map (\<lambda>f. wordsOf (inp f)) fls)) w)))
      (sorted_list_of_set (set (concat (map (\<lambda>f. wordsOf (inp f)) fls)))))))"
proof -
  have "\<exists>mr d'. Sequential c ord wc_mapF wc_reduceF ''wcseq'' fls 3 d = Inr (mr, d') \<and> stats mr = [length fls + 3] \<and>
    d' (outName ''wcseq'') = Some (Bytes (mrSpec (rendered wc_reduceF) (concat (map (\<lambda>f. emitted wc_mapF f (inp f)) fls))))"
    by (rule sequential_output) (use assms(1-3) wc_keys in auto)
  then show ?thesis using wc_spec [OF assms(4)] by (auto simp: outName_def)
qed

lemma demo_sorted: "sorted_list_of_set {''x'', ''y''} = [''x'', ''y'']"
  using sorted_list_of_set_sort_remdups [of "[''x'', ''y'']"] by (simp add: less_eq_char_def less_list_code)

theorem wordcount_correct_witness:
  "\<exists>mr d'. Sequential demo_codec rev wc_mapF wc_reduceF ''wcseq'' [''a'', ''b''] 3 demo_fs = Inr (mr, d') \<and>
     d' ''mrtmp.wcseq'' = Some (Bytes (outLine ''x'' ''2'' @ outLine ''y'' ''2''))"
proof -
  have i: "itoa 2 = ''2''" by code_simp
  have words: "concat (map (\<lambda>f. wordsOf (demo_inp f)) [''a'', ''b'']) = [''x'', ''y'', ''x'', ''y'']"
    by (simp add: demo_inp_def isLetter_def)
  have "set [''x'', ''y'', ''x'', ''y''] = {''x'', ''y''}" by auto
  then have out: "concat (map (\<lambda>w. outLine w (itoa (count_list [''x'', ''y'', ''x'', ''y''] w)))
      (sorted_list_of_set (set [''x'', ''y'', ''x'', ''y'']))) = outLine ''x'' ''2'' @ outLine ''y'' ''2''"
    using i by (simp add: demo_sorted numeral_2_eq_2 del: set_simps)
  have "\<exists>mr d'. Sequential demo_codec rev wc_mapF wc_reduceF ''wcseq'' [''a'', ''b''] 3 demo_fs = Inr (mr, d') \<and>
    d' ''mrtmp.wcseq'' = Some (Bytes (concat (map (\<lambda>w. outLine w (itoa (count_list
        (concat (map (\<lambda>f. wordsOf (demo_inp f)) [''a'', ''b''])) w)))
      (sorted_list_of_set (set (concat (map (\<lambda>f. wordsOf (demo_inp f)) [''a'', ''b''])))))))"
  proof (rule wordcount_correct)
    show "length (concat (map (\<lambda>f. wordsOf (demo_inp f)) [''a'', ''b''])) < 2 ^ 63" unfolding words by simp
  qed (simp_all add: demo_files demo_fresh del: set_simps)
  then show ?thesis unfolding words out .
qed

text \<open>
  The inverted index program. On texts whose names are UTF-8, it writes each word that occurs, in order,
  with the number of texts it occurs in and their names, sorted and separated by commas.
\<close>

theorem inverted_index_correct:
  assumes "\<And>ks. mset (ord ks) = mset ks"
    "\<And>f. f \<in> set fls \<Longrightarrow> d f = Some (Bytes (inp f)) \<and> (\<forall>i r. f \<noteq> reduceName ''iiseq'' i r)"
    "\<And>i r. i < length fls \<Longrightarrow> r < 3 \<Longrightarrow> d (reduceName ''iiseq'' i r) = None" "\<And>f. f \<in> set fls \<Longrightarrow> validUtf8 f"
  shows "\<exists>mr d'. Sequential c ord ii_mapF ii_reduceF ''iiseq'' fls 3 d = Inr (mr, d') \<and> d' ''mrtmp.iiseq'' =
    Some (Bytes (concat (map (\<lambda>w. let docs = sort (filter (\<lambda>f. w \<in> set (wordsOf (inp f))) fls) in
        outLine w (itoa (length docs) @ '' '' @ joinNames (length docs) 0 docs))
      (sorted_list_of_set (set (concat (map (\<lambda>f. wordsOf (inp f)) fls)))))))"
proof -
  have "\<exists>mr d'. Sequential c ord ii_mapF ii_reduceF ''iiseq'' fls 3 d = Inr (mr, d') \<and> stats mr = [length fls + 3] \<and>
    d' (outName ''iiseq'') = Some (Bytes (mrSpec (rendered ii_reduceF) (concat (map (\<lambda>f. emitted ii_mapF f (inp f)) fls))))"
    by (rule sequential_output) (use assms ii_keys in auto)
  then show ?thesis using ii_spec [of fls inp, OF assms(4)] by (auto simp: outName_def)
qed

theorem inverted_index_correct_witness:
  "\<exists>mr d'. Sequential demo_codec rev ii_mapF ii_reduceF ''iiseq'' [''a'', ''b''] 3 demo_fs = Inr (mr, d') \<and>
     d' ''mrtmp.iiseq'' \<noteq> None"
proof -
  have "\<exists>mr d'. Sequential demo_codec rev ii_mapF ii_reduceF ''iiseq'' [''a'', ''b''] 3 demo_fs = Inr (mr, d') \<and> d' ''mrtmp.iiseq'' =
    Some (Bytes (concat (map (\<lambda>w. let docs = sort (filter (\<lambda>f. w \<in> set (wordsOf (demo_inp f))) [''a'', ''b'']) in
        outLine w (itoa (length docs) @ '' '' @ joinNames (length docs) 0 docs))
      (sorted_list_of_set (set (concat (map (\<lambda>f. wordsOf (demo_inp f)) [''a'', ''b'']))))) ))"
    by (rule inverted_index_correct) (use demo_names in \<open>simp_all add: demo_files demo_fresh del: set_simps\<close>)
  then show ?thesis by blast
qed

end
