(* ===== verification/Etcd_Example.thy ===== *)
theory Etcd_Example
  imports Prelude "HOL-Library.Word" "HOL-Library.Sublist"
begin

text \<open>
  The key/value example on etcd's Raft library, \<open>src/etcd-raft\<close>: the node's handling of
  committed entries and snapshots (\<open>raft.go\<close>), the store (\<open>kvstore.go\<close>) and its HTTP
  interface (\<open>httpapi.go\<close>). The Raft library itself, its log storage and its transport are
  not part of the repository's code: their results are parameters, and the calls made to them are
  recorded. Log indices are 64-bit words.
\<close>

section \<open>Data\<close>

text \<open>
  The bytes of a proposal: what \<open>gob\<close> makes of a pair, or other bytes, whose decoding is the
  parameter \<open>gobParse\<close> of the store.
\<close>

datatype payload = GobKV string string | OtherBytes string

datatype entryType = EntryNormal | EntryConfChange

record Entry =
  eIndex :: "64 word"
  eType :: entryType
  eData :: payload

datatype confType = ConfChangeAddNode | ConfChangeRemoveNode

record ConfChange =
  ccType :: confType
  ccNodeID :: "64 word"
  ccContext :: string

type_synonym confState = "64 word list"

record Snapshot =
  snIndex :: "64 word"
  snConf :: confState

text \<open>The calls made to the Raft library, its storage, the write-ahead log and the transport.\<close>

datatype nodeop =
    ApplyConfChange ConfChange | AddPeer "64 word" string | RemovePeer "64 word"
  | WalSave string "Entry list" | SnapSave "64 word" | WalSaveSnapshot "64 word" | WalReleaseLockTo "64 word"
  | StorageApplySnapshot Snapshot | StorageAppend "Entry list" | StorageSetHardState string
  | StorageCreateSnapshot "64 word" confState string | StorageCompact "64 word"
  | TransportStart | TransportSend "string list" | TransportStop
  | StartNode "nat list" | RestartNode | NodeTick | NodeAdvance | NodeStop
  | NodePropose payload | NodeProposeConfChange "64 word" ConfChange

datatype etcdfail = FatalFirstIndex | FatalSnapshotIndex | FatalMkdir | FatalWAL
  | PanicGetSnapshot | PanicCreateSnapshot | PanicSaveSnap | PanicCompact

text \<open>
  The results of the calls that can fail: saving a snapshot, saving its mark in the write-ahead
  log, releasing the older files, encoding the store, creating a snapshot, compacting the log.
\<close>

record SnapEnv =
  okSnapSave :: bool
  okWalSaveSnapshot :: bool
  okReleaseLock :: bool
  gotSnapshot :: "string option"
  okCreate :: bool
  okCompact :: bool

text \<open>
  \<open>commitC\<close> holds what was sent on the channel; None is the nil message. \<open>closed\<close> tells
  that the commit and error channels are closed.
\<close>

record RaftNode =
  rnId :: "64 word"
  rnPeers :: "string list"
  rnJoin :: bool
  rnLastIndex :: "64 word"
  confState :: confState
  snapshotIndex :: "64 word"
  appliedIndex :: "64 word"
  snapCount :: "64 word"
  commitC :: "payload option list"
  errorC :: "string list"
  closed :: bool
  nodeOps :: "nodeop list"

definition call :: "nodeop \<Rightarrow> RaftNode \<Rightarrow> RaftNode" where
  "call op rc = rc\<lparr>nodeOps := nodeOps rc @ [op]\<rparr>"

definition emptyPayload :: "payload \<Rightarrow> bool" where
  "emptyPayload d \<longleftrightarrow> d = OtherBytes []"

section \<open>Committed entries\<close>

definition entriesToApply :: "Entry list \<Rightarrow> RaftNode \<Rightarrow> etcdfail + Entry list" where
  "entriesToApply ents rc =
     (if ents = [] then Inr []
      else let firstIdx = eIndex (hd ents) in
        if firstIdx > appliedIndex rc + 1 then Inl FatalFirstIndex
        else if appliedIndex rc - firstIdx + 1 < word_of_nat (length ents)
        then Inr (drop (unat (appliedIndex rc - firstIdx + 1)) ents)
        else Inr [])"

text \<open>
  A send races with the stop channel; \<open>Some b\<close> means that \<open>b\<close> more sends go through before
  the stop is seen.
\<close>

definition send :: "payload option \<Rightarrow> nat option \<times> RaftNode \<Rightarrow> bool \<times> nat option \<times> RaftNode" where
  "send d = (\<lambda>(b, rc). case b of
     None \<Rightarrow> (True, None, rc\<lparr>commitC := commitC rc @ [d]\<rparr>)
   | Some 0 \<Rightarrow> (False, Some 0, rc)
   | Some (Suc b) \<Rightarrow> (True, Some b, rc\<lparr>commitC := commitC rc @ [d]\<rparr>))"

definition applyConf :: "(payload \<Rightarrow> ConfChange) \<Rightarrow> payload \<Rightarrow> RaftNode \<Rightarrow> bool \<times> RaftNode" where
  "applyConf unmarshal d rc =
     (let cc = unmarshal d; rc = call (ApplyConfChange cc) rc in
      case ccType cc of
        ConfChangeAddNode \<Rightarrow> (True,
          if length (ccContext cc) > 0 then call (AddPeer (ccNodeID cc) (ccContext cc)) rc else rc)
      | ConfChangeRemoveNode \<Rightarrow>
          if ccNodeID cc = rnId rc then (False, rc)
          else (True, call (RemovePeer (ccNodeID cc)) rc))"

text \<open>One iteration of \<open>publishEntries\<close>, and the loop: the flag is its result.\<close>

definition publishEntry :: "(payload \<Rightarrow> ConfChange) \<Rightarrow> Entry \<Rightarrow> nat option \<times> RaftNode \<Rightarrow> bool \<times> nat option \<times> RaftNode" where
  "publishEntry unmarshal ent = (\<lambda>(b, rc).
     case (case eType ent of
         EntryNormal \<Rightarrow> if emptyPayload (eData ent) then (True, b, rc) else send (Some (eData ent)) (b, rc)
       | EntryConfChange \<Rightarrow> (case applyConf unmarshal (eData ent) rc of (ok, rc) \<Rightarrow> (ok, b, rc))) of
       (ok, b, rc) \<Rightarrow>
         if \<not> ok then (False, b, rc)
         else let rc = rc\<lparr>appliedIndex := eIndex ent\<rparr> in
           if eIndex ent = rnLastIndex rc then send None (b, rc) else (True, b, rc))"

fun publishEntries :: "(payload \<Rightarrow> ConfChange) \<Rightarrow> Entry list \<Rightarrow> nat option \<times> RaftNode \<Rightarrow> bool \<times> nat option \<times> RaftNode" where
  "publishEntries unmarshal [] st = (True, st)"
| "publishEntries unmarshal (ent # ents) st = (case publishEntry unmarshal ent st of
     (ok, st) \<Rightarrow> if ok then publishEntries unmarshal ents st else (False, st))"

section \<open>Start\<close>

text \<open>For the hard state and the entries found in the write-ahead log.\<close>

definition replayWAL :: "string \<Rightarrow> Entry list \<Rightarrow> RaftNode \<Rightarrow> RaftNode" where
  "replayWAL st ents rc =
     (let rc = call (StorageAppend ents) rc;
          rc = (if length ents > 0 then rc\<lparr>rnLastIndex := eIndex (ents ! (length ents - 1))\<rparr>
                else rc\<lparr>commitC := commitC rc @ [None]\<rparr>) in
      call (StorageSetHardState st) rc)"

definition newRaftNode :: "64 word \<Rightarrow> string list \<Rightarrow> bool \<Rightarrow> RaftNode" where
  "newRaftNode i peers join = \<lparr>rnId = i, rnPeers = peers, rnJoin = join, rnLastIndex = 0, confState = [], snapshotIndex = 0,
     appliedIndex = 0, snapCount = 10000, commitC = [], errorC = [], closed = False, nodeOps = []\<rparr>"

text \<open>
  \<open>mkdirOk\<close>: the snapshot directory exists or can be made; \<open>oldwal\<close>: there is a write-ahead
  log; \<open>readAll\<close>: what opening and reading it gives.
\<close>

definition startRaft :: "bool \<Rightarrow> bool \<Rightarrow> (string \<times> Entry list) option \<Rightarrow> RaftNode \<Rightarrow> etcdfail + RaftNode" where
  "startRaft mkdirOk oldwal readAll rc =
     (if \<not> mkdirOk then Inl FatalMkdir
      else case readAll of None \<Rightarrow> Inl FatalWAL
      | Some (st, ents) \<Rightarrow>
        let rc = replayWAL st ents rc;
            rpeers = map Suc [0..<length (rnPeers rc)];
            rc = call (if oldwal then RestartNode else StartNode (if rnJoin rc then [] else rpeers)) rc;
            rc = call TransportStart rc in
        Inr (fold (\<lambda>i. if word_of_nat (i + 1) \<noteq> rnId rc then call (AddPeer (word_of_nat (i + 1)) (rnPeers rc ! i)) else id)
          [0..<length (rnPeers rc)] rc))"

definition stopHTTP :: "RaftNode \<Rightarrow> RaftNode" where
  "stopHTTP rc = call TransportStop rc"

definition stopNode :: "RaftNode \<Rightarrow> RaftNode" where
  "stopNode rc = call NodeStop ((stopHTTP rc)\<lparr>closed := True\<rparr>)"

definition writeError :: "string \<Rightarrow> RaftNode \<Rightarrow> RaftNode" where
  "writeError err rc = (let rc = stopHTTP rc in call NodeStop (rc\<lparr>errorC := errorC rc @ [err], closed := True\<rparr>))"

section \<open>Snapshots\<close>

text \<open>The flag is false when one of the calls fails.\<close>

definition saveSnap :: "SnapEnv \<Rightarrow> 64 word \<Rightarrow> RaftNode \<Rightarrow> bool \<times> RaftNode" where
  "saveSnap env idx rc =
     (let rc = call (SnapSave idx) rc in
      if \<not> okSnapSave env then (False, rc)
      else let rc = call (WalSaveSnapshot idx) rc in
        if \<not> okWalSaveSnapshot env then (False, rc)
        else (okReleaseLock env, call (WalReleaseLockTo idx) rc))"

text \<open>An empty snapshot is one with index 0.\<close>

definition publishSnapshot :: "Snapshot \<Rightarrow> RaftNode \<Rightarrow> etcdfail + RaftNode" where
  "publishSnapshot snap rc =
     (if snIndex snap = 0 then Inr rc
      else if snIndex snap \<le> appliedIndex rc then Inl FatalSnapshotIndex
      else Inr (rc\<lparr>commitC := commitC rc @ [None], confState := snConf snap, snapshotIndex := snIndex snap,
        appliedIndex := snIndex snap\<rparr>))"

definition snapshotCatchUpEntriesN :: "64 word" where
  "snapshotCatchUpEntriesN = 10000"

definition maybeTriggerSnapshot :: "SnapEnv \<Rightarrow> RaftNode \<Rightarrow> etcdfail + RaftNode" where
  "maybeTriggerSnapshot env rc =
     (if appliedIndex rc - snapshotIndex rc \<le> snapCount rc then Inr rc
      else case gotSnapshot env of None \<Rightarrow> Inl PanicGetSnapshot
      | Some data \<Rightarrow>
        let rc = call (StorageCreateSnapshot (appliedIndex rc) (confState rc) data) rc in
        if \<not> okCreate env then Inl PanicCreateSnapshot
        else case saveSnap env (appliedIndex rc) rc of (saved, rc) \<Rightarrow>
          if \<not> saved then Inl PanicSaveSnap
          else let compactIndex = (if appliedIndex rc > snapshotCatchUpEntriesN
                 then appliedIndex rc - snapshotCatchUpEntriesN else 1);
               rc = call (StorageCompact compactIndex) rc in
            if \<not> okCompact env then Inl PanicCompact else Inr (rc\<lparr>snapshotIndex := appliedIndex rc\<rparr>))"

section \<open>The event loop\<close>

record Ready =
  rdHardState :: string
  rdEntries :: "Entry list"
  rdSnapshot :: Snapshot
  rdMessages :: "string list"
  rdCommittedEntries :: "Entry list"

text \<open>What the loop takes from the storage's snapshot before it starts.\<close>

definition serveChannels_init :: "Snapshot \<Rightarrow> RaftNode \<Rightarrow> RaftNode" where
  "serveChannels_init snap rc = rc\<lparr>confState := snConf snap, snapshotIndex := snIndex snap, appliedIndex := snIndex snap\<rparr>"

text \<open>The handling of one \<open>Ready\<close>; the flag is false when the node stops.\<close>

definition handleReady :: "SnapEnv \<Rightarrow> (payload \<Rightarrow> ConfChange) \<Rightarrow> Ready \<Rightarrow> nat option \<times> RaftNode \<Rightarrow>
    etcdfail + bool \<times> nat option \<times> RaftNode" where
  "handleReady env unmarshal rd = (\<lambda>(b, rc).
     let rc = call (WalSave (rdHardState rd) (rdEntries rd)) rc in
     case (if snIndex (rdSnapshot rd) \<noteq> 0
           then publishSnapshot (rdSnapshot rd)
             (call (StorageApplySnapshot (rdSnapshot rd)) (snd (saveSnap env (snIndex (rdSnapshot rd)) rc)))
           else Inr rc) of Inl e \<Rightarrow> Inl e
     | Inr rc \<Rightarrow>
       let rc = call (TransportSend (rdMessages rd)) (call (StorageAppend (rdEntries rd)) rc) in
       (case entriesToApply (rdCommittedEntries rd) rc of Inl e \<Rightarrow> Inl e
        | Inr ents \<Rightarrow> (case publishEntries unmarshal ents (b, rc) of (ok, b, rc) \<Rightarrow>
            if \<not> ok then Inr (False, b, stopNode rc)
            else case maybeTriggerSnapshot env rc of Inl e \<Rightarrow> Inl e
              | Inr rc \<Rightarrow> Inr (True, b, call NodeAdvance rc))))"

datatype loopEvent = Ticker | ReadyC Ready | TransportError string | StopC

definition serveChannels_turn :: "SnapEnv \<Rightarrow> (payload \<Rightarrow> ConfChange) \<Rightarrow> loopEvent \<Rightarrow> nat option \<times> RaftNode \<Rightarrow>
    etcdfail + bool \<times> nat option \<times> RaftNode" where
  "serveChannels_turn env unmarshal ev = (\<lambda>(b, rc). case ev of
     Ticker \<Rightarrow> Inr (True, b, call NodeTick rc)
   | ReadyC rd \<Rightarrow> handleReady env unmarshal rd (b, rc)
   | TransportError err \<Rightarrow> Inr (False, b, writeError err rc)
   | StopC \<Rightarrow> Inr (False, b, stopNode rc))"

text \<open>The loop on a sequence of events, each with the results of the calls that can fail.\<close>

fun etcd_serveChannels :: "(payload \<Rightarrow> ConfChange) \<Rightarrow> (SnapEnv \<times> loopEvent) list \<Rightarrow> nat option \<times> RaftNode \<Rightarrow>
    etcdfail + bool \<times> nat option \<times> RaftNode" where
  "etcd_serveChannels unmarshal [] st = Inr (True, st)"
| "etcd_serveChannels unmarshal ((env, ev) # evs) st = (case serveChannels_turn env unmarshal ev st of
     Inl e \<Rightarrow> Inl e
   | Inr (ok, st) \<Rightarrow> if ok then etcd_serveChannels unmarshal evs st else Inr (False, st))"

text \<open>
  The goroutine that hands proposals to the library: None is a closed channel. It ends, and closes
  the stop channel, as soon as one of its two channels is closed.
\<close>

datatype proposal = Prop "payload option" | ConfProp "ConfChange option"

fun proposals :: "proposal list \<Rightarrow> 64 word \<Rightarrow> RaftNode \<Rightarrow> bool \<times> RaftNode" where
  "proposals [] confChangeCount rc = (False, rc)"
| "proposals (Prop None # ps) confChangeCount rc = (True, rc)"
| "proposals (Prop (Some d) # ps) confChangeCount rc = proposals ps confChangeCount (call (NodePropose d) rc)"
| "proposals (ConfProp None # ps) confChangeCount rc = (True, rc)"
| "proposals (ConfProp (Some cc) # ps) confChangeCount rc =
     (let confChangeCount = confChangeCount + 1 in
      proposals ps confChangeCount (call (NodeProposeConfChange confChangeCount cc) rc))"

section \<open>The store\<close>

record kvstore =
  proposeC :: "payload list"
  kvStore :: "string \<rightharpoonup> string"

datatype storeEnd = Blocked | Returned | FatalDecode | PanicSnapshot | PanicNilDereference

text \<open>What loading a snapshot gives: none exists, an error, or the stored map.\<close>

datatype snapLoad = ErrNoSnapshot | SnapError | SnapStore "string \<rightharpoonup> string"

definition Lookup :: "string \<Rightarrow> kvstore \<Rightarrow> string option" where
  "Lookup key s = kvStore s key"

definition Propose :: "string \<Rightarrow> string \<Rightarrow> kvstore \<Rightarrow> kvstore" where
  "Propose k v s = s\<lparr>proposeC := proposeC s @ [GobKV k v]\<rparr>"

definition recoverFromSnapshot :: "(string \<rightharpoonup> string) \<Rightarrow> kvstore \<Rightarrow> kvstore" where
  "recoverFromSnapshot store s = s\<lparr>kvStore := store\<rparr>"

definition decodeKV :: "(string \<Rightarrow> (string \<times> string) option) \<Rightarrow> payload \<Rightarrow> (string \<times> string) option" where
  "decodeKV gobParse d = (case d of GobKV k v \<Rightarrow> Some (k, v) | OtherBytes s \<Rightarrow> gobParse s)"

definition storePut :: "string \<Rightarrow> string \<Rightarrow> kvstore \<Rightarrow> kvstore" where
  "storePut k v s = s\<lparr>kvStore := (kvStore s)(k \<mapsto> v)\<rparr>"

text \<open>
  \<open>readCommits\<close> on what has been sent, each message with what loading a snapshot gives at the
  moment after it is received; it gives back what it has not read. After a nil message with a
  snapshot the code goes on to dereference the nil pointer.
\<close>

fun readCommits :: "(string \<Rightarrow> (string \<times> string) option) \<Rightarrow> (snapLoad \<times> payload option) list \<Rightarrow> kvstore \<Rightarrow>
    storeEnd \<times> kvstore \<times> (snapLoad \<times> payload option) list" where
  "readCommits gobParse [] s = (Blocked, s, [])"
| "readCommits gobParse ((load, None) # cs) s = (case load of
     ErrNoSnapshot \<Rightarrow> (Returned, s, cs)
   | SnapError \<Rightarrow> (PanicSnapshot, s, cs)
   | SnapStore store \<Rightarrow> (PanicNilDereference, recoverFromSnapshot store s, cs))"
| "readCommits gobParse ((load, Some d) # cs) s = (case decodeKV gobParse d of
     None \<Rightarrow> (FatalDecode, s, cs)
   | Some (k, v) \<Rightarrow> readCommits gobParse cs (storePut k v s))"

text \<open>\<open>newKVStore\<close> replays up to the first nil and then reads in a goroutine.\<close>

definition newKVStore :: "(string \<Rightarrow> (string \<times> string) option) \<Rightarrow> (snapLoad \<times> payload option) list \<Rightarrow>
    storeEnd \<times> kvstore \<times> (snapLoad \<times> payload option) list" where
  "newKVStore gobParse cs =
     (case readCommits gobParse cs \<lparr>proposeC = [], kvStore = Map.empty\<rparr> of
        (Returned, s, rest) \<Rightarrow> readCommits gobParse rest s
      | r \<Rightarrow> r)"

text \<open>
  The store and the node share a snapshotter: what loading gives depends on the snapshots that the
  node has saved by then. \<open>load\<close> tells what it gives after the given calls, and \<open>ts\<close> how
  many of the node's calls have been made when each message has been received.
\<close>

definition received :: "(nodeop list \<Rightarrow> snapLoad) \<Rightarrow> nat list \<Rightarrow> RaftNode \<Rightarrow> (snapLoad \<times> payload option) list" where
  "received load ts rc = zip (map (\<lambda>t. load (take t (nodeOps rc))) ts) (commitC rc)"

section \<open>The HTTP interface\<close>

record Request =
  rqMethod :: string
  rqURI :: string
  rqBody :: "string option"

text \<open>
  The reply: a status and the body, if any. The URI of a request is not empty; parsing a node's
  number is the parameter \<open>parseUint\<close>.
\<close>

definition ServeHTTP :: "(string \<Rightarrow> 64 word option) \<Rightarrow> Request \<Rightarrow> kvstore \<times> ConfChange list \<Rightarrow>
    (nat \<times> string) \<times> (kvstore \<times> ConfChange list)" where
  "ServeHTTP parseUint r = (\<lambda>(s, confChangeC).
     let key = rqURI r in
     if rqMethod r = ''PUT'' then (case rqBody r of
         None \<Rightarrow> ((400, ''Failed on PUT''), (s, confChangeC))
       | Some v \<Rightarrow> ((204, []), (Propose key v s, confChangeC)))
     else if rqMethod r = ''GET'' then (case Lookup key s of
         Some v \<Rightarrow> ((200, v), (s, confChangeC))
       | None \<Rightarrow> ((404, ''Failed to GET''), (s, confChangeC)))
     else if rqMethod r = ''POST'' then (case rqBody r of
         None \<Rightarrow> ((400, ''Failed on POST''), (s, confChangeC))
       | Some url \<Rightarrow> (case parseUint (drop 1 key) of
           None \<Rightarrow> ((400, ''Failed on POST''), (s, confChangeC))
         | Some nodeId \<Rightarrow> ((204, []),
             (s, confChangeC @ [\<lparr>ccType = ConfChangeAddNode, ccNodeID = nodeId, ccContext = url\<rparr>]))))
     else if rqMethod r = ''DELETE'' then (case parseUint (drop 1 key) of
         None \<Rightarrow> ((400, ''Failed on DELETE''), (s, confChangeC))
       | Some nodeId \<Rightarrow> ((204, []),
           (s, confChangeC @ [\<lparr>ccType = ConfChangeRemoveNode, ccNodeID = nodeId, ccContext = []\<rparr>])))
     else ((405, ''Method not allowed''), (s, confChangeC)))"

section \<open>Lemmas\<close>

text \<open>What publishing an entry sends.\<close>

definition published :: "64 word \<Rightarrow> Entry \<Rightarrow> payload option list" where
  "published lastIdx e = (if eType e = EntryNormal \<and> \<not> emptyPayload (eData e) then [Some (eData e)] else []) @
     (if eIndex e = lastIdx then [None] else [])"

text \<open>The entry does not remove the node itself from the cluster.\<close>

definition stays :: "(payload \<Rightarrow> ConfChange) \<Rightarrow> 64 word \<Rightarrow> Entry \<Rightarrow> bool" where
  "stays unmarshal i e \<longleftrightarrow> (eType e = EntryConfChange \<longrightarrow>
     \<not> (ccType (unmarshal (eData e)) = ConfChangeRemoveNode \<and> ccNodeID (unmarshal (eData e)) = i))"

lemma applyConf_ok:
  assumes "applyConf unmarshal d rc = (ok, rc')"
  shows "commitC rc' = commitC rc \<and> rnLastIndex rc' = rnLastIndex rc \<and> rnId rc' = rnId rc \<and>
    (ok \<longleftrightarrow> \<not> (ccType (unmarshal d) = ConfChangeRemoveNode \<and> ccNodeID (unmarshal d) = rnId rc))"
  using assms by (auto simp: applyConf_def call_def Let_def split: confType.splits if_splits)

lemma publishEntry_ok:
  assumes "stays unmarshal (rnId rc) e"
  shows "\<exists>rc'. publishEntry unmarshal e (None, rc) = (True, None, rc') \<and> commitC rc' = commitC rc @ published (rnLastIndex rc) e \<and>
    appliedIndex rc' = eIndex e \<and> rnLastIndex rc' = rnLastIndex rc \<and> rnId rc' = rnId rc"
proof (cases "eType e")
  case EntryNormal
  then show ?thesis by (simp add: publishEntry_def published_def send_def Let_def)
next
  case EntryConfChange
  obtain ok rc1 where a: "applyConf unmarshal (eData e) rc = (ok, rc1)" by force
  from applyConf_ok [OF a] assms EntryConfChange have "ok" "commitC rc1 = commitC rc" "rnLastIndex rc1 = rnLastIndex rc" "rnId rc1 = rnId rc"
    by (auto simp: stays_def)
  with a EntryConfChange show ?thesis by (simp add: publishEntry_def published_def send_def Let_def)
qed

lemma publishEntries_ok:
  assumes "\<And>e. e \<in> set ents \<Longrightarrow> stays unmarshal (rnId rc) e"
  shows "\<exists>rc'. publishEntries unmarshal ents (None, rc) = (True, None, rc') \<and>
    commitC rc' = commitC rc @ concat (map (published (rnLastIndex rc)) ents) \<and>
    appliedIndex rc' = (if ents = [] then appliedIndex rc else eIndex (last ents)) \<and>
    rnLastIndex rc' = rnLastIndex rc \<and> rnId rc' = rnId rc"
  using assms
proof (induction ents arbitrary: rc)
  case (Cons e ents)
  obtain rc1 where rc1: "publishEntry unmarshal e (None, rc) = (True, None, rc1)" "commitC rc1 = commitC rc @ published (rnLastIndex rc) e"
    "appliedIndex rc1 = eIndex e" "rnLastIndex rc1 = rnLastIndex rc" "rnId rc1 = rnId rc"
    using publishEntry_ok [of unmarshal rc e] Cons.prems by auto
  from Cons.IH [of rc1] Cons.prems rc1(5) obtain rc2 where
    "publishEntries unmarshal ents (None, rc1) = (True, None, rc2)"
    "commitC rc2 = commitC rc1 @ concat (map (published (rnLastIndex rc1)) ents)"
    "appliedIndex rc2 = (if ents = [] then appliedIndex rc1 else eIndex (last ents))"
    "rnLastIndex rc2 = rnLastIndex rc1" "rnId rc2 = rnId rc1" by auto
  then show ?case using rc1 by simp
qed simp

lemma call_fields [simp]:
  "commitC (call op rc) = commitC rc" "appliedIndex (call op rc) = appliedIndex rc" "snapshotIndex (call op rc) = snapshotIndex rc"
  "rnLastIndex (call op rc) = rnLastIndex rc" "rnId (call op rc) = rnId rc"
  by (simp_all add: call_def)

text \<open>All calls for a snapshot succeed.\<close>

definition snapsWork :: "SnapEnv \<Rightarrow> bool" where
  "snapsWork env \<longleftrightarrow> okSnapSave env \<and> okWalSaveSnapshot env \<and> okReleaseLock env \<and> gotSnapshot env \<noteq> None \<and> okCreate env \<and> okCompact env"

lemma maybeTriggerSnapshot_ok:
  assumes "snapsWork env"
  shows "\<exists>rc'. maybeTriggerSnapshot env rc = Inr rc' \<and> commitC rc' = commitC rc \<and> appliedIndex rc' = appliedIndex rc \<and>
    rnLastIndex rc' = rnLastIndex rc \<and> rnId rc' = rnId rc"
  using assms by (auto simp: maybeTriggerSnapshot_def snapsWork_def saveSnap_def Let_def)

text \<open>
  A log whose entry at position \<open>i\<close> has index \<open>i\<close>, and a part of it.
\<close>

definition indexed :: "(nat \<Rightarrow> Entry) \<Rightarrow> bool" where
  "indexed clog \<longleftrightarrow> (\<forall>i. eIndex (clog i) = word_of_nat i)"

definition segment :: "(nat \<Rightarrow> Entry) \<Rightarrow> nat \<Rightarrow> nat \<Rightarrow> Entry list" where
  "segment clog a b = map clog [a..<Suc b]"

lemma entriesToApply_segment:
  assumes "indexed clog" "appliedIndex rc = word_of_nat p" "0 < a" "a \<le> Suc p" "Suc p < 2 ^ 64" "Suc b < 2 ^ 64"
  shows "entriesToApply (segment clog a b) rc = Inr (segment clog (Suc p) b)"
proof (cases "a \<le> b")
  case False
  then show ?thesis using assms(4) by (simp add: entriesToApply_def segment_def)
next
  case True
  have hd: "eIndex (hd (segment clog a b)) = word_of_nat a" "segment clog a b \<noteq> []"
    using assms(1) True by (simp_all add: segment_def indexed_def hd_map del: upt_Suc)
  have len: "length (segment clog a b) = Suc b - a" by (simp add: segment_def del: upt_Suc)
  have a: "a < 2 ^ 64" using assms(4,5) by simp
  have first: "\<not> (word_of_nat a :: 64 word) > word_of_nat p + 1"
  proof -
    have "(word_of_nat p :: 64 word) + 1 = word_of_nat (Suc p)" by simp
    moreover have "unat (word_of_nat (Suc p) :: 64 word) = Suc p" "unat (word_of_nat a :: 64 word) = a"
      using assms(5) a by (simp_all only: unat_of_nat) (simp_all add: take_bit_nat_eq_self)
    ultimately show ?thesis using assms(4) by (simp add: word_less_nat_alt del: of_nat_Suc)
  qed
  have diff: "(word_of_nat p :: 64 word) - word_of_nat a + 1 = word_of_nat (Suc p - a)"
    using assms(4) by (simp add: of_nat_diff)
  have d: "unat (word_of_nat (Suc p - a) :: 64 word) = Suc p - a" "unat (word_of_nat (Suc b - a) :: 64 word) = Suc b - a"
    using assms(5,6) by (simp_all add: unat_of_nat take_bit_nat_eq_self)
  have less: "((word_of_nat (Suc p - a) :: 64 word) < word_of_nat (Suc b - a)) = (Suc p - a < Suc b - a)"
    by (simp only: word_less_nat_alt d)
  have e: "entriesToApply (segment clog a b) rc =
      (if Suc p - a < Suc b - a then Inr (drop (Suc p - a) (segment clog a b)) else Inr [])"
    by (simp only: entriesToApply_def Let_def hd assms(2) diff len first less d if_False)
  have "drop (Suc p - a) (segment clog a b) = segment clog (Suc p) b"
    using assms(4) by (simp add: segment_def drop_map del: upt_Suc)
  moreover have "segment clog (Suc p) b = []" if "\<not> Suc p - a < Suc b - a"
    using that assms(4) by (simp add: segment_def del: upt_Suc)
  ultimately show ?thesis by (simp add: e)
qed

section \<open>Runs of the node\<close>

text \<open>
  The library hands over batches of the log's entries, each starting at the latest right after the
  last entry handed over so far, and no snapshot of another node; ticks, errors of the transport
  and the stop may come at any time.
\<close>

definition firstOf :: "Entry list \<Rightarrow> nat" where
  "firstOf ents = unat (eIndex (hd ents))"

definition lastOf :: "Entry list \<Rightarrow> nat" where
  "lastOf ents = unat (eIndex (last ents))"

fun contiguous :: "(nat \<Rightarrow> Entry) \<Rightarrow> nat \<Rightarrow> loopEvent list \<Rightarrow> bool" where
  "contiguous clog p [] \<longleftrightarrow> True"
| "contiguous clog p (Ticker # evs) \<longleftrightarrow> contiguous clog p evs"
| "contiguous clog p (ReadyC rd # evs) \<longleftrightarrow> snIndex (rdSnapshot rd) = 0 \<and>
     (let ents = rdCommittedEntries rd in
      if ents = [] then contiguous clog p evs
      else ents = segment clog (firstOf ents) (lastOf ents) \<and> 0 < firstOf ents \<and> firstOf ents \<le> Suc p \<and>
        Suc (lastOf ents) < 2 ^ 64 \<and> contiguous clog (max p (lastOf ents)) evs)"
| "contiguous clog p (ev # evs) \<longleftrightarrow> contiguous clog p evs"

text \<open>Neither an error of the transport nor the stop.\<close>

definition calm :: "loopEvent \<Rightarrow> bool" where
  "calm ev \<longleftrightarrow> (case ev of TransportError _ \<Rightarrow> False | StopC \<Rightarrow> False | _ \<Rightarrow> True)"

fun lastHanded :: "nat \<Rightarrow> loopEvent list \<Rightarrow> nat" where
  "lastHanded p [] = p"
| "lastHanded p (ReadyC rd # evs) =
     lastHanded (if rdCommittedEntries rd = [] then p else max p (lastOf (rdCommittedEntries rd))) evs"
| "lastHanded p (ev # evs) = lastHanded p evs"

lemma lastHanded_ge: "p \<le> lastHanded p evs"
proof (induction p evs rule: lastHanded.induct)
  case (2 p rd evs)
  then show ?case by (auto split: if_splits)
qed simp_all

lemma lastHanded_bound: "contiguous clog p evs \<Longrightarrow> Suc p < 2 ^ 64 \<Longrightarrow> Suc (lastHanded p evs) < 2 ^ 64"
proof (induction clog p evs rule: contiguous.induct)
  case (3 clog p rd evs)
  then show ?case by (simp add: Let_def max_def split: if_splits)
qed simp_all

lemma segment_append: "a \<le> Suc b \<Longrightarrow> b \<le> c \<Longrightarrow> segment clog a b @ segment clog (Suc b) c = segment clog a c"
  using upt_add_eq_append [of a "Suc b" "c - b"] by (simp add: segment_def flip: map_append del: upt_Suc)

text \<open>A step that publishes the entries up to \<open>q\<close> when those up to \<open>p\<close> were published before.\<close>

definition advances :: "(nat \<Rightarrow> Entry) \<Rightarrow> nat \<Rightarrow> nat \<Rightarrow> RaftNode \<Rightarrow> RaftNode \<Rightarrow> bool" where
  "advances clog p q rc rc' \<longleftrightarrow>
     commitC rc' = commitC rc @ concat (map (published (rnLastIndex rc)) (segment clog (Suc p) q)) \<and>
     appliedIndex rc' = word_of_nat q \<and> rnLastIndex rc' = rnLastIndex rc \<and> rnId rc' = rnId rc"

lemma advances_trans:
  "advances clog p q rc rc1 \<Longrightarrow> advances clog q r rc1 rc2 \<Longrightarrow> p \<le> q \<Longrightarrow> q \<le> r \<Longrightarrow> advances clog p r rc rc2"
  using segment_append [of "Suc p" q r clog] by (auto simp: advances_def simp flip: map_append concat_append)

lemma handleReady_ok:
  assumes "snapsWork env" "indexed clog" "\<And>i. stays unmarshal (rnId rc) (clog i)" "appliedIndex rc = word_of_nat p"
    "Suc p < 2 ^ 64" "snIndex (rdSnapshot rd) = 0"
    "rdCommittedEntries rd = segment clog a b" "0 < a" "a \<le> Suc p" "Suc b < 2 ^ 64"
  shows "\<exists>rc'. handleReady env unmarshal rd (None, rc) = Inr (True, None, rc') \<and> advances clog p (max p b) rc rc'"
proof -
  define rc0 where "rc0 = call (TransportSend (rdMessages rd)) (call (StorageAppend (rdEntries rd)) (call (WalSave (rdHardState rd) (rdEntries rd)) rc))"
  have f: "appliedIndex rc0 = word_of_nat p" "commitC rc0 = commitC rc" "rnLastIndex rc0 = rnLastIndex rc" "rnId rc0 = rnId rc"
    using assms(4) by (simp_all add: rc0_def)
  have seg: "segment clog (Suc p) b = segment clog (Suc p) (max p b)"
    by (cases "p \<le> b") (simp_all add: segment_def max_def)
  obtain rc1 where rc1: "publishEntries unmarshal (segment clog (Suc p) b) (None, rc0) = (True, None, rc1)"
    "commitC rc1 = commitC rc @ concat (map (published (rnLastIndex rc)) (segment clog (Suc p) b))"
    "appliedIndex rc1 = (if segment clog (Suc p) b = [] then appliedIndex rc0 else eIndex (last (segment clog (Suc p) b)))"
    "rnLastIndex rc1 = rnLastIndex rc" "rnId rc1 = rnId rc"
    using publishEntries_ok [of "segment clog (Suc p) b" unmarshal rc0] assms(3) f by (auto simp: segment_def)
  have m: "max p b = (if Suc p \<le> b then b else p)" by auto
  have ap: "appliedIndex rc1 = word_of_nat (max p b)"
    unfolding m using rc1(3) assms(2) f(1) by (cases "Suc p \<le> b") (auto simp: segment_def indexed_def last_map)
  obtain rc2 where rc2: "maybeTriggerSnapshot env rc1 = Inr rc2" "commitC rc2 = commitC rc1" "appliedIndex rc2 = appliedIndex rc1"
    "rnLastIndex rc2 = rnLastIndex rc1" "rnId rc2 = rnId rc1" using maybeTriggerSnapshot_ok [OF assms(1)] by blast
  have "handleReady env unmarshal rd (None, rc) = Inr (True, None, call NodeAdvance rc2)"
    using rc1(1) rc2(1) entriesToApply_segment [OF assms(2) f(1) assms(8,9,5,10)]
    by (simp add: handleReady_def assms(6,7) Let_def flip: rc0_def)
  moreover have "advances clog p (max p b) rc (call NodeAdvance rc2)"
    using rc1 rc2 ap seg by (simp add: advances_def)
  ultimately show ?thesis by blast
qed

lemma serveChannels_turn_ok:
  assumes "snapsWork env" "indexed clog" "\<And>i. stays unmarshal (rnId rc) (clog i)" "appliedIndex rc = word_of_nat p"
    "Suc p < 2 ^ 64" "contiguous clog p (ev # evs)" "calm ev"
  shows "\<exists>rc'. serveChannels_turn env unmarshal ev (None, rc) = Inr (True, None, rc') \<and>
    advances clog p (lastHanded p [ev]) rc rc' \<and> contiguous clog (lastHanded p [ev]) evs \<and>
    lastHanded p (ev # evs) = lastHanded (lastHanded p [ev]) evs"
proof (cases ev)
  case Ticker
  then show ?thesis using assms(4,6) by (simp add: serveChannels_turn_def advances_def segment_def)
next
  case (ReadyC rd)
  let ?e = "rdCommittedEntries rd"
  define a b where "a = (if ?e = [] then 1 else firstOf ?e)" and "b = (if ?e = [] then 0 else lastOf ?e)"
  have e: "?e = segment clog a b" "0 < a" "a \<le> Suc p" "Suc b < 2 ^ 64" "snIndex (rdSnapshot rd) = 0" "lastHanded p [ev] = max p b"
    "contiguous clog (max p b) evs"
    using assms(6) ReadyC by (auto simp: a_def b_def segment_def Let_def split: if_splits)
  show ?thesis using handleReady_ok [OF assms(1-5) e(5,1-4)] ReadyC e(6,7) by (simp add: serveChannels_turn_def)
qed (use assms(7) in \<open>simp_all add: calm_def\<close>)

lemma etcd_serveChannels_ok:
  assumes "indexed clog" "\<And>i. stays unmarshal (rnId rc) (clog i)" "appliedIndex rc = word_of_nat p" "Suc p < 2 ^ 64"
    "contiguous clog p (map snd evs)" "list_all (\<lambda>(env, ev). snapsWork env \<and> calm ev) evs"
  shows "\<exists>rc'. etcd_serveChannels unmarshal evs (None, rc) = Inr (True, None, rc') \<and> advances clog p (lastHanded p (map snd evs)) rc rc'"
  using assms(2-)
proof (induction evs arbitrary: p rc)
  case Nil
  then show ?case by (simp add: segment_def advances_def)
next
  case (Cons x evs)
  obtain env ev where x: "x = (env, ev)" by force
  let ?q = "lastHanded p [ev]"
  obtain rc1 where rc1: "serveChannels_turn env unmarshal ev (None, rc) = Inr (True, None, rc1)" "advances clog p ?q rc rc1"
    "contiguous clog ?q (map snd evs)" "lastHanded p (ev # map snd evs) = lastHanded ?q (map snd evs)"
    using serveChannels_turn_ok [of env clog unmarshal rc p ev "map snd evs"] Cons.prems assms(1) x by auto
  have "Suc ?q < 2 ^ 64" using lastHanded_bound [of clog p "[ev]"] Cons.prems(3,4) x by (cases ev) (auto simp: Let_def split: if_splits)
  with Cons.IH [of rc1 ?q] Cons.prems(1,5) rc1(2,3) x obtain rc2 where
    rc2: "etcd_serveChannels unmarshal evs (None, rc1) = Inr (True, None, rc2)" "advances clog ?q (lastHanded ?q (map snd evs)) rc1 rc2"
    by (auto simp: advances_def)
  show ?case using advances_trans [OF rc1(2) rc2(2)] lastHanded_ge rc1(1,4) rc2(1) x by simp
qed

section \<open>Runs that may stop\<close>

text \<open>The snapshots a node has saved, and a node that has saved none since its start.\<close>

definition snapSaves :: "nodeop list \<Rightarrow> nodeop list" where
  "snapSaves ops = filter (\<lambda>op. case op of SnapSave _ \<Rightarrow> True | _ \<Rightarrow> False) ops"

definition unsaved :: "RaftNode \<Rightarrow> bool" where
  "unsaved rc \<longleftrightarrow> snapshotIndex rc = 0 \<and> snapCount rc = 10000 \<and> snapSaves (nodeOps rc) = []"

lemma unsaved_call [simp]: "unsaved (call op rc) \<longleftrightarrow> unsaved rc \<and> (case op of SnapSave _ \<Rightarrow> False | _ \<Rightarrow> True)"
  by (auto simp: unsaved_def call_def snapSaves_def split: nodeop.splits)

lemma unsaved_update [simp]:
  "unsaved (rc\<lparr>commitC := c\<rparr>) = unsaved rc" "unsaved (rc\<lparr>appliedIndex := a\<rparr>) = unsaved rc"
  "unsaved (rc\<lparr>errorC := e\<rparr>) = unsaved rc" "unsaved (rc\<lparr>closed := x\<rparr>) = unsaved rc"
  by (simp_all add: unsaved_def)

text \<open>
  What a step has sent is a prefix \<open>cs\<close> of what it should send, in full when the node goes on.
\<close>

definition sends :: "payload option list \<Rightarrow> bool \<Rightarrow> RaftNode \<Rightarrow> RaftNode \<Rightarrow> bool" where
  "sends full ok rc rc' \<longleftrightarrow> (\<exists>cs. commitC rc' = commitC rc @ cs \<and> prefix cs full \<and> (ok \<longrightarrow> cs = full)) \<and>
     rnLastIndex rc' = rnLastIndex rc"

lemma sends_trans: "sends xs True rc rc1 \<Longrightarrow> sends ys ok rc1 rc2 \<Longrightarrow> sends (xs @ ys) ok rc rc2"
  by (auto simp: sends_def)

lemma sends_more: "sends xs False rc rc' \<Longrightarrow> sends (xs @ ys) False rc rc'"
  by (auto simp: sends_def)

lemma applyConf_sends:
  "applyConf unmarshal d rc = (ok, rc') \<Longrightarrow> sends [] ok rc rc' \<and> appliedIndex rc' = appliedIndex rc \<and> (unsaved rc \<longrightarrow> unsaved rc')"
  by (auto simp: applyConf_def sends_def Let_def split: confType.splits if_splits)

lemma send_sends:
  "send d (b, rc) = (ok, b', rc') \<Longrightarrow> sends [d] ok rc rc' \<and> appliedIndex rc' = appliedIndex rc \<and> (unsaved rc \<longrightarrow> unsaved rc')"
  by (auto simp: send_def sends_def split: option.splits nat.splits)

lemma publishEntry_sends:
  assumes "publishEntry unmarshal e (b, rc) = (ok, b', rc')"
  shows "sends (published (rnLastIndex rc) e) ok rc rc' \<and> (ok \<longrightarrow> appliedIndex rc' = eIndex e) \<and> (unsaved rc \<longrightarrow> unsaved rc')"
proof -
  let ?now = "case eType e of
         EntryNormal \<Rightarrow> if emptyPayload (eData e) then (True, b, rc) else send (Some (eData e)) (b, rc)
       | EntryConfChange \<Rightarrow> (case applyConf unmarshal (eData e) rc of (ok, rc) \<Rightarrow> (ok, b, rc))"
  let ?data = "if eType e = EntryNormal \<and> \<not> emptyPayload (eData e) then [Some (eData e)] else []"
  obtain ok1 b1 rc1 where 1: "?now = (ok1, b1, rc1)" by (cases ?now)
  have s1: "sends ?data ok1 rc rc1" "unsaved rc \<longrightarrow> unsaved rc1"
    using 1 applyConf_sends [of unmarshal "eData e" rc] send_sends [of "Some (eData e)" b rc]
    by (auto simp: sends_def split: entryType.splits if_splits prod.splits)
  let ?rc = "rc1\<lparr>appliedIndex := eIndex e\<rparr>"
  have p: "published (rnLastIndex rc) e = ?data @ (if eIndex e = rnLastIndex ?rc then [None] else [])"
    using s1(1) by (simp add: published_def sends_def)
  show ?thesis
  proof (cases ok1)
    case False
    then have "rc' = rc1" "\<not> ok" using assms 1 by (simp_all add: publishEntry_def)
    then show ?thesis using s1 False unfolding p by (simp add: sends_more)
  next
    case True
    have "(if eIndex e = rnLastIndex ?rc then send None (b1, ?rc) else (True, b1, ?rc)) = (ok, b', rc')"
      using assms 1 True by (simp add: publishEntry_def Let_def)
    then have "sends (if eIndex e = rnLastIndex ?rc then [None] else []) ok ?rc rc' \<and> appliedIndex rc' = eIndex e \<and> (unsaved rc1 \<longrightarrow> unsaved rc')"
      using send_sends [of None b1 ?rc] by (auto simp: sends_def split: if_splits)
    moreover have "sends ?data True rc ?rc" using s1(1) True by (simp add: sends_def)
    ultimately show ?thesis unfolding p using sends_trans s1(2) by blast
  qed
qed

lemma publishEntries_sends:
  assumes "publishEntries unmarshal ents (b, rc) = (ok, b', rc')"
  shows "sends (concat (map (published (rnLastIndex rc)) ents)) ok rc rc' \<and>
    (ok \<longrightarrow> appliedIndex rc' = (if ents = [] then appliedIndex rc else eIndex (last ents))) \<and> (unsaved rc \<longrightarrow> unsaved rc')"
  using assms
proof (induction ents arbitrary: b rc)
  case Nil
  then show ?case by (simp add: sends_def)
next
  case (Cons e ents)
  obtain ok1 b1 rc1 where 1: "publishEntry unmarshal e (b, rc) = (ok1, b1, rc1)" by (cases "publishEntry unmarshal e (b, rc)")
  note s1 = publishEntry_sends [OF 1]
  show ?case
  proof (cases ok1)
    case False
    then have "rc' = rc1" "\<not> ok" using Cons.prems 1 by simp_all
    then show ?thesis using s1 False by (simp add: sends_more)
  next
    case True
    then have "publishEntries unmarshal ents (b1, rc1) = (ok, b', rc')" using Cons.prems 1 by simp
    from Cons.IH [OF this] s1 True show ?thesis using sends_trans by (auto simp: sends_def)
  qed
qed

lemma maybeTriggerSnapshot_sends:
  assumes "maybeTriggerSnapshot env rc = Inr rc'"
  shows "commitC rc' = commitC rc \<and> appliedIndex rc' = appliedIndex rc \<and> rnLastIndex rc' = rnLastIndex rc \<and>
    (unsaved rc \<and> appliedIndex rc \<le> 10000 \<longrightarrow> unsaved rc')"
  using assms by (auto simp: maybeTriggerSnapshot_def saveSnap_def Let_def unsaved_def split: if_splits option.splits)

lemma stop_sends:
  "sends full False rc (stopNode rc) \<and> (unsaved rc \<longrightarrow> unsaved (stopNode rc))"
  "sends full False rc (writeError err rc) \<and> (unsaved rc \<longrightarrow> unsaved (writeError err rc))"
  by (simp_all add: stopNode_def writeError_def stopHTTP_def sends_def Let_def)

text \<open>
  A step on entries up to \<open>q\<close> when those up to \<open>p\<close> were published before: it does not fail the
  index checks, it sends a prefix of the entries' messages, and as long as the node goes on it
  sends them all.
\<close>

definition follows :: "(nat \<Rightarrow> Entry) \<Rightarrow> nat \<Rightarrow> nat \<Rightarrow> RaftNode \<Rightarrow> etcdfail + bool \<times> nat option \<times> RaftNode \<Rightarrow> bool" where
  "follows clog p q rc r \<longleftrightarrow> (case r of Inl e \<Rightarrow> e \<notin> {FatalFirstIndex, FatalSnapshotIndex}
   | Inr (ok, b, rc') \<Rightarrow> sends (concat (map (published (rnLastIndex rc)) (segment clog (Suc p) q))) ok rc rc' \<and>
       (ok \<longrightarrow> appliedIndex rc' = word_of_nat q) \<and> (unsaved rc \<and> q \<le> 10000 \<longrightarrow> unsaved rc'))"

lemma small_index: "q \<le> 10000 \<Longrightarrow> (word_of_nat q :: 64 word) \<le> 10000"
  by (simp add: word_le_nat_alt unat_of_nat take_bit_nat_eq_self)

lemma handleReady_follows:
  assumes "indexed clog" "appliedIndex rc = word_of_nat p"
    "Suc p < 2 ^ 64" "snIndex (rdSnapshot rd) = 0"
    "rdCommittedEntries rd = segment clog a c" "0 < a" "a \<le> Suc p" "Suc c < 2 ^ 64"
  shows "follows clog p (max p c) rc (handleReady env unmarshal rd (b, rc))"
proof -
  define rc0 where "rc0 = call (TransportSend (rdMessages rd)) (call (StorageAppend (rdEntries rd)) (call (WalSave (rdHardState rd) (rdEntries rd)) rc))"
  have f: "appliedIndex rc0 = word_of_nat p" "commitC rc0 = commitC rc" "rnLastIndex rc0 = rnLastIndex rc" "unsaved rc0 = unsaved rc"
    using assms(2) by (simp_all add: rc0_def)
  let ?ents = "segment clog (Suc p) (max p c)"
  have seg: "segment clog (Suc p) c = ?ents" by (cases "p \<le> c") (simp_all add: segment_def max_def)
  obtain ok b1 rc1 where 1: "publishEntries unmarshal ?ents (b, rc0) = (ok, b1, rc1)" by (cases "publishEntries unmarshal ?ents (b, rc0)")
  have s1: "sends (concat (map (published (rnLastIndex rc)) ?ents)) ok rc rc1" "unsaved rc \<longrightarrow> unsaved rc1"
    "ok \<longrightarrow> appliedIndex rc1 = (if ?ents = [] then appliedIndex rc0 else eIndex (last ?ents))"
    using publishEntries_sends [OF 1] f by (simp_all add: sends_def)
  have m: "max p c = (if Suc p \<le> c then c else p)" by auto
  have ap: "ok \<longrightarrow> appliedIndex rc1 = word_of_nat (max p c)"
    using s1(3) assms(1) f(1) unfolding m by (cases "Suc p \<le> c") (auto simp: segment_def indexed_def last_map)
  have h: "handleReady env unmarshal rd (b, rc) =
      (if \<not> ok then Inr (False, b1, stopNode rc1) else case maybeTriggerSnapshot env rc1 of Inl e \<Rightarrow> Inl e
       | Inr rc \<Rightarrow> Inr (True, b1, call NodeAdvance rc))"
    using 1 entriesToApply_segment [OF assms(1) f(1) assms(6,7,3,8)]
    by (simp add: handleReady_def assms(4,5) Let_def seg flip: rc0_def)
  show ?thesis
  proof (cases ok)
    case False
    then show ?thesis using s1(1,2) stop_sends(1) [of "[]" rc1] by (auto simp: h follows_def sends_def)
  next
    case True
    show ?thesis
    proof (cases "maybeTriggerSnapshot env rc1")
      case (Inl e)
      then have "e \<notin> {FatalFirstIndex, FatalSnapshotIndex}"
        by (auto simp: maybeTriggerSnapshot_def Let_def split: if_splits option.splits prod.splits)
      then show ?thesis using Inl True by (simp add: h follows_def)
    next
      case (Inr rc2)
      show ?thesis using maybeTriggerSnapshot_sends [OF Inr] Inr s1(1,2) ap True small_index
        by (auto simp: h follows_def sends_def)
    qed
  qed
qed

lemma serveChannels_turn_follows:
  assumes "indexed clog" "appliedIndex rc = word_of_nat p" "Suc p < 2 ^ 64" "contiguous clog p (ev # evs)"
  shows "follows clog p (lastHanded p [ev]) rc (serveChannels_turn env unmarshal ev (b, rc)) \<and> contiguous clog (lastHanded p [ev]) evs \<and>
    lastHanded p (ev # evs) = lastHanded (lastHanded p [ev]) evs"
proof (cases ev)
  case Ticker
  then show ?thesis using assms(2,4) by (simp add: serveChannels_turn_def follows_def sends_def segment_def)
next
  case (ReadyC rd)
  let ?e = "rdCommittedEntries rd"
  define a c where "a = (if ?e = [] then 1 else firstOf ?e)" and "c = (if ?e = [] then 0 else lastOf ?e)"
  have e: "?e = segment clog a c" "0 < a" "a \<le> Suc p" "Suc c < 2 ^ 64" "snIndex (rdSnapshot rd) = 0" "lastHanded p [ev] = max p c"
    "contiguous clog (max p c) evs"
    using assms(4) ReadyC by (auto simp: a_def c_def segment_def Let_def split: if_splits)
  show ?thesis using handleReady_follows [OF assms(1-3) e(5,1-4)] ReadyC e(6,7) by (simp add: serveChannels_turn_def)
qed (use assms(4) stop_sends in \<open>simp_all add: serveChannels_turn_def follows_def\<close>)

lemma etcd_serveChannels_follows:
  assumes "indexed clog" "appliedIndex rc = word_of_nat p" "Suc p < 2 ^ 64" "contiguous clog p (map snd evs)"
  shows "follows clog p (lastHanded p (map snd evs)) rc (etcd_serveChannels unmarshal evs (b, rc))"
  using assms(2-)
proof (induction evs arbitrary: p b rc)
  case Nil
  then show ?case by (simp add: segment_def follows_def sends_def)
next
  case (Cons x evs)
  obtain env ev where x: "x = (env, ev)" by force
  let ?q = "lastHanded p [ev]"
  let ?r = "lastHanded ?q (map snd evs)"
  let ?pub = "\<lambda>a b. concat (map (published (rnLastIndex rc)) (segment clog a b))"
  note t = serveChannels_turn_follows [OF assms(1) Cons.prems(1,2), of ev "map snd evs" env unmarshal b]
  have c: "follows clog p ?q rc (serveChannels_turn env unmarshal ev (b, rc))" "contiguous clog ?q (map snd evs)"
    "lastHanded p (ev # map snd evs) = ?r" using t Cons.prems(3) x by auto
  have "contiguous clog p [ev]" using Cons.prems(3) x by (cases ev) (auto simp: Let_def split: if_splits)
  then have q: "Suc ?q < 2 ^ 64" using lastHanded_bound Cons.prems(2) by blast
  have pub: "?pub (Suc p) ?r = ?pub (Suc p) ?q @ ?pub (Suc ?q) ?r"
    using segment_append [of "Suc p" ?q ?r clog] lastHanded_ge [of p "[ev]"] lastHanded_ge [of ?q "map snd evs"]
    by (simp flip: concat_append map_append)
  show ?case
  proof (cases "serveChannels_turn env unmarshal ev (b, rc)")
    case (Inl e)
    then show ?thesis using c(1) x by (simp add: follows_def)
  next
    case (Inr y)
    obtain ok b1 rc1 where y: "y = (ok, b1, rc1)" by (cases y)
    have s: "sends (?pub (Suc p) ?q) ok rc rc1" "ok \<longrightarrow> appliedIndex rc1 = word_of_nat ?q" "unsaved rc \<and> ?q \<le> 10000 \<longrightarrow> unsaved rc1"
      using c(1) Inr y by (simp_all add: follows_def)
    have le: "?r \<le> 10000 \<longrightarrow> ?q \<le> 10000" using lastHanded_ge [of ?q "map snd evs"] by simp
    have l: "lastHanded p (map snd (x # evs)) = ?r" using c(3) x by simp
    show ?thesis
    proof (cases ok)
      case False
      then have "follows clog p ?r rc (Inr (False, b1, rc1))" using s le pub by (auto simp: follows_def sends_more)
      then show ?thesis unfolding l using Inr y x False by simp
    next
      case True
      then have "follows clog ?q ?r rc1 (etcd_serveChannels unmarshal evs (b1, rc1))" using Cons.IH [OF _ q c(2)] s(2) by simp
      moreover have "rnLastIndex rc1 = rnLastIndex rc" using s(1) by (simp add: sends_def)
      ultimately have "follows clog p ?r rc (etcd_serveChannels unmarshal evs (b1, rc1))"
        using s True le sends_trans [of "?pub (Suc p) ?q" rc rc1] unfolding follows_def pub
        by (auto split: sum.splits)
      then show ?thesis unfolding l using Inr y x True by simp
    qed
  qed
qed

section \<open>The store follows the log\<close>

text \<open>The store is a map; the pairs among the entries of a log.\<close>

interpretation kv_map: keyed_store "\<lambda>s k. Lookup k s" storePut
  by unfold_locales (simp add: Lookup_def storePut_def)

fun kvPairs :: "payload list \<Rightarrow> (string \<times> string) list" where
  "kvPairs [] = []"
| "kvPairs (GobKV k v # ds) = (k, v) # kvPairs ds"
| "kvPairs (OtherBytes s # ds) = kvPairs ds"

text \<open>Each key has the value of the last pair for it.\<close>

definition storeOf :: "payload list \<Rightarrow> (string \<rightharpoonup> string)" where
  "storeOf ds = map_of (rev (kvPairs ds))"

lemma puts_store: "fold (\<lambda>(k, v). storePut k v) (kvPairs ds) \<lparr>proposeC = [], kvStore = Map.empty\<rparr> = \<lparr>proposeC = [], kvStore = storeOf ds\<rparr>"
proof -
  let ?s = "fold (\<lambda>(k, v). storePut k v) (kvPairs ds) \<lparr>proposeC = [], kvStore = Map.empty\<rparr>"
  have "kvStore ?s k = storeOf ds k" for k
    using kv_map.get_puts [of k "kvPairs ds" "\<lparr>proposeC = [], kvStore = Map.empty\<rparr>"]
    by (simp add: Lookup_def storeOf_def split: option.splits)
  moreover have "proposeC (fold (\<lambda>(k, v). storePut k v) kvs s) = proposeC s" for kvs s
    by (induction kvs arbitrary: s) (auto simp: storePut_def)
  ultimately show ?thesis by (intro kvstore.equality) auto
qed

definition normalData :: "Entry list \<Rightarrow> payload list" where
  "normalData ents = map eData (filter (\<lambda>e. eType e = EntryNormal \<and> \<not> emptyPayload (eData e)) ents)"

definition isKV :: "payload \<Rightarrow> bool" where
  "isKV d \<longleftrightarrow> (case d of GobKV _ _ \<Rightarrow> True | OtherBytes _ \<Rightarrow> False)"

lemma readCommits_data:
  "list_all isKV ds \<Longrightarrow> map snd cs = map Some ds \<Longrightarrow> readCommits gobParse (cs @ cs') s =
     readCommits gobParse cs' (fold (\<lambda>(k, v). storePut k v) (kvPairs ds) s)"
proof (induction ds arbitrary: cs s)
  case (Cons d ds)
  then obtain l cs1 where "cs = (l, Some d) # cs1" "map snd cs1 = map Some ds" by (cases cs) auto
  with Cons show ?case by (cases d) (simp_all add: decodeKV_def isKV_def)
qed simp

lemma kvPairs_append: "kvPairs (xs @ ys) = kvPairs xs @ kvPairs ys"
proof (induction xs)
  case (Cons d xs)
  then show ?case by (cases d) simp_all
qed simp

text \<open>A stream with at most one nil message, and no snapshot when it is received, is replayed in full.\<close>

lemma newKVStore_stream:
  assumes "list_all isKV (ds @ es)" "map snd cs \<in> {map Some ds @ None # map Some es, map Some (ds @ es)}"
    "\<And>l. (l, None) \<in> set cs \<Longrightarrow> l = ErrNoSnapshot"
  shows "newKVStore gobParse cs = (Blocked, \<lparr>proposeC = [], kvStore = storeOf (ds @ es)\<rparr>, [])"
proof (cases "map snd cs = map Some (ds @ es)")
  case True
  show ?thesis using readCommits_data [OF assms(1) True, of gobParse "[]"] puts_store [of "ds @ es"] by (simp add: newKVStore_def)
next
  case False
  with assms(2) have "map snd cs = map Some ds @ None # map Some es" by simp
  then obtain c1 x c2 where c: "cs = c1 @ x # c2" "map snd c1 = map Some ds" "snd x = None" "map snd c2 = map Some es"
    by (auto simp: map_eq_append_conv map_eq_Cons_conv)
  have x: "x = (ErrNoSnapshot, None)" using assms(3) [of "fst x"] c(1,3) by (cases x) simp
  have kv: "list_all isKV ds" "list_all isKV es" using assms(1) by simp_all
  show ?thesis
    using readCommits_data [OF kv(2) c(4), of gobParse "[]"] puts_store [of "ds @ es"]
    by (simp add: newKVStore_def c(1) x readCommits_data [OF kv(1) c(2)] kvPairs_append)
qed

lemma published_plain:
  assumes "\<And>e. e \<in> set ents \<Longrightarrow> eIndex e \<noteq> lastIdx"
  shows "concat (map (published lastIdx) ents) = map Some (normalData ents)"
  using assms by (induction ents) (auto simp: published_def normalData_def)

lemma published_segment_plain:
  assumes "\<And>i. a \<le> i \<Longrightarrow> i \<le> b \<Longrightarrow> eIndex (clog i) \<noteq> lastIdx"
  shows "concat (map (published lastIdx) (segment clog a b)) = map Some (normalData (segment clog a b))"
proof (rule published_plain)
  fix e assume "e \<in> set (segment clog a b)"
  then obtain i where "a \<le> i" "i \<le> b" "e = clog i" by (auto simp: segment_def)
  with assms show "eIndex e \<noteq> lastIdx" by simp
qed

lemma published_segment:
  assumes "indexed clog" "c < 2 ^ 64" "0 < a"
  shows "\<exists>ds es. concat (map (published lastIdx) (segment clog a c)) \<in> {map Some ds @ None # map Some es, map Some (ds @ es)} \<and>
    ds @ es = normalData (segment clog a c)"
proof (cases "a \<le> unat lastIdx \<and> unat lastIdx \<le> c")
  case True
  let ?l = "unat lastIdx"
  have inj: "eIndex (clog i) = lastIdx \<longleftrightarrow> i = ?l" if "i \<le> c" for i
  proof -
    have "unat (word_of_nat i :: 64 word) = i" using that assms(2) by (simp add: unat_of_nat take_bit_nat_eq_self)
    then show ?thesis using assms(1) by (auto simp: indexed_def word_unat_eq_iff)
  qed
  obtain l where l: "?l = Suc l" using True assms(3) by (cases ?l) auto
  have split: "segment clog a c = segment clog a l @ clog ?l # segment clog (Suc ?l) c"
  proof -
    have "segment clog a c = segment clog a l @ segment clog ?l c" using segment_append [of a l c clog] True l by simp
    moreover have "segment clog ?l c = clog ?l # segment clog (Suc ?l) c" using True by (simp add: segment_def upt_rec del: upt_Suc)
    ultimately show ?thesis by simp
  qed
  have p1: "concat (map (published lastIdx) (segment clog a l)) = map Some (normalData (segment clog a l))"
    by (rule published_segment_plain) (use inj l True in simp)
  have p2: "concat (map (published lastIdx) (segment clog (Suc ?l) c)) = map Some (normalData (segment clog (Suc ?l) c))"
    by (rule published_segment_plain) (use inj in simp)
  have "eIndex (clog ?l) = lastIdx" using inj True by simp
  then show ?thesis
    by (intro exI [of _ "normalData (segment clog a l @ [clog ?l])"] exI [of _ "normalData (segment clog (Suc ?l) c)"])
      (simp add: split p1 p2 normalData_def published_def)
next
  case False
  have "concat (map (published lastIdx) (segment clog a c)) = map Some (normalData (segment clog a c))"
  proof (rule published_segment_plain)
    fix i assume i: "a \<le> i" "i \<le> c"
    then have "unat (eIndex (clog i)) = i" using assms(1,2) by (simp add: indexed_def unat_of_nat take_bit_nat_eq_self)
    then show "eIndex (clog i) \<noteq> lastIdx" using False i by auto
  qed
  then show ?thesis by (intro exI [of _ "normalData (segment clog a c)"] exI [of _ "[]"]) simp
qed

text \<open>What the store makes of the messages sent for the first \<open>t\<close> entries of the log.\<close>

lemma stream_store:
  assumes "indexed clog" "\<And>i. eType (clog i) = EntryNormal \<Longrightarrow> emptyPayload (eData (clog i)) \<or> isKV (eData (clog i))"
    "w < 2 ^ 64" "Suc t < 2 ^ 64"
    "map snd cs = (if 0 < w then [] else [None]) @ concat (map (published (word_of_nat w)) (segment clog 1 t))"
    "\<And>l. (l, None) \<in> set cs \<Longrightarrow> l = ErrNoSnapshot"
  shows "newKVStore gobParse cs = (Blocked, \<lparr>proposeC = [], kvStore = storeOf (normalData (segment clog 1 t))\<rparr>, [])"
proof -
  let ?all = "normalData (segment clog 1 t)"
  have kv: "list_all isKV ?all" using assms(2) by (auto simp: normalData_def list_all_iff segment_def)
  have t: "t < 2 ^ 64" using assms(4) by simp
  have "\<exists>ds es. map snd cs \<in> {map Some ds @ None # map Some es, map Some (ds @ es)} \<and> ds @ es = ?all"
  proof (cases "w = 0")
    case True
    have "concat (map (published 0) (segment clog 1 t)) = map Some ?all"
    proof (rule published_segment_plain)
      fix i assume i: "1 \<le> i" "i \<le> t"
      then have "unat (eIndex (clog i)) = i" using assms(1) t by (simp add: indexed_def unat_of_nat take_bit_nat_eq_self)
      then show "eIndex (clog i) \<noteq> 0" using i by auto
    qed
    then show ?thesis using True assms(5) by (intro exI [of _ "[]"] exI [of _ ?all]) simp
  next
    case False
    then show ?thesis using published_segment [OF assms(1) t zero_less_one] assms(5) by simp
  qed
  then show ?thesis using newKVStore_stream [of _ _ cs gobParse] kv assms(6) by metis
qed

lemma startRaft_ok:
  assumes "indexed clog"
  shows "\<exists>rc. startRaft True oldwal (Some (st, segment clog 1 w)) (newRaftNode nid peers join) = Inr rc \<and> rnId rc = nid \<and>
    commitC rc = (if 0 < w then [] else [None]) \<and> rnLastIndex rc = word_of_nat w \<and> unsaved rc"
proof -
  let ?rc0 = "replayWAL st (segment clog 1 w) (newRaftNode nid peers join)"
  have l: "segment clog 1 w ! (length (segment clog 1 w) - 1) = clog w" "length (segment clog 1 w) > 0" if "0 < w"
    using that by (simp_all add: segment_def del: upt_Suc)
  have n: "length (segment clog 1 w) = 0" if "w = 0" using that by (simp add: segment_def)
  from l n have r: "rnId ?rc0 = nid" "commitC ?rc0 = (if 0 < w then [] else [None])" "rnLastIndex ?rc0 = word_of_nat w" "unsaved ?rc0"
    using assms by (cases "w = 0"; simp add: replayWAL_def newRaftNode_def indexed_def call_def Let_def unsaved_def snapSaves_def)+
  have peers: "rnId (fold (\<lambda>i. if P i then call (op i) else id) is rc) = rnId rc \<and>
      commitC (fold (\<lambda>i. if P i then call (op i) else id) is rc) = commitC rc \<and>
      rnLastIndex (fold (\<lambda>i. if P i then call (op i) else id) is rc) = rnLastIndex rc" for P op "is" rc
    by (induction "is" arbitrary: rc) auto
  have us: "unsaved (fold (\<lambda>i. if P i then call (AddPeer (f i) (g i)) else id) is rc) = unsaved rc" for P f g "is" rc
    by (induction "is" arbitrary: rc) auto
  show ?thesis using r by (simp add: startRaft_def Let_def peers us)
qed

section \<open>Theorems\<close>


definition demo_unmarshal :: "payload \<Rightarrow> ConfChange" where
  "demo_unmarshal d = \<lparr>ccType = ConfChangeAddNode, ccNodeID = 1, ccContext = []\<rparr>"

definition demo_log :: "nat \<Rightarrow> Entry" where
  "demo_log i = \<lparr>eIndex = word_of_nat i, eType = EntryNormal, eData = GobKV ''k'' [CHR ''v'']\<rparr>"

definition demo_env :: SnapEnv where
  "demo_env = \<lparr>okSnapSave = True, okWalSaveSnapshot = True, okReleaseLock = True, gotSnapshot = Some [], okCreate = True, okCompact = True\<rparr>"

definition demo_ready :: "nat \<Rightarrow> nat \<Rightarrow> loopEvent" where
  "demo_ready a b = ReadyC \<lparr>rdHardState = [], rdEntries = [], rdSnapshot = \<lparr>snIndex = 0, snConf = []\<rparr>, rdMessages = [],
     rdCommittedEntries = segment demo_log a b\<rparr>"

text \<open>A snapshotter that finds no snapshot until one is saved.\<close>

definition demo_load :: "nodeop list \<Rightarrow> snapLoad" where
  "demo_load ops = (if snapSaves ops = [] then ErrNoSnapshot else SnapStore Map.empty)"

definition demo_events :: "(SnapEnv \<times> loopEvent) list" where
  "demo_events = [(demo_env, demo_ready 1 2), (demo_env, Ticker), (demo_env, demo_ready 2 3)]"

lemma demo_segments: "segment demo_log (Suc 0) 2 = [demo_log 1, demo_log 2]" "segment demo_log 2 3 = [demo_log 2, demo_log 3]"
    "segment demo_log 1 2 = [demo_log 1, demo_log 2]" "segment demo_log 1 3 = [demo_log 1, demo_log 2, demo_log 3]"
  by (simp_all add: segment_def upt_rec numeral_2_eq_2 numeral_3_eq_3)

lemma demo_ok:
  "indexed demo_log" "stays unmarshal i (demo_log j)" "list_all (\<lambda>(env, ev). snapsWork env \<and> calm ev) demo_events"
  "lastHanded 0 (map snd demo_events) = 3" "contiguous demo_log 0 (map snd demo_events)"
  by (simp_all add: indexed_def demo_log_def stays_def snapsWork_def demo_env_def demo_events_def calm_def)
    (simp_all add: demo_ready_def demo_segments firstOf_def lastOf_def Let_def, simp_all add: demo_log_def,
      simp_all add: demo_segments demo_log_def)


text \<open>
  C31: The store follows the log. A node starts without snapshot, with or without entries in its
  write-ahead log, and is handed the log's committed entries without snapshots of other nodes. As long as the
  node has not stopped, and no snapshot has been saved yet when the store loads one on the nil message that ends
  the replay, each key of the store has the value of the last pair committed for it so far, no
  other key is present, and the store keeps reading. While no more than 10000 entries have been
  handed over, the node has not saved a snapshot.
\<close>

theorem etcd_store_follows_log:
  assumes "indexed clog" "contiguous clog 0 (map snd evs)"
    "\<And>i. eType (clog i) = EntryNormal \<Longrightarrow> emptyPayload (eData (clog i)) \<or> isKV (eData (clog i))"
    "w < 2 ^ 64"
    "startRaft True oldwal (Some (st, segment clog 1 w)) (newRaftNode nid peers join) = Inr rc"
    "etcd_serveChannels unmarshal evs (b, serveChannels_init \<lparr>snIndex = 0, snConf = []\<rparr> rc) = Inr (True, b', rc')"
    "\<And>ops. snapSaves ops = [] \<Longrightarrow> load ops = ErrNoSnapshot"
    "length ts = length (commitC rc')"
  shows "((\<forall>i < length ts. commitC rc' ! i = None \<longrightarrow> snapSaves (take (ts ! i) (nodeOps rc')) = []) \<longrightarrow>
      newKVStore gobParse (received load ts rc') =
        (Blocked, \<lparr>proposeC = [], kvStore = storeOf (normalData (segment clog 1 (lastHanded 0 (map snd evs))))\<rparr>, [])) \<and>
    (lastHanded 0 (map snd evs) \<le> 10000 \<longrightarrow> snapSaves (nodeOps rc') = [])"
proof -
  let ?rc = "serveChannels_init \<lparr>snIndex = 0, snConf = []\<rparr> rc"
  let ?t = "lastHanded 0 (map snd evs)"
  from startRaft_ok [OF assms(1), of oldwal st w nid peers join] assms(5)
  have rc: "commitC ?rc = (if 0 < w then [] else [None])" "rnLastIndex ?rc = word_of_nat w" "unsaved ?rc" "appliedIndex ?rc = 0"
    by (auto simp: serveChannels_init_def unsaved_def)
  have "follows clog 0 ?t ?rc (Inr (True, b', rc'))"
    using etcd_serveChannels_follows [of clog ?rc 0 evs unmarshal b] assms(1,2,6) rc(4) by simp
  then have r: "commitC rc' = (if 0 < w then [] else [None]) @ concat (map (published (word_of_nat w)) (segment clog 1 ?t))"
      "?t \<le> 10000 \<longrightarrow> unsaved rc'"
    using rc by (simp_all add: follows_def sends_def)
  have "Suc ?t < 2 ^ 64" using lastHanded_bound [OF assms(2)] by simp
  moreover have "map snd (received load ts rc') = commitC rc'" using assms(8) by (simp add: received_def)
  moreover have "l = ErrNoSnapshot" if "(l, None) \<in> set (received load ts rc')"
      "\<forall>i < length ts. commitC rc' ! i = None \<longrightarrow> snapSaves (take (ts ! i) (nodeOps rc')) = []" for l
    using that assms(7,8) by (auto simp: received_def set_zip)
  ultimately show ?thesis using r stream_store [OF assms(1,3,4), of ?t "received load ts rc'" gobParse]
    by (auto simp: unsaved_def)
qed

theorem etcd_store_follows_log_witness:
  "\<exists>rc rc'. startRaft True True (Some ([], segment demo_log 1 2)) (newRaftNode 7 [''a''] False) = Inr rc \<and>
    etcd_serveChannels demo_unmarshal demo_events (None, serveChannels_init \<lparr>snIndex = 0, snConf = []\<rparr> rc) = Inr (True, None, rc') \<and>
    newKVStore Map.empty (received demo_load (replicate (length (commitC rc')) (length (nodeOps rc'))) rc') =
      (Blocked, \<lparr>proposeC = [], kvStore = [''k'' \<mapsto> ''v'']\<rparr>, [])"
proof -
  obtain rc where rc: "startRaft True True (Some ([], segment demo_log 1 2)) (newRaftNode 7 [''a''] False) = Inr rc" "rnId rc = 7"
    using startRaft_ok [OF demo_ok(1)] by blast
  let ?rc = "serveChannels_init \<lparr>snIndex = 0, snConf = []\<rparr> rc"
  obtain rc' where rc': "etcd_serveChannels demo_unmarshal demo_events (None, ?rc) = Inr (True, None, rc')"
    using etcd_serveChannels_ok [OF demo_ok(1) _ _ _ demo_ok(5,3), of demo_unmarshal ?rc] demo_ok(2)
    by (auto simp: serveChannels_init_def)
  let ?ts = "replicate (length (commitC rc')) (length (nodeOps rc'))"
  have "eType (demo_log i) = EntryNormal \<Longrightarrow> emptyPayload (eData (demo_log i)) \<or> isKV (eData (demo_log i))" for i
    by (simp add: demo_log_def isKV_def)
  moreover have "snapSaves ops = [] \<Longrightarrow> demo_load ops = ErrNoSnapshot" for ops by (simp add: demo_load_def)
  ultimately have "newKVStore Map.empty (received demo_load ?ts rc') =
      (Blocked, \<lparr>proposeC = [], kvStore = storeOf (normalData (segment demo_log 1 (lastHanded 0 (map snd demo_events))))\<rparr>, [])"
    using etcd_store_follows_log [OF demo_ok(1,5) _ _ rc(1) rc', of demo_load ?ts Map.empty] demo_ok(4) by simp
  moreover have "storeOf (normalData (segment demo_log 1 (lastHanded 0 (map snd demo_events)))) = [''k'' \<mapsto> ''v'']"
    unfolding demo_ok(4) demo_segments(4) by (simp add: normalData_def demo_log_def emptyPayload_def storeOf_def)
  ultimately show ?thesis using rc(1) rc' by auto
qed

text \<open>
  A nil message crashes the store when a snapshot exists: after loading it the code goes on to
  dereference the message.
\<close>

theorem etcd_snapshot_load_panics:
  assumes "list_all isKV ds" "map snd cs = map Some ds"
  shows "fst (newKVStore gobParse (cs @ (SnapStore store, None) # cs')) = PanicNilDereference"
  using assms by (simp add: newKVStore_def readCommits_data)

theorem etcd_snapshot_load_panics_witness:
  "fst (newKVStore Map.empty [(ErrNoSnapshot, Some (GobKV ''a'' ''b'')), (SnapStore [''k'' \<mapsto> ''v''], None)]) = PanicNilDereference"
  using etcd_snapshot_load_panics [of "[GobKV ''a'' ''b'']" "[(ErrNoSnapshot, Some (GobKV ''a'' ''b''))]" Map.empty "[''k'' \<mapsto> ''v'']" "[]"]
  by (simp add: isKV_def)

end
