(* ===== verification/Rpc_Servers.thy ===== *)
theory Rpc_Servers
  imports Clerk_Loops Shard_Clerks
begin

text \<open>
  The loop in which the servers that listen on a socket accept connections, the lock server's
  handlers, and the clerks of the lock and view services. A connection ends up closed, served, or
  served with its reply discarded; the listener's results and the random numbers are parameters.
  The servers themselves are in \<open>Socket_Servers\<close>.
\<close>

section \<open>The accept loop\<close>

datatype served = Refused | Served | ServedDeaf

record 'c RpcServer =
  rsDead :: bool
  rsUnreliable :: bool
  rsListening :: bool
  rsCount :: nat
  rsConns :: "('c \<times> served) list"

definition rs_init :: "'c RpcServer" where
  "rs_init = \<lparr>rsDead = False, rsUnreliable = False, rsListening = True, rsCount = 0, rsConns = []\<rparr>"

definition rs_kill :: "'c RpcServer \<Rightarrow> 'c RpcServer" where
  "rs_kill s = s\<lparr>rsDead := True, rsListening := False\<rparr>"

definition rs_setunreliable :: "bool \<Rightarrow> 'c RpcServer \<Rightarrow> 'c RpcServer" where
  "rs_setunreliable what s = s\<lparr>rsUnreliable := what\<rparr>"

definition rs_log :: "'c \<Rightarrow> served \<Rightarrow> bool \<Rightarrow> 'c RpcServer \<Rightarrow> 'c RpcServer" where
  "rs_log conn how counted s =
     s\<lparr>rsConns := rsConns s @ [(conn, how)], rsCount := (if counted then rsCount s + 1 else rsCount s)\<rparr>"

text \<open>
  One turn of the loop after \<open>Accept\<close> has returned: a connection, or an error. The flags tell
  the variants apart: whether connections are counted, and whether an error stops the server.
\<close>

definition acceptTurn :: "bool \<Rightarrow> bool \<Rightarrow> 'c option \<Rightarrow> nat \<Rightarrow> nat \<Rightarrow> 'c RpcServer \<Rightarrow> 'c RpcServer" where
  "acceptTurn counts killOnError conn r1 r2 s = (case conn of
     Some c \<Rightarrow>
       if rsDead s = False then
         if rsUnreliable s \<and> r1 mod 1000 < 100 then rs_log c Refused False s
         else if rsUnreliable s \<and> r2 mod 1000 < 200 then rs_log c ServedDeaf counts s
         else rs_log c Served counts s
       else rs_log c Refused False s
   | None \<Rightarrow> if rsDead s = False \<and> killOnError then rs_kill s else s)"

section \<open>The lock service\<close>

record LockServer =
  am_primary :: bool
  lsDying :: bool
  lsDead :: bool
  locks :: "string \<rightharpoonup> bool"

definition ls_StartServer :: "bool \<Rightarrow> LockServer" where
  "ls_StartServer primary = \<lparr>am_primary = primary, lsDying = False, lsDead = False, locks = Map.empty\<rparr>"

definition ls_Lock :: "string \<Rightarrow> LockServer \<Rightarrow> bool \<times> LockServer" where
  "ls_Lock lockname ls =
     (let locked = (case locks ls lockname of Some b \<Rightarrow> b | None \<Rightarrow> False) in
      if locked then (False, ls) else (True, ls\<lparr>locks := (locks ls)(lockname \<mapsto> True)\<rparr>))"

text \<open>The handler of \<open>Unlock\<close> does nothing.\<close>

definition ls_Unlock :: "string \<Rightarrow> LockServer \<Rightarrow> bool \<times> LockServer" where
  "ls_Unlock lockname ls = (False, ls)"

definition ls_kill :: "LockServer \<Rightarrow> LockServer" where
  "ls_kill ls = ls\<lparr>lsDead := True\<rparr>"

text \<open>
  Serving one request: a dead server does not answer; a dying one executes the request,
  discards the reply and is dead afterwards.
\<close>

datatype lockreq = LockReq string | UnlockReq string

definition ls_handle :: "lockreq \<Rightarrow> LockServer \<Rightarrow> bool \<times> LockServer" where
  "ls_handle req ls = (case req of LockReq n \<Rightarrow> ls_Lock n ls | UnlockReq n \<Rightarrow> ls_Unlock n ls)"

definition ls_serve :: "lockreq \<Rightarrow> LockServer \<Rightarrow> bool option \<times> LockServer" where
  "ls_serve req ls =
     (if lsDead ls then (None, ls)
      else let (ok, ls) = ls_handle req ls in
        if lsDying ls then (None, ls\<lparr>lsDead := True\<rparr>) else (Some ok, ls))"

definition lockClerk_Lock :: "string \<Rightarrow> LockServer \<Rightarrow> bool \<times> LockServer" where
  "lockClerk_Lock lockname primary = (case ls_serve (LockReq lockname) primary of
     (None, primary) \<Rightarrow> (False, primary) | (Some ok, primary) \<Rightarrow> (ok, primary))"

text \<open>The clerk's \<open>Unlock\<close> sends nothing.\<close>

definition lockClerk_Unlock :: "string \<Rightarrow> LockServer \<Rightarrow> bool \<times> LockServer" where
  "lockClerk_Unlock lockname primary = (False, primary)"

text \<open>
  What can happen to a server: calls of clerks, an unlock request that reaches it some other way,
  being told to die, being killed. The result tells whether a lock was granted.
\<close>

datatype lockevent = CkLock string | CkUnlock string | RpcUnlock string | TellDie | KillServer

fun lockEvent :: "lockevent \<Rightarrow> LockServer \<Rightarrow> bool \<times> LockServer" where
  "lockEvent (CkLock n) ls = lockClerk_Lock n ls"
| "lockEvent (CkUnlock n) ls = lockClerk_Unlock n ls"
| "lockEvent (RpcUnlock n) ls = (False, snd (ls_serve (UnlockReq n) ls))"
| "lockEvent TellDie ls = (False, ls\<lparr>lsDying := True\<rparr>)"
| "lockEvent KillServer ls = (False, ls_kill ls)"

fun lockAll :: "lockevent list \<Rightarrow> LockServer \<Rightarrow> bool list \<times> LockServer" where
  "lockAll [] ls = ([], ls)"
| "lockAll (ev # evs) ls = (let (ok, ls) = lockEvent ev ls; (oks, ls) = lockAll evs ls in (ok # oks, ls))"

section \<open>The view service's clerk\<close>

record View =
  Viewnum :: nat
  vPrimary :: string
  vBackup :: string

definition zeroView :: View where
  "zeroView = \<lparr>Viewnum = 0, vPrimary = [], vBackup = []\<rparr>"

record PingArgs =
  pMe :: string
  pViewnum :: nat

definition vs_Ping :: "(string \<Rightarrow> string \<Rightarrow> PingArgs \<Rightarrow> View option) \<Rightarrow> string \<Rightarrow> string \<Rightarrow> nat \<Rightarrow> View \<times> bool" where
  "vs_Ping rpc me server viewnum = (case rpc server ''ViewServer.Ping'' \<lparr>pMe = me, pViewnum = viewnum\<rparr> of
     None \<Rightarrow> (zeroView, False) | Some v \<Rightarrow> (v, True))"

definition vs_Get :: "(string \<Rightarrow> string \<Rightarrow> View option) \<Rightarrow> string \<Rightarrow> View \<times> bool" where
  "vs_Get rpc server = (case rpc server ''ViewServer.Get'' of None \<Rightarrow> (zeroView, False) | Some v \<Rightarrow> (v, True))"

definition vs_Primary :: "(string \<Rightarrow> string \<Rightarrow> View option) \<Rightarrow> string \<Rightarrow> string" where
  "vs_Primary rpc server = (case vs_Get rpc server of (v, ok) \<Rightarrow> if ok then vPrimary v else [])"

section \<open>Lemmas\<close>

text \<open>A lock that is held stays held, whatever happens.\<close>

lemmas lock_defs = lockClerk_Lock_def lockClerk_Unlock_def ls_serve_def ls_handle_def ls_Lock_def ls_Unlock_def ls_kill_def

lemma lockEvent_keeps: "locks ls n = Some True \<Longrightarrow> locks (snd (lockEvent ev ls)) n = Some True"
  by (cases ev) (auto simp: lock_defs Let_def split: option.splits)

lemma lockEvent_granted: "fst (lockEvent (CkLock n) ls) \<Longrightarrow> locks ls n \<noteq> Some True \<and> locks (snd (lockEvent (CkLock n) ls)) n = Some True"
  by (auto simp: lock_defs Let_def split: option.splits if_splits)

lemma lockAll_Cons: "fst (lockAll (ev # evs) ls) = fst (lockEvent ev ls) # fst (lockAll evs (snd (lockEvent ev ls)))"
  by (simp add: case_prod_beta)

lemma lockAll_held:
  "locks ls n = Some True \<Longrightarrow> i < length evs \<Longrightarrow> evs ! i = CkLock n \<Longrightarrow> \<not> fst (lockAll evs ls) ! i"
proof (induction evs arbitrary: ls i)
  case (Cons ev evs)
  then show ?case unfolding lockAll_Cons using lockEvent_keeps [OF Cons.prems(1), of ev] lockEvent_granted [of n ls]
    by (cases i) auto
qed simp

text \<open>A dying server takes the lock and the clerk reports that it did not.\<close>

lemma lock_lost_when_dying:
  assumes "locks ls n = None" "lsDying ls" "\<not> lsDead ls"
  shows "\<not> fst (lockClerk_Lock n ls) \<and> locks (snd (lockClerk_Lock n ls)) n = Some True"
  using assms by (simp add: lock_defs Let_def)

text \<open>A dead server serves no connection, and every accepted connection is dealt with once.\<close>

lemma acceptTurn_conn:
  "rsConns (acceptTurn counts killOnError (Some c) r1 r2 s) = rsConns s @ [(c,
     if rsDead s \<or> rsUnreliable s \<and> r1 mod 1000 < 100 then Refused
     else if rsUnreliable s \<and> r2 mod 1000 < 200 then ServedDeaf else Served)]"
  by (simp add: acceptTurn_def rs_log_def)

lemma acceptTurn_error:
  "rsConns (acceptTurn counts killOnError None r1 r2 s) = rsConns s"
  "rsDead (acceptTurn counts killOnError None r1 r2 s) = (rsDead s \<or> killOnError)"
  by (simp_all add: acceptTurn_def rs_kill_def)

section \<open>Theorems\<close>

text \<open>
  C35: A lock is granted at most once. Whatever calls of \<open>Lock\<close> and \<open>Unlock\<close> clerks make, whatever
  unlock requests reach the lock server otherwise, and whenever it is told to die or is killed, two
  calls of \<open>Lock\<close> for the same name are never both granted. That is mutual exclusion, and more: since
  the body of \<open>Unlock\<close> is not written, a lock that was granted is not granted again after an unlock
  either, which the service's tests expect.
\<close>

theorem lock_granted_once:
  assumes "i < j" "j < length evs" "evs ! i = CkLock n" "evs ! j = CkLock n" "fst (lockAll evs ls) ! i"
  shows "\<not> fst (lockAll evs ls) ! j"
  using assms
proof (induction evs arbitrary: ls i j)
  case (Cons ev evs)
  from Cons.prems(1) obtain j' where j': "j = Suc j'" by (cases j) auto
  note prems = Cons.prems [unfolded lockAll_Cons j']
  show ?case
  proof (cases i)
    case 0
    then have "locks (snd (lockEvent ev ls)) n = Some True" using prems lockEvent_granted [of n ls] by simp
    then show ?thesis unfolding lockAll_Cons j' using lockAll_held [of _ n j' evs] prems by simp
  next
    case (Suc i')
    then show ?thesis unfolding lockAll_Cons j' using Cons.IH [of i' j'] prems by simp
  qed
qed simp

text \<open>The calls \<open>TestBasic\<close> of \<open>lockservice/test_test.go\<close> begins with; it expects the third to be granted.\<close>

theorem lock_granted_once_witness:
  "fst (lockAll [CkLock ''a'', CkUnlock ''a'', CkLock ''a''] (ls_StartServer True)) = [True, False, False]"
proof -
  let ?r = "fst (lockAll [CkLock ''a'', CkUnlock ''a'', CkLock ''a''] (ls_StartServer True))"
  have "?r ! 0" "\<not> ?r ! 1" "length ?r = 3" by code_simp+
  moreover from this have "\<not> ?r ! 2"
    using lock_granted_once [of 0 2 "[CkLock ''a'', CkUnlock ''a'', CkLock ''a'']" "''a''" "ls_StartServer True"] by simp
  ultimately show ?thesis by (intro nth_equalityI) (auto simp: less_Suc_eq numeral_3_eq_3 numeral_2_eq_2)
qed

end
