(* ===== verification/Socket_Servers.thy ===== *)
theory Socket_Servers
  imports Rpc_Servers
begin

text \<open>
  The server objects of the services that listen on a socket: \<open>paxos\<close>, \<open>kvpaxos\<close>,
  \<open>paxos-shardmaster\<close>, \<open>paxos-shardkv\<close>, \<open>diskv\<close>, \<open>pbservice\<close> and
  \<open>viewservice\<close>, with the clerks that are not in \<open>Shard_Clerks\<close>. Their request handlers
  are not written in this repository: they leave the server and the zeroed reply as they are.
  Whether \<open>net.Listen\<close> succeeds is an argument; \<open>tick\<close> does nothing wherever it is called.
\<close>

section \<open>The Paxos library\<close>

datatype Fate = Decided | Pending | Forgotten

datatype startfail = FatalListen | PanicPeerIndex

record 'c Paxos =
  pxRpc :: "'c RpcServer"
  pxPeers :: "string list"
  pxMe :: nat

definition px_Start :: "int \<Rightarrow> 'v \<Rightarrow> 'c Paxos \<Rightarrow> 'c Paxos" where
  "px_Start seq v px = px"

definition px_Done :: "int \<Rightarrow> 'c Paxos \<Rightarrow> 'c Paxos" where
  "px_Done seq px = px"

definition px_Max :: "'c Paxos \<Rightarrow> int" where
  "px_Max px = 0"

definition px_Min :: "'c Paxos \<Rightarrow> int" where
  "px_Min px = 0"

definition px_Status :: "int \<Rightarrow> 'c Paxos \<Rightarrow> Fate \<times> 'v option" where
  "px_Status seq px = (Pending, None)"

definition px_Kill :: "'c Paxos \<Rightarrow> 'c Paxos" where
  "px_Kill px = px\<lparr>pxRpc := rs_kill (pxRpc px)\<rparr>"

definition px_isdead :: "'c Paxos \<Rightarrow> bool" where
  "px_isdead px = rsDead (pxRpc px)"

definition px_setunreliable :: "bool \<Rightarrow> 'c Paxos \<Rightarrow> 'c Paxos" where
  "px_setunreliable what px = px\<lparr>pxRpc := rs_setunreliable what (pxRpc px)\<rparr>"

text \<open>Listening on \<open>servers[me]\<close>.\<close>

definition listenAt :: "string list \<Rightarrow> nat \<Rightarrow> (string \<Rightarrow> bool) \<Rightarrow> startfail + unit" where
  "listenAt servers me listen = (if length servers \<le> me then Inl PanicPeerIndex
     else if listen (servers ! me) then Inr () else Inl FatalListen)"

text \<open>
  \<open>Make\<close> registers the peer with the caller's RPC server, or, given none, listens itself; a peer
  without a listener of its own is one that does not listen.
\<close>

definition px_Make :: "string list \<Rightarrow> nat \<Rightarrow> bool \<Rightarrow> (string \<Rightarrow> bool) \<Rightarrow> startfail + 'c Paxos" where
  "px_Make prs me hasRpcs listen =
     (let px = \<lparr>pxRpc = rs_init\<lparr>rsListening := False\<rparr>, pxPeers = prs, pxMe = me\<rparr> in
      if hasRpcs then Inr px
      else case listenAt prs me listen of Inl e \<Rightarrow> Inl e | Inr _ \<Rightarrow> Inr (px\<lparr>pxRpc := rs_init\<rparr>))"

definition paxos_accept :: "'c option \<Rightarrow> nat \<Rightarrow> nat \<Rightarrow> 'c Paxos \<Rightarrow> 'c Paxos" where
  "paxos_accept conn r1 r2 px = px\<lparr>pxRpc := acceptTurn True False conn r1 r2 (pxRpc px)\<rparr>"

section \<open>Servers over a Paxos peer\<close>

text \<open>What the four servers that use the Paxos library have in common: their text is the same.\<close>

record 'c PaxosServer =
  srMe :: nat
  srRpc :: "'c RpcServer"
  srPx :: "'c Paxos"

definition ps_kill :: "('c, 'z) PaxosServer_scheme \<Rightarrow> ('c, 'z) PaxosServer_scheme" where
  "ps_kill s = s\<lparr>srRpc := rs_kill (srRpc s), srPx := px_Kill (srPx s)\<rparr>"

definition ps_setunreliable :: "bool \<Rightarrow> ('c, 'z) PaxosServer_scheme \<Rightarrow> ('c, 'z) PaxosServer_scheme" where
  "ps_setunreliable what s = s\<lparr>srRpc := rs_setunreliable what (srRpc s)\<rparr>"

definition ps_accept :: "'c option \<Rightarrow> nat \<Rightarrow> nat \<Rightarrow> ('c, 'z) PaxosServer_scheme \<Rightarrow> ('c, 'z) PaxosServer_scheme" where
  "ps_accept conn r1 r2 s = (if conn = None \<and> rsDead (srRpc s) = False then ps_kill s
     else s\<lparr>srRpc := acceptTurn False True conn r1 r2 (srRpc s)\<rparr>)"

text \<open>The common part of \<open>StartServer\<close>: the Paxos peer shares the server's RPC server.\<close>

definition ps_start :: "string list \<Rightarrow> nat \<Rightarrow> (string \<Rightarrow> bool) \<Rightarrow> startfail + 'c PaxosServer" where
  "ps_start servers me listen = (case px_Make servers me True listen of Inl e \<Rightarrow> Inl e
     | Inr px \<Rightarrow> (case listenAt servers me listen of Inl e \<Rightarrow> Inl e
       | Inr _ \<Rightarrow> Inr \<lparr>srMe = me, srRpc = rs_init, srPx = px\<rparr>))"

subsection \<open>The key/value server\<close>

definition kvpaxos_StartServer :: "string list \<Rightarrow> nat \<Rightarrow> (string \<Rightarrow> bool) \<Rightarrow> startfail + 'c PaxosServer" where
  "kvpaxos_StartServer = ps_start"

definition kvpaxos_Get :: "string \<Rightarrow> PGetReply \<Rightarrow> 'c PaxosServer \<Rightarrow> 'c PaxosServer \<times> PGetReply" where
  "kvpaxos_Get args reply kv = (kv, reply)"

definition kvpaxos_PutAppend :: "SPutAppendArgs \<Rightarrow> string \<Rightarrow> 'c PaxosServer \<Rightarrow> 'c PaxosServer \<times> string" where
  "kvpaxos_PutAppend args reply kv = (kv, reply)"

definition kvpaxos_kill :: "'c PaxosServer \<Rightarrow> 'c PaxosServer" where
  "kvpaxos_kill = ps_kill"

definition kvpaxos_setunreliable :: "bool \<Rightarrow> 'c PaxosServer \<Rightarrow> 'c PaxosServer" where
  "kvpaxos_setunreliable = ps_setunreliable"

definition kvpaxos_accept :: "'c option \<Rightarrow> nat \<Rightarrow> nat \<Rightarrow> 'c PaxosServer \<Rightarrow> 'c PaxosServer" where
  "kvpaxos_accept = ps_accept"

text \<open>The clerk sends nothing.\<close>

definition kvpaxos_MakeClerk :: "string list \<Rightarrow> string list" where
  "kvpaxos_MakeClerk servers = servers"

definition kvpaxos_clerkGet :: "string \<Rightarrow> string list \<Rightarrow> string \<times> string list" where
  "kvpaxos_clerkGet key ck = ([], ck)"

definition kvpaxos_clerkPutAppend :: "string \<Rightarrow> string \<Rightarrow> string \<Rightarrow> string list \<Rightarrow> string list" where
  "kvpaxos_clerkPutAppend key val op ck = ck"

subsection \<open>The shardmaster\<close>

record 'c PShardMaster = "'c PaxosServer" +
  psmConfigs :: "Config list"

definition psm_StartServer :: "string list \<Rightarrow> nat \<Rightarrow> (string \<Rightarrow> bool) \<Rightarrow> startfail + 'c PShardMaster" where
  "psm_StartServer servers me listen = (case ps_start servers me listen of Inl e \<Rightarrow> Inl e
     | Inr s \<Rightarrow> Inr (PaxosServer.extend s (PShardMaster.fields [zeroConfig])))"

definition psm_Join_handler :: "PJoinArgs \<Rightarrow> 'c PShardMaster \<Rightarrow> 'c PShardMaster" where
  "psm_Join_handler args sm = sm"

definition psm_Leave_handler :: "int \<Rightarrow> 'c PShardMaster \<Rightarrow> 'c PShardMaster" where
  "psm_Leave_handler args sm = sm"

definition psm_Move_handler :: "MoveArgs \<Rightarrow> 'c PShardMaster \<Rightarrow> 'c PShardMaster" where
  "psm_Move_handler args sm = sm"

definition psm_Query_handler :: "QueryArgs \<Rightarrow> Config \<Rightarrow> 'c PShardMaster \<Rightarrow> 'c PShardMaster \<times> Config" where
  "psm_Query_handler args reply sm = (sm, reply)"

definition psm_Kill :: "'c PShardMaster \<Rightarrow> 'c PShardMaster" where
  "psm_Kill = ps_kill"

definition psm_setunreliable :: "bool \<Rightarrow> 'c PShardMaster \<Rightarrow> 'c PShardMaster" where
  "psm_setunreliable = ps_setunreliable"

definition shardmaster_accept :: "'c option \<Rightarrow> nat \<Rightarrow> nat \<Rightarrow> 'c PShardMaster \<Rightarrow> 'c PShardMaster" where
  "shardmaster_accept = ps_accept"

subsection \<open>The sharded key/value server\<close>

record 'c PShardKV = "'c PaxosServer" +
  pskGid :: int
  pskSm :: "string list"

definition pskv_StartServer :: "int \<Rightarrow> string list \<Rightarrow> string list \<Rightarrow> nat \<Rightarrow> (string \<Rightarrow> bool) \<Rightarrow> startfail + 'c PShardKV" where
  "pskv_StartServer gid shardmasters servers me listen = (case ps_start servers me listen of Inl e \<Rightarrow> Inl e
     | Inr s \<Rightarrow> Inr (PaxosServer.extend s (PShardKV.fields gid (psm_MakeClerk shardmasters))))"

definition pskv_Get_handler :: "string \<Rightarrow> PGetReply \<Rightarrow> 'c PShardKV \<Rightarrow> 'c PShardKV \<times> PGetReply" where
  "pskv_Get_handler args reply kv = (kv, reply)"

definition pskv_PutAppend_handler :: "SPutAppendArgs \<Rightarrow> string \<Rightarrow> 'c PShardKV \<Rightarrow> 'c PShardKV \<times> string" where
  "pskv_PutAppend_handler args reply kv = (kv, reply)"

definition pskv_tick :: "'c PShardKV \<Rightarrow> 'c PShardKV" where
  "pskv_tick kv = kv"

definition pskv_kill :: "'c PShardKV \<Rightarrow> 'c PShardKV" where
  "pskv_kill = ps_kill"

definition pskv_Setunreliable :: "bool \<Rightarrow> 'c PShardKV \<Rightarrow> 'c PShardKV" where
  "pskv_Setunreliable = ps_setunreliable"

definition shardkv_accept :: "'c option \<Rightarrow> nat \<Rightarrow> nat \<Rightarrow> 'c PShardKV \<Rightarrow> 'c PShardKV" where
  "shardkv_accept = ps_accept"

subsection \<open>The disk key/value server\<close>

record 'c DisKV = "'c PaxosServer" +
  dkGid :: int
  dkSm :: "string list"
  dkDir :: string

definition dkv_StartServer :: "int \<Rightarrow> string list \<Rightarrow> string list \<Rightarrow> nat \<Rightarrow> string \<Rightarrow> bool \<Rightarrow> (string \<Rightarrow> bool) \<Rightarrow> startfail + 'c DisKV" where
  "dkv_StartServer gid shardmasters servers me dir restart listen = (case ps_start servers me listen of Inl e \<Rightarrow> Inl e
     | Inr s \<Rightarrow> Inr (PaxosServer.extend s (DisKV.fields gid (psm_MakeClerk shardmasters) dir)))"

definition dkv_Get_handler :: "string \<Rightarrow> PGetReply \<Rightarrow> 'c DisKV \<Rightarrow> 'c DisKV \<times> PGetReply" where
  "dkv_Get_handler args reply kv = (kv, reply)"

definition dkv_PutAppend_handler :: "SPutAppendArgs \<Rightarrow> string \<Rightarrow> 'c DisKV \<Rightarrow> 'c DisKV \<times> string" where
  "dkv_PutAppend_handler args reply kv = (kv, reply)"

definition dkv_tick :: "'c DisKV \<Rightarrow> 'c DisKV" where
  "dkv_tick kv = kv"

definition dkv_kill :: "'c DisKV \<Rightarrow> 'c DisKV" where
  "dkv_kill = ps_kill"

definition dkv_Setunreliable :: "bool \<Rightarrow> 'c DisKV \<Rightarrow> 'c DisKV" where
  "dkv_Setunreliable = ps_setunreliable"

definition diskv_accept :: "'c option \<Rightarrow> nat \<Rightarrow> nat \<Rightarrow> 'c DisKV \<Rightarrow> 'c DisKV" where
  "diskv_accept = ps_accept"

section \<open>The view server\<close>

record 'c ViewServer =
  vsRpc :: "'c RpcServer"
  vsMe :: string

definition vs_Ping_handler :: "PingArgs \<Rightarrow> View \<Rightarrow> 'c ViewServer \<Rightarrow> 'c ViewServer \<times> View" where
  "vs_Ping_handler args reply vs = (vs, reply)"

definition vs_Get_handler :: "View \<Rightarrow> 'c ViewServer \<Rightarrow> 'c ViewServer \<times> View" where
  "vs_Get_handler reply vs = (vs, reply)"

definition vs_tick :: "'c ViewServer \<Rightarrow> 'c ViewServer" where
  "vs_tick vs = vs"

definition vs_Kill :: "'c ViewServer \<Rightarrow> 'c ViewServer" where
  "vs_Kill vs = vs\<lparr>vsRpc := rs_kill (vsRpc vs)\<rparr>"

definition GetRPCCount :: "'c ViewServer \<Rightarrow> nat" where
  "GetRPCCount vs = rsCount (vsRpc vs)"

definition vs_StartServer :: "string \<Rightarrow> (string \<Rightarrow> bool) \<Rightarrow> startfail + 'c ViewServer" where
  "vs_StartServer me listen = (if listen me then Inr \<lparr>vsRpc = rs_init, vsMe = me\<rparr> else Inl FatalListen)"

text \<open>The view server is never unreliable and counts every connection it serves.\<close>

definition viewservice_accept :: "'c option \<Rightarrow> 'c ViewServer \<Rightarrow> 'c ViewServer" where
  "viewservice_accept conn vs = (case conn of
     Some c \<Rightarrow> if rsDead (vsRpc vs) = False then vs\<lparr>vsRpc := rs_log c Served True (vsRpc vs)\<rparr>
       else vs\<lparr>vsRpc := rs_log c Refused False (vsRpc vs)\<rparr>
   | None \<Rightarrow> if rsDead (vsRpc vs) = False then vs_Kill vs else vs)"

section \<open>The primary/backup server\<close>

record VClerk =
  vcMe :: string
  vcServer :: string

definition vs_MakeClerk :: "string \<Rightarrow> string \<Rightarrow> VClerk" where
  "vs_MakeClerk me server = \<lparr>vcMe = me, vcServer = server\<rparr>"

record 'c PBServer =
  pbRpc :: "'c RpcServer"
  pbMe :: string
  pbVs :: VClerk

definition pb_StartServer :: "string \<Rightarrow> string \<Rightarrow> (string \<Rightarrow> bool) \<Rightarrow> startfail + 'c PBServer" where
  "pb_StartServer vshost me listen =
     (if listen me then Inr \<lparr>pbRpc = rs_init, pbMe = me, pbVs = vs_MakeClerk me vshost\<rparr> else Inl FatalListen)"

definition pb_Get :: "string \<Rightarrow> PGetReply \<Rightarrow> 'c PBServer \<Rightarrow> 'c PBServer \<times> PGetReply" where
  "pb_Get args reply pb = (pb, reply)"

definition pb_PutAppend :: "string \<times> string \<Rightarrow> string \<Rightarrow> 'c PBServer \<Rightarrow> 'c PBServer \<times> string" where
  "pb_PutAppend args reply pb = (pb, reply)"

definition pb_tick :: "'c PBServer \<Rightarrow> 'c PBServer" where
  "pb_tick pb = pb"

definition pb_kill :: "'c PBServer \<Rightarrow> 'c PBServer" where
  "pb_kill pb = pb\<lparr>pbRpc := rs_kill (pbRpc pb)\<rparr>"

definition pb_setunreliable :: "bool \<Rightarrow> 'c PBServer \<Rightarrow> 'c PBServer" where
  "pb_setunreliable what pb = pb\<lparr>pbRpc := rs_setunreliable what (pbRpc pb)\<rparr>"

definition pbservice_accept :: "'c option \<Rightarrow> nat \<Rightarrow> nat \<Rightarrow> 'c PBServer \<Rightarrow> 'c PBServer" where
  "pbservice_accept conn r1 r2 pb = pb\<lparr>pbRpc := acceptTurn False True conn r1 r2 (pbRpc pb)\<rparr>"

definition pb_MakeClerk :: "string \<Rightarrow> string \<Rightarrow> VClerk" where
  "pb_MakeClerk vshost me = vs_MakeClerk me vshost"

definition pb_clerkGet :: "string \<Rightarrow> VClerk \<Rightarrow> string \<times> VClerk" where
  "pb_clerkGet key ck = (''???'', ck)"

definition pb_clerkPutAppend :: "string \<Rightarrow> string \<Rightarrow> string \<Rightarrow> VClerk \<Rightarrow> VClerk" where
  "pb_clerkPutAppend key val op ck = ck"

section \<open>The interface of a socket server\<close>

text \<open>
  What every one of these servers promises about connections: each accepted connection is dealt
  with once; a server that has been killed stays dead and refuses what it still accepts; one that is
  neither dead nor unreliable serves.
\<close>

datatype 'c srvEvent = Conn "'c option" nat nat | KillServer | Unreliable bool

fun serverRun :: "('c option \<Rightarrow> nat \<Rightarrow> nat \<Rightarrow> 's \<Rightarrow> 's) \<Rightarrow> ('s \<Rightarrow> 's) \<Rightarrow> (bool \<Rightarrow> 's \<Rightarrow> 's) \<Rightarrow> 'c srvEvent list \<Rightarrow> 's \<Rightarrow> 's" where
  "serverRun acc kill unrel [] s = s"
| "serverRun acc kill unrel (ev # evs) s = serverRun acc kill unrel evs
     (case ev of Conn conn r1 r2 \<Rightarrow> acc conn r1 r2 s | KillServer \<Rightarrow> kill s | Unreliable b \<Rightarrow> unrel b s)"

definition connsOf :: "'c srvEvent list \<Rightarrow> 'c list" where
  "connsOf evs = concat (map (\<lambda>ev. case ev of Conn (Some c) _ _ \<Rightarrow> [c] | _ \<Rightarrow> []) evs)"

locale socket_server =
  fixes rpcOf :: "'s \<Rightarrow> 'c RpcServer" and acc :: "'c option \<Rightarrow> nat \<Rightarrow> nat \<Rightarrow> 's \<Rightarrow> 's"
    and kill :: "'s \<Rightarrow> 's" and unrel :: "bool \<Rightarrow> 's \<Rightarrow> 's"
  assumes acc_conn: "\<exists>h. rsConns (rpcOf (acc (Some c) r1 r2 s)) = rsConns (rpcOf s) @ [(c, h)] \<and>
      (rsDead (rpcOf s) \<longrightarrow> h = Refused) \<and> (\<not> rsDead (rpcOf s) \<longrightarrow> \<not> rsUnreliable (rpcOf s) \<longrightarrow> h = Served)"
    and acc_error: "rsConns (rpcOf (acc None r1 r2 s)) = rsConns (rpcOf s)"
    and acc_dead: "rsDead (rpcOf s) \<Longrightarrow> rsDead (rpcOf (acc conn r1 r2 s))"
    and kill_dead: "rsDead (rpcOf (kill s)) \<and> rsConns (rpcOf (kill s)) = rsConns (rpcOf s)"
    and unrel_same: "rsDead (rpcOf (unrel b s)) = rsDead (rpcOf s) \<and> rsConns (rpcOf (unrel b s)) = rsConns (rpcOf s)"
begin

lemma acc_names: "map fst (rsConns (rpcOf (acc (Some c) r1 r2 s))) = map fst (rsConns (rpcOf s)) @ [c]"
  using acc_conn [of c r1 r2 s] by force

lemma acc_refuses: "rsDead (rpcOf s) \<Longrightarrow> rsConns (rpcOf (acc (Some c) r1 r2 s)) = rsConns (rpcOf s) @ [(c, Refused)]"
  using acc_conn [of c r1 r2 s] by force

lemma each_once:
  "map fst (rsConns (rpcOf (serverRun acc kill unrel evs s))) = map fst (rsConns (rpcOf s)) @ connsOf evs"
proof (induction evs arbitrary: s)
  case (Cons ev evs)
  show ?case
  proof (cases ev)
    case (Conn conn r1 r2)
    then show ?thesis using Cons by (cases conn) (simp_all add: acc_error acc_names connsOf_def)
  qed (use Cons in \<open>simp_all add: kill_dead unrel_same connsOf_def\<close>)
qed (simp add: connsOf_def)

lemma dead_refuses:
  "rsDead (rpcOf s) \<Longrightarrow> rsDead (rpcOf (serverRun acc kill unrel evs s)) \<and>
    rsConns (rpcOf (serverRun acc kill unrel evs s)) = rsConns (rpcOf s) @ map (\<lambda>c. (c, Refused)) (connsOf evs)"
proof (induction evs arbitrary: s)
  case (Cons ev evs)
  show ?case
  proof (cases ev)
    case (Conn conn r1 r2)
    then show ?thesis using Cons acc_dead [of s conn r1 r2] by (cases conn) (simp_all add: acc_error acc_refuses connsOf_def)
  qed (use Cons in \<open>simp_all add: kill_dead unrel_same connsOf_def\<close>)
qed (simp add: connsOf_def)

lemma killed_refuses:
  "rsDead (rpcOf (serverRun acc kill unrel (KillServer # evs) s)) \<and>
   rsConns (rpcOf (serverRun acc kill unrel (KillServer # evs) s)) = rsConns (rpcOf s) @ map (\<lambda>c. (c, Refused)) (connsOf evs)"
  using dead_refuses [of "kill s" evs] kill_dead [of s] by simp

end

lemmas rpc_defs = acceptTurn_def rs_log_def rs_kill_def rs_setunreliable_def

interpretation paxos_srv: socket_server pxRpc paxos_accept px_Kill px_setunreliable
  by unfold_locales (auto simp: paxos_accept_def px_Kill_def px_setunreliable_def rpc_defs split: option.splits)

interpretation backed_srv: socket_server srRpc ps_accept ps_kill ps_setunreliable
  by unfold_locales (auto simp: ps_accept_def ps_kill_def ps_setunreliable_def rpc_defs split: option.splits)

interpretation pb_srv: socket_server pbRpc pbservice_accept pb_kill pb_setunreliable
  by unfold_locales (auto simp: pbservice_accept_def pb_kill_def pb_setunreliable_def rpc_defs split: option.splits)

interpretation view_srv: socket_server vsRpc "\<lambda>conn _ _. viewservice_accept conn" vs_Kill "\<lambda>_ vs. vs"
  by unfold_locales (auto simp: viewservice_accept_def vs_Kill_def rpc_defs split: option.splits)

text \<open>Killing a server over Paxos, or an error of its listener, also kills its Paxos peer.\<close>

lemma backed_peer_dies:
  assumes "rsDead (srRpc s) \<longrightarrow> px_isdead (srPx s)"
  shows "rsDead (srRpc (serverRun ps_accept ps_kill ps_setunreliable evs s)) \<longrightarrow>
    px_isdead (srPx (serverRun ps_accept ps_kill ps_setunreliable evs s))"
  using assms
proof (induction evs arbitrary: s)
  case (Cons ev evs)
  show ?case unfolding serverRun.simps
    by (rule Cons.IH) (use Cons.prems in \<open>auto simp: ps_accept_def ps_kill_def ps_setunreliable_def px_Kill_def px_isdead_def rpc_defs
        split: srvEvent.splits option.splits if_splits\<close>)
qed simp

section \<open>Theorems\<close>

text \<open>
  A disk key/value server that was started and runs through any sequence of connections,
  listener errors, switches and kills deals with every connection once; after a kill it refuses them
  all, and then its Paxos peer is dead as well.
\<close>

theorem diskv_server_life:
  assumes "dkv_StartServer gid shardmasters servers me dir restart listen = Inr kv"
  shows "let kv1 = serverRun diskv_accept dkv_kill dkv_Setunreliable evs kv;
             kv2 = serverRun diskv_accept dkv_kill dkv_Setunreliable (KillServer # evs') kv1 in
         map fst (rsConns (srRpc kv1)) = connsOf evs \<and>
         rsConns (srRpc kv2) = rsConns (srRpc kv1) @ map (\<lambda>c. (c, Refused)) (connsOf evs') \<and>
         px_isdead (srPx kv2)"
proof -
  have init: "rsConns (srRpc kv) = []" "\<not> rsDead (srRpc kv)"
    using assms by (auto simp: dkv_StartServer_def ps_start_def px_Make_def listenAt_def rs_init_def PaxosServer.defs split: if_splits sum.splits)
  let ?kv1 = "serverRun ps_accept ps_kill ps_setunreliable evs kv"
  have "rsDead (srRpc (ps_kill ?kv1)) \<longrightarrow> px_isdead (srPx (ps_kill ?kv1))" by (simp add: ps_kill_def px_Kill_def px_isdead_def rs_kill_def)
  from backed_peer_dies [OF this, of evs'] backed_srv.killed_refuses [of evs' ?kv1] backed_srv.each_once [of evs kv] init show ?thesis
    by (simp add: diskv_accept_def dkv_kill_def dkv_Setunreliable_def Let_def)
qed

theorem diskv_server_life_witness:
  "px_isdead (srPx (serverRun diskv_accept dkv_kill dkv_Setunreliable [Conn (Some (1 :: nat)) 0 0, KillServer, Conn (Some (2 :: nat)) 0 0]
     (projr (dkv_StartServer 100 [''m''] [''s''] 0 ''d'' False (\<lambda>_. True)))))"
proof -
  have "dkv_StartServer 100 [''m''] [''s''] 0 ''d'' False (\<lambda>_. True) =
      Inr (projr (dkv_StartServer 100 [''m''] [''s''] 0 ''d'' False (\<lambda>_. True)))"
    by (simp add: dkv_StartServer_def ps_start_def px_Make_def listenAt_def)
  from diskv_server_life [OF this, of "[Conn (Some (1 :: nat)) 0 0]" "[Conn (Some (2 :: nat)) 0 0]"] show ?thesis by (simp add: Let_def)
qed

text \<open>
  Against the Paxos shardmaster of this repository a sharded clerk's and a disk clerk's \<open>Get\<close>
  never return: a query is answered with the zero configuration.
\<close>

lemma psm_Query_result:
  assumes "psm_Query dial send srvs num k = Some (cfg, k')"
  shows "\<exists>j srv. dial j srv \<and> send j srv ''ShardMaster.Query'' \<lparr>qNum = num\<rparr> = Some cfg"
  using rounds_return [OF assms [unfolded psm_Query_def]]
  by (auto simp: judgeAny_def netCall_def split: option.splits if_splits)

lemma paxos_clerks_blocked:
  assumes "\<And>j m args reply. smsend j m ''ShardMaster.Query'' args = Some reply \<Longrightarrow> \<exists>sm. reply = snd (psm_Query_handler args zeroConfig sm)"
  shows "pskv_Get dial send smsend key (pskv_MakeClerk masters) k = None"
    "dkv_Get dial send smsend key (dkv_MakeClerk masters) k = None"
proof -
  have "c = zeroConfig" if "psm_Query dial smsend masters (-1) j = Some (c, k')" for j c k'
    using psm_Query_result [OF that] assms by (auto simp: psm_Query_handler_def)
  then have "groupRounds rpc judgePGet (groupOf key) (psm_Query dial smsend masters (-1)) zeroConfig k = None" for rpc
    by (intro groupRounds_no_group [where P = "\<lambda>c. c = zeroConfig"]) (auto simp: zero_group)
  then show "pskv_Get dial send smsend key (pskv_MakeClerk masters) k = None" "dkv_Get dial send smsend key (dkv_MakeClerk masters) k = None"
    by (simp_all add: pskv_Get_def dkv_Get_def pskv_MakeClerk_def dkv_MakeClerk_def psm_MakeClerk_def)
qed

end
