(* ===== verification/Diskv.thy ===== *)
theory Diskv
  imports Strconv "HOL-Library.AList" "HOL-Library.Char_ord" "HOL-Library.List_Lexorder"
begin

text \<open>
  The file operations of \<open>src/mit/src/diskv/server.go\<close>: each shard is a directory, each key a
  file whose name is the base32 encoding of the key, and a value is replaced by writing a
  temporary file and renaming it. The disk maps a directory's path to its files in order. The calls
  that write and rename may fail or be cut off by a crash; creating a directory is taken to succeed.
\<close>

section \<open>Base32\<close>

fun bitsOf :: "nat \<Rightarrow> nat \<Rightarrow> bool list" where
  "bitsOf 0 k = []"
| "bitsOf (Suc n) k = bitsOf n (k div 2) @ [odd k]"

definition natOfBits :: "bool list \<Rightarrow> nat" where
  "natOfBits bs = foldl (\<lambda>a b. 2 * a + of_bool b) 0 bs"

function chunks :: "nat \<Rightarrow> 'x list \<Rightarrow> 'x list list" where
  "chunks n xs = (if n = 0 \<or> xs = [] then [] else take n xs # chunks n (drop n xs))"
  by auto
termination by (relation "measure (\<lambda>(n, xs). length xs)") auto

declare chunks.simps [simp del]

definition chr32 :: "nat \<Rightarrow> char" where
  "chr32 v = char_of (if v < 26 then 65 + v else 50 + (v - 26))"

definition val32 :: "char \<Rightarrow> nat option" where
  "val32 c = (let n = of_char c in
     if 65 \<le> n \<and> n \<le> 90 then Some (n - 65) else if 50 \<le> n \<and> n \<le> 55 then Some (n - 50 + 26) else None)"

definition group32 :: "bool list \<Rightarrow> char" where
  "group32 g = chr32 (natOfBits (g @ replicate (5 - length g) False))"

definition encodeKey :: "string \<Rightarrow> string" where
  "encodeKey key = (let cs = map group32 (chunks 5 (concat (map (\<lambda>c. bitsOf 8 (of_char c)) key))) in
     cs @ replicate ((8 - length cs mod 8) mod 8) (CHR ''=''))"

text \<open>
  \<open>base32.StdEncoding.DecodeString\<close>: line ends are dropped, then eight characters are read at a
  time. Padding is accepted in the last eight characters only, after two, four, five or seven of
  them; what follows it is not looked at.
\<close>

fun quantum :: "nat \<Rightarrow> string \<Rightarrow> (nat list \<times> string \<times> bool) option" where
  "quantum j [] = (if 8 \<le> j then Some ([], [], False) else None)"
| "quantum j (c # src) =
     (if 8 \<le> j then Some ([], c # src, False)
      else if c = CHR ''='' \<and> 2 \<le> j \<and> length src < 8 then
        (if length src + j < 7 \<or> \<not> list_all (\<lambda>c. c = CHR ''='') (take (7 - j) src) \<or> j \<in> {1, 3, 6} then None
         else Some ([], src, True))
      else case val32 c of None \<Rightarrow> None
        | Some v \<Rightarrow> (case quantum (Suc j) src of None \<Rightarrow> None | Some (vs, rest, final) \<Rightarrow> Some (v # vs, rest, final)))"

lemma quantum_shorter: "quantum j src = Some (vs, rest, final) \<Longrightarrow> j < 8 \<Longrightarrow> length rest < length src"
proof (induction j src arbitrary: vs rule: quantum.induct)
  case (2 j c src)
  show ?case
  proof (cases "8 \<le> Suc j")
    case True
    then show ?thesis using 2(2,3) by (cases src) (auto split: if_splits option.splits)
  next
    case False
    then show ?thesis using 2 by (fastforce split: if_splits option.splits)
  qed
qed simp

function decodeQuanta :: "string \<Rightarrow> nat list option" where
  "decodeQuanta src = (if src = [] then Some []
     else case quantum 0 src of None \<Rightarrow> None
       | Some (vs, rest, final) \<Rightarrow> if final then Some vs
         else (case decodeQuanta rest of None \<Rightarrow> None | Some ws \<Rightarrow> Some (vs @ ws)))"
  by auto
termination by (relation "measure length") (auto dest: quantum_shorter)

declare decodeQuanta.simps [simp del]

definition decodeKey :: "string \<Rightarrow> string option" where
  "decodeKey filename =
     (case decodeQuanta (filter (\<lambda>c. c \<noteq> CHR 0x0A \<and> c \<noteq> CHR 0x0D) filename) of None \<Rightarrow> None
      | Some vs \<Rightarrow> Some (map (\<lambda>g. char_of (natOfBits g))
          (filter (\<lambda>g. length g = 8) (chunks 8 (concat (map (bitsOf 5) vs))))))"

section \<open>Files\<close>

type_synonym dir = "(string \<times> string) list"
type_synonym disk = "string \<rightharpoonup> dir"

datatype diskfail = FatalReadDir | FatalBadName string | FatalFileGet string | PanicSlice

definition shardPath :: "string \<Rightarrow> nat \<Rightarrow> string" where
  "shardPath dirname shard = dirname @ ''/shard-'' @ itoa shard @ ''/''"

text \<open>The path of a shard's directory, which is created if it does not exist.\<close>

definition shardDir :: "string \<Rightarrow> nat \<Rightarrow> disk \<Rightarrow> string \<times> disk" where
  "shardDir dirname shard d = (let p = shardPath dirname shard in
     (p, case d p of None \<Rightarrow> d(p \<mapsto> []) | Some _ \<Rightarrow> d))"

definition readFile :: "string \<Rightarrow> string \<Rightarrow> disk \<Rightarrow> string option" where
  "readFile p name d = (case d p of None \<Rightarrow> None | Some fs \<Rightarrow> map_of fs name)"

definition putFile :: "string \<Rightarrow> string \<Rightarrow> string \<Rightarrow> disk \<Rightarrow> disk" where
  "putFile p name content d = (case d p of None \<Rightarrow> d | Some fs \<Rightarrow> d(p \<mapsto> AList.update name content fs))"

definition moveFile :: "string \<Rightarrow> string \<Rightarrow> string \<Rightarrow> disk \<Rightarrow> disk" where
  "moveFile p old new d = (case d p of None \<Rightarrow> d
     | Some fs \<Rightarrow> (case map_of fs old of None \<Rightarrow> d
       | Some content \<Rightarrow> d(p \<mapsto> AList.update new content (AList.delete old fs))))"

text \<open>
  What becomes of a system call that changes the disk: it is done, it fails, or the machine crashes
  in it; in the last two cases the argument says how far it got. A list gives the outcomes of the
  calls to come; when it is used up, they are done. A sequence of calls ends well, with an error, or
  in the crash.
\<close>

datatype outcome = Done | Fails "nat option" | Crashes "nat option"

datatype status = Ok | Err | Crashed

fun nextOutcome :: "outcome list \<Rightarrow> outcome \<times> outcome list" where
  "nextOutcome [] = (Done, [])"
| "nextOutcome (oc # ocs) = (oc, ocs)"

text \<open>
  \<open>ioutil.WriteFile\<close> creates or truncates the file and then writes: interrupted, it has done nothing
  or left the file with a prefix of the content.
\<close>

definition writePart :: "nat option \<Rightarrow> string \<Rightarrow> string \<Rightarrow> string \<Rightarrow> disk \<Rightarrow> disk" where
  "writePart n p name content d = (case n of None \<Rightarrow> d | Some n \<Rightarrow> putFile p name (take n content) d)"

definition writeFile :: "string \<Rightarrow> string \<Rightarrow> string \<Rightarrow> outcome list \<Rightarrow> disk \<Rightarrow> status \<times> outcome list \<times> disk" where
  "writeFile p name content ocs d = (case nextOutcome ocs of
     (Done, ocs) \<Rightarrow> (if d p = None then Err else Ok, ocs, putFile p name content d)
   | (Fails n, ocs) \<Rightarrow> (Err, ocs, writePart n p name content d)
   | (Crashes n, ocs) \<Rightarrow> (Crashed, ocs, writePart n p name content d))"

text \<open>\<open>os.Rename\<close> is atomic: interrupted by a crash, it has been done or not.\<close>

definition rename :: "string \<Rightarrow> string \<Rightarrow> string \<Rightarrow> outcome list \<Rightarrow> disk \<Rightarrow> status \<times> outcome list \<times> disk" where
  "rename p old new ocs d = (case nextOutcome ocs of
     (Done, ocs) \<Rightarrow> (if readFile p old d = None then Err else Ok, ocs, moveFile p old new d)
   | (Fails _, ocs) \<Rightarrow> (Err, ocs, d)
   | (Crashes n, ocs) \<Rightarrow> (Crashed, ocs, if n = None then d else moveFile p old new d))"

definition fileGet :: "string \<Rightarrow> nat \<Rightarrow> string \<Rightarrow> disk \<Rightarrow> string option \<times> disk" where
  "fileGet dirname shard key d = (case shardDir dirname shard d of (p, d) \<Rightarrow> (readFile p (''key-'' @ encodeKey key) d, d))"

definition filePut :: "string \<Rightarrow> nat \<Rightarrow> string \<Rightarrow> string \<Rightarrow> outcome list \<Rightarrow> disk \<Rightarrow> status \<times> outcome list \<times> disk" where
  "filePut dirname shard key content ocs d =
     (case shardDir dirname shard d of (p, d) \<Rightarrow>
        let fullname = ''key-'' @ encodeKey key; tempname = ''temp-'' @ encodeKey key in
        case writeFile p tempname content ocs d of
          (Ok, ocs, d) \<Rightarrow> rename p tempname fullname ocs d
        | r \<Rightarrow> r)"

fun readNames :: "string \<Rightarrow> nat \<Rightarrow> string list \<Rightarrow> disk \<Rightarrow> (string \<rightharpoonup> string) \<Rightarrow> diskfail + (string \<rightharpoonup> string)" where
  "readNames dirname shard [] d m = Inr m"
| "readNames dirname shard (n1 # ns) d m =
     (if length n1 < 4 then Inl PanicSlice
      else if take 4 n1 = ''key-'' then
        (case decodeKey (drop 4 n1) of None \<Rightarrow> Inl (FatalBadName n1)
         | Some key \<Rightarrow> (case fileGet dirname shard key d of
             (None, _) \<Rightarrow> Inl (FatalFileGet key)
           | (Some content, d) \<Rightarrow> readNames dirname shard ns d (m(key \<mapsto> content))))
      else readNames dirname shard ns d m)"

definition fileReadShard :: "string \<Rightarrow> nat \<Rightarrow> disk \<Rightarrow> diskfail + (string \<rightharpoonup> string)" where
  "fileReadShard dirname shard d = (case shardDir dirname shard d of (p, d) \<Rightarrow>
     (case d p of None \<Rightarrow> Inl FatalReadDir | Some fs \<Rightarrow> readNames dirname shard (sort (map fst fs)) d Map.empty))"

text \<open>The results of the puts are ignored; only a crash ends the loop.\<close>

fun filePuts :: "string \<Rightarrow> nat \<Rightarrow> (string \<times> string) list \<Rightarrow> outcome list \<Rightarrow> disk \<Rightarrow> outcome list \<times> disk" where
  "filePuts dirname shard [] ocs d = (ocs, d)"
| "filePuts dirname shard ((k, v) # m) ocs d = (case filePut dirname shard k v ocs d of
     (Crashed, ocs, d) \<Rightarrow> (ocs, d)
   | (_, ocs, d) \<Rightarrow> filePuts dirname shard m ocs d)"

definition fileReplaceShard :: "string \<Rightarrow> nat \<Rightarrow> (string \<times> string) list \<Rightarrow> outcome list \<Rightarrow> disk \<Rightarrow> outcome list \<times> disk" where
  "fileReplaceShard dirname shard m ocs d = (case shardDir dirname shard d of (p, d) \<Rightarrow>
     filePuts dirname shard m ocs (d(p := None)))"

section \<open>Bits\<close>

lemma length_bitsOf [simp]: "length (bitsOf n k) = n"
  by (induction n arbitrary: k) auto

lemma natOfBits_snoc: "natOfBits (bs @ [b]) = 2 * natOfBits bs + of_bool b"
  by (simp add: natOfBits_def)

lemma natOfBits_bitsOf: "k < 2 ^ n \<Longrightarrow> natOfBits (bitsOf n k) = k"
proof (induction n arbitrary: k)
  case (Suc n)
  then have "k div 2 < 2 ^ n" by (simp add: less_mult_imp_div_less mult.commute)
  from Suc.IH [OF this] have "natOfBits (bitsOf (Suc n) k) = 2 * (k div 2) + of_bool (odd k)"
    by (simp only: bitsOf.simps natOfBits_snoc)
  also have "\<dots> = k" by (cases "odd k") auto
  finally show ?case .
qed (simp add: natOfBits_def)

lemma bitsOf_natOfBits: "bitsOf (length bs) (natOfBits bs) = bs"
  by (induction bs rule: rev_induct) (auto simp: natOfBits_snoc)

lemma natOfBits_less: "natOfBits bs < 2 ^ length bs"
  by (induction bs rule: rev_induct) (auto simp: natOfBits_snoc natOfBits_def)

section \<open>Groups\<close>

lemma length_chunks: "0 < n \<Longrightarrow> length (chunks n xs) = (length xs + (n - 1)) div n"
proof (induction n xs rule: chunks.induct)
  case (1 n xs)
  show ?case
  proof (cases "xs = []")
    case True
    then show ?thesis using 1(2) by (simp add: chunks.simps)
  next
    case False
    then have "length (chunks n xs) = Suc ((length xs - n + (n - 1)) div n)"
      using 1 by (subst chunks.simps) simp
    also have "\<dots> = (length xs + (n - 1)) div n"
    proof (cases "n \<le> length xs")
      case True
      then have e: "length xs + (n - 1) = (length xs - n + (n - 1)) + n" by simp
      show ?thesis unfolding e using 1(2) by (subst div_add_self2) simp_all
    next
      case short: False
      have "(length xs - n + (n - 1)) div n = 0" using short 1(2) by simp
      moreover have "(length xs + (n - 1)) div n = 1" using short False 1(2)
        by (intro div_nat_eqI) (auto simp: Suc_le_eq [symmetric] neq_Nil_conv)
      ultimately show ?thesis by simp
    qed
    finally show ?thesis .
  qed
qed

lemma chunks_size: "g \<in> set (chunks n xs) \<Longrightarrow> length g \<le> n"
proof (induction n xs rule: chunks.induct)
  case (1 n xs)
  then show ?case by (subst (asm) chunks.simps) (auto split: if_splits)
qed

lemma chunks_concat: "0 < n \<Longrightarrow> (\<And>g. g \<in> set gs \<Longrightarrow> length g = n) \<Longrightarrow> chunks n (concat gs @ r) = gs @ chunks n r"
proof (induction gs)
  case (Cons g gs)
  have "length g = n" using Cons.prems by simp
  then have "chunks n (concat (g # gs) @ r) = g # chunks n (concat gs @ r)"
    using Cons.prems(1) by (subst chunks.simps) auto
  then show ?case using Cons by simp
qed simp

lemma chunks_short: "length xs < n \<Longrightarrow> chunks n xs = (if xs = [] then [] else [xs])"
  by (subst chunks.simps, subst chunks.simps) auto

text \<open>Padding the groups of five pads the whole with fewer than five zeros.\<close>

lemma padded_groups:
  "\<exists>z < 5. concat (map (\<lambda>g. g @ replicate (5 - length g) False) (chunks 5 bs)) = bs @ replicate z False"
proof (induction "length bs" arbitrary: bs rule: less_induct)
  case less
  show ?case
  proof (cases "length bs < 5")
    case True
    then show ?thesis by (cases "bs = []") (auto simp: chunks_short intro: exI [of _ "5 - length bs"])
  next
    case False
    then have c: "chunks 5 bs = take 5 bs # chunks 5 (drop 5 bs)" by (subst chunks.simps) auto
    have "length (drop 5 bs) < length bs" using False by simp
    from less [OF this] obtain z where
      "z < 5" "concat (map (\<lambda>g. g @ replicate (5 - length g) False) (chunks 5 (drop 5 bs))) = drop 5 bs @ replicate z False"
      by blast
    then show ?thesis using False c by (intro exI [of _ z]) (simp add: min_def flip: append_assoc)
  qed
qed

lemma val32_chr32: "v < 32 \<Longrightarrow> val32 (chr32 v) = Some v \<and> chr32 v \<noteq> CHR ''=''"
proof -
  assume v: "v < 32"
  have "of_char (chr32 v) = (if v < 26 then 65 + v else 50 + (v - 26))" using v by (simp add: chr32_def)
  then have "val32 (chr32 v) = Some v" "of_char (chr32 v) \<noteq> (61 :: nat)" using v by (auto simp: val32_def Let_def)
  then show ?thesis by auto
qed

lemma group32_val: "length g \<le> 5 \<Longrightarrow> val32 (group32 g) = Some (natOfBits (g @ replicate (5 - length g) False)) \<and> group32 g \<noteq> CHR ''=''"
  using val32_chr32 [of "natOfBits (g @ replicate (5 - length g) False)"] natOfBits_less [of "g @ replicate (5 - length g) False"]
  by (simp add: group32_def)

fun values32 :: "string \<Rightarrow> nat list option" where
  "values32 [] = Some []"
| "values32 (c # cs) = (case val32 c of None \<Rightarrow> None
     | Some v \<Rightarrow> (case values32 cs of None \<Rightarrow> None | Some vs \<Rightarrow> Some (v # vs)))"

lemma values32_groups:
  "(\<And>g. g \<in> set gs \<Longrightarrow> length g \<le> 5) \<Longrightarrow>
     values32 (map group32 gs) = Some (map (\<lambda>g. natOfBits (g @ replicate (5 - length g) False)) gs)"
proof (induction gs)
  case (Cons g gs)
  then show ?case using group32_val [of g] by simp
qed simp

lemma encoded_bits:
  "length g \<le> 5 \<Longrightarrow> bitsOf 5 (natOfBits (g @ replicate (5 - length g) False)) = g @ replicate (5 - length g) False"
  using bitsOf_natOfBits [of "g @ replicate (5 - length g) False"] by simp

lemma padding_count: "(8 - (8 * n + 4) div 5 mod 8) mod 8 \<in> {0, 1, 3, 4, 6 :: nat}"
proof -
  define q r where "q = n div 5" and "r = n mod 5"
  then have "n = 5 * q + r" "r < 5" by simp_all
  then have e: "8 * n + 4 = (8 * r + 4) + (8 * q) * 5" by simp
  have "(8 * n + 4) div 5 = 8 * q + (8 * r + 4) div 5" unfolding e by (subst div_mult_self1) simp_all
  then have "(8 * n + 4) div 5 mod 8 = (8 * r + 4) div 5 mod 8" by simp
  moreover have "r = 0 \<or> r = 1 \<or> r = 2 \<or> r = 3 \<or> r = 4" using \<open>r < 5\<close> by linarith
  ultimately show ?thesis by auto
qed

lemma padded_length: "(l + (8 - l mod 8) mod 8) mod 8 = (0 :: nat)"
proof (cases "l mod 8 = 0")
  case False
  then have "(8 - l mod 8) mod 8 = 8 - l mod 8" by simp
  then have "(l + (8 - l mod 8) mod 8) mod 8 = (l mod 8 + (8 - l mod 8)) mod 8" by (metis mod_add_left_eq)
  also have "l mod 8 + (8 - l mod 8) = 8" by (simp add: less_imp_le)
  finally show ?thesis by simp
qed simp

lemma quantum_full:
  "values32 xs = Some vs \<Longrightarrow> CHR ''='' \<notin> set xs \<Longrightarrow> length xs + j = 8 \<Longrightarrow> quantum j (xs @ r) = Some (vs, r, False)"
proof (induction xs arbitrary: j vs)
  case Nil
  then show ?case by (cases r) auto
next
  case (Cons c xs)
  then obtain v ws where "val32 c = Some v" "values32 xs = Some ws" "vs = v # ws" by (auto split: option.splits)
  then show ?case using Cons.IH [of ws "Suc j"] Cons.prems by auto
qed

lemma quantum_padded:
  "values32 xs = Some vs \<Longrightarrow> CHR ''='' \<notin> set xs \<Longrightarrow> length xs + j + n = 8 \<Longrightarrow> n \<in> {1, 3, 4, 6} \<Longrightarrow>
     quantum j (xs @ replicate n (CHR ''='')) = Some (vs, replicate (n - 1) (CHR ''=''), True)"
proof (induction xs arbitrary: j vs)
  case Nil
  then show ?case by (cases n) (auto simp: list_all_iff dest: in_set_takeD)
next
  case (Cons c xs)
  then obtain v ws where "val32 c = Some v" "values32 xs = Some ws" "vs = v # ws" by (auto split: option.splits)
  then show ?case using Cons.IH [of ws "Suc j"] Cons.prems by auto
qed

lemma values32_append: "values32 (xs @ ys) = Some vs \<Longrightarrow> \<exists>us ws. values32 xs = Some us \<and> values32 ys = Some ws \<and> vs = us @ ws"
proof (induction xs arbitrary: vs)
  case (Cons c xs)
  then obtain v ws where "val32 c = Some v" "values32 (xs @ ys) = Some ws" "vs = v # ws" by (auto split: option.splits)
  with Cons.IH show ?case by fastforce
qed simp

lemma decodeQuanta_padded:
  "values32 xs = Some vs \<Longrightarrow> CHR ''='' \<notin> set xs \<Longrightarrow> (length xs + n) mod 8 = 0 \<Longrightarrow> n \<in> {0, 1, 3, 4, 6} \<Longrightarrow>
     decodeQuanta (xs @ replicate n (CHR ''='')) = Some vs"
proof (induction xs arbitrary: vs rule: length_induct)
  case (1 xs)
  show ?case
  proof (cases "length xs < 8")
    case True
    then have "xs = [] \<and> n = 0 \<or> length xs + n = 8 \<and> n \<in> {1, 3, 4, 6}" using 1(4,5) by auto presburger+
    then show ?thesis using 1(2) quantum_padded [OF 1(2,3), of 0 n] by (auto simp: decodeQuanta.simps)
  next
    case False
    then obtain us ws where w: "values32 (take 8 xs) = Some us" "values32 (drop 8 xs) = Some ws" "vs = us @ ws"
      using values32_append [of "take 8 xs" "drop 8 xs"] 1(2) by auto
    have "(length (drop 8 xs) + n) mod 8 = 0"
    proof -
      have "length xs + n = (length (drop 8 xs) + n) + 8" using False by simp
      then show ?thesis using 1(4) by (metis mod_add_self2)
    qed
    moreover have "CHR ''='' \<notin> set (drop 8 xs)" using 1(3) by (auto dest: in_set_dropD)
    moreover have "length (drop 8 xs) < length xs" using False by simp
    ultimately have "decodeQuanta (drop 8 xs @ replicate n (CHR ''='')) = Some ws"
      by (intro 1(1) [rule_format] w(2) 1(5))
    moreover have "quantum 0 (take 8 xs @ drop 8 xs @ replicate n (CHR ''='')) = Some (us, drop 8 xs @ replicate n (CHR ''=''), False)"
      using False 1(3) w(1) by (intro quantum_full) (auto dest: in_set_takeD)
    ultimately show ?thesis using False w(3) by (subst decodeQuanta.simps) (auto simp flip: append_assoc)
  qed
qed

lemma values32_alphabet: "values32 xs = Some vs \<Longrightarrow> c \<in> set xs \<Longrightarrow> val32 c \<noteq> None"
  by (induction xs arbitrary: vs) (auto split: option.splits)

lemma decodeKey_body:
  assumes "length (body @ replicate n (CHR ''='')) mod 8 = 0" "n \<in> {0, 1, 3, 4, 6}" "values32 body = Some vs"
  shows "decodeKey (body @ replicate n (CHR ''='')) =
    Some (map (\<lambda>g. char_of (natOfBits g)) (filter (\<lambda>g. length g = 8) (chunks 8 (concat (map (bitsOf 5) vs)))))"
proof -
  have outside: "val32 (CHR ''='') = None" "val32 (CHR 0x0A) = None" "val32 (CHR 0x0D) = None" by (simp_all add: val32_def)
  then have "filter (\<lambda>c. c \<noteq> CHR 0x0A \<and> c \<noteq> CHR 0x0D) (body @ replicate n (CHR ''='')) = body @ replicate n (CHR ''='')"
    using values32_alphabet [OF assms(3), of "CHR 0x0A"] values32_alphabet [OF assms(3), of "CHR 0x0D"]
    by (subst filter_id_conv) auto
  moreover have "CHR ''='' \<notin> set body" using values32_alphabet [OF assms(3), of "CHR ''=''"] outside(1) by auto
  ultimately show ?thesis using decodeQuanta_padded [OF assms(3) _ _ assms(2)] assms(1) by (simp add: decodeKey_def)
qed

lemma decode_encode: "decodeKey (encodeKey key) = Some key"
proof -
  let ?bs = "concat (map (\<lambda>c. bitsOf 8 (of_char c)) key)"
  let ?gs = "chunks 5 ?bs"
  let ?cs = "map group32 ?gs"
  let ?pad = "replicate ((8 - length ?cs mod 8) mod 8) (CHR ''='')"
  have len: "length ?cs = (8 * length key + 4) div 5"
  proof -
    have "length ?bs = 8 * length key" by (induction key) auto
    then show ?thesis by (simp add: length_chunks)
  qed
  have ok: "length (?cs @ ?pad) mod 8 = 0" "length ?pad \<in> {0, 1, 3, 4, 6}"
    using padding_count [of "length key"] padded_length [of "length ?cs"] len
    by (simp_all only: length_append length_replicate)
  have vals: "values32 ?cs = Some (map (\<lambda>g. natOfBits (g @ replicate (5 - length g) False)) ?gs)"
    by (rule values32_groups) (rule chunks_size)
  obtain z where z: "z < 5" "concat (map (\<lambda>g. g @ replicate (5 - length g) False) ?gs) = ?bs @ replicate z False"
    using padded_groups by blast
  have bits: "concat (map (bitsOf 5) (map (\<lambda>g. natOfBits (g @ replicate (5 - length g) False)) ?gs)) = ?bs @ replicate z False"
    unfolding z(2) [symmetric] map_map comp_def using encoded_bits chunks_size by (intro arg_cong [of _ _ concat] map_cong) auto
  have "chunks 8 (?bs @ replicate z False) = map (\<lambda>c. bitsOf 8 (of_char c)) key @ chunks 8 (replicate z False)"
    by (rule chunks_concat) auto
  moreover have "filter (\<lambda>g. length g = 8) (chunks 8 (replicate z False)) = []" using z(1) by (simp add: chunks_short)
  ultimately have "map (\<lambda>g. char_of (natOfBits g)) (filter (\<lambda>g. length g = 8) (chunks 8 (?bs @ replicate z False))) = key"
    by (simp add: natOfBits_bitsOf o_def filter_map)
  then have "decodeKey (?cs @ ?pad) = Some key"
    using decodeKey_body [OF ok(1) _ vals] ok(2) unfolding bits by (simp only: length_replicate)
  then show ?thesis by (simp only: encodeKey_def Let_def)
qed

lemma encodeKey_inject [simp]: "encodeKey k = encodeKey k' \<longleftrightarrow> k = k'"
  using decode_encode by (metis option.inject)

section \<open>One file operation\<close>

lemma shardPath_inject [simp]: "shardPath dirname s = shardPath dirname s' \<longleftrightarrow> s = s'"
  by (simp add: shardPath_def)

text \<open>What a read of a key finds on the disk.\<close>

definition stored :: "string \<Rightarrow> disk \<Rightarrow> nat \<Rightarrow> string \<Rightarrow> string option" where
  "stored dirname d shard key = fst (fileGet dirname shard key d)"

lemma stored_file: "stored dirname d shard key = readFile (shardPath dirname shard) (''key-'' @ encodeKey key) d"
  by (auto simp: stored_def fileGet_def shardDir_def readFile_def Let_def split: option.splits)

lemma readFile_write:
  "d p \<noteq> None \<Longrightarrow> readFile p' nm' (putFile p nm c d) = (if p' = p \<and> nm' = nm then Some c else readFile p' nm' d)"
  by (auto simp: readFile_def putFile_def update_conv' split: option.splits)

lemma readFile_rename:
  "readFile p old d = Some c \<Longrightarrow> old \<noteq> new \<Longrightarrow> readFile p' nm' (moveFile p old new d) =
     (if p' = p \<and> nm' = new then Some c else if p' = p \<and> nm' = old then None else readFile p' nm' d)"
  by (auto simp: readFile_def moveFile_def update_conv' delete_conv' split: option.splits)

lemma shardDir_exists: "snd (shardDir dirname shard d) (shardPath dirname shard) \<noteq> None"
  by (auto simp: shardDir_def Let_def split: option.splits)

lemma readFile_shardDir [simp]: "readFile p nm (snd (shardDir dirname shard d)) = readFile p nm d"
  by (auto simp: shardDir_def readFile_def Let_def split: option.splits)

lemma shardDir_path: "shardDir dirname shard d = (shardPath dirname shard, snd (shardDir dirname shard d))"
  by (simp add: shardDir_def Let_def)

lemma readFile_write_shard:
  "readFile p nm' (putFile (shardPath dirname shard) nm c (snd (shardDir dirname shard d))) =
     (if p = shardPath dirname shard \<and> nm' = nm then Some c else readFile p nm' d)"
  using readFile_write [of "snd (shardDir dirname shard d)" "shardPath dirname shard"] shardDir_exists by simp

lemma putFile_exists: "d p \<noteq> None \<Longrightarrow> putFile p' nm c d p \<noteq> None"
  by (auto simp: putFile_def split: option.splits)

lemma writeFile_done: "d p \<noteq> None \<Longrightarrow> nextOutcome ocs = (Done, ocs1) \<Longrightarrow> writeFile p nm c ocs d = (Ok, ocs1, putFile p nm c d)"
  by (simp add: writeFile_def)

lemma rename_done: "readFile p old d \<noteq> None \<Longrightarrow> nextOutcome ocs = (Done, ocs1) \<Longrightarrow> rename p old new ocs d = (Ok, ocs1, moveFile p old new d)"
  by (simp add: rename_def)

text \<open>
  What a put can leave: its temporary file in any state and the key's file as it was, or the key's
  file replaced.
\<close>

lemma filePut_cases:
  obtains (old) n where "fst (filePut dirname shard key content ocs d) \<noteq> Ok"
      "snd (snd (filePut dirname shard key content ocs d)) =
         writePart n (shardPath dirname shard) (''temp-'' @ encodeKey key) content (snd (shardDir dirname shard d))"
  | (new) "fst (filePut dirname shard key content ocs d) \<noteq> Err"
      "snd (snd (filePut dirname shard key content ocs d)) =
         moveFile (shardPath dirname shard) (''temp-'' @ encodeKey key) (''key-'' @ encodeKey key)
           (putFile (shardPath dirname shard) (''temp-'' @ encodeKey key) content (snd (shardDir dirname shard d)))"
proof -
  let ?p = "shardPath dirname shard" and ?d = "snd (shardDir dirname shard d)" and ?t = "''temp-'' @ encodeKey key" and ?k = "''key-'' @ encodeKey key"
  let ?put = "filePut dirname shard key content ocs d"
  have whole: "putFile ?p ?t content ?d = writePart (Some (length content)) ?p ?t content ?d" by (simp add: writePart_def)
  have there: "?d ?p \<noteq> None" by (rule shardDir_exists)
  obtain oc ocs1 where o1: "nextOutcome ocs = (oc, ocs1)" by force
  have put: "?put = (case writeFile ?p ?t content ocs ?d of (Ok, ocs, d) \<Rightarrow> rename ?p ?t ?k ocs d | r \<Rightarrow> r)"
    unfolding filePut_def by (subst shardDir_path) (simp only: Let_def prod.case)
  show thesis
  proof (cases oc)
    case Done
    obtain oc2 ocs2 where o2: "nextOutcome ocs1 = (oc2, ocs2)" by force
    have "?put = rename ?p ?t ?k ocs1 (putFile ?p ?t content ?d)" using there unfolding put by (simp add: writeFile_done o1 Done)
    moreover have "readFile ?p ?t (putFile ?p ?t content ?d) \<noteq> None" by (simp add: readFile_write_shard)
    ultimately show thesis using old [of "Some (length content)"] new unfolding whole
      by (cases oc2) (auto simp: rename_def o2 split: if_splits)
  qed (use old in \<open>simp_all add: put writeFile_def o1\<close>)
qed

lemma stored_writePart:
  "stored dirname (writePart n (shardPath dirname shard) (''temp-'' @ encodeKey key) content (snd (shardDir dirname shard d))) s k = stored dirname d s k"
  by (simp add: stored_file writePart_def readFile_write_shard split: option.splits)

lemma stored_moved:
  "stored dirname (moveFile (shardPath dirname shard) (''temp-'' @ encodeKey key) (''key-'' @ encodeKey key)
     (putFile (shardPath dirname shard) (''temp-'' @ encodeKey key) content (snd (shardDir dirname shard d)))) s k =
     (if s = shard \<and> k = key then Some content else stored dirname d s k)"
proof -
  have "readFile (shardPath dirname shard) (''temp-'' @ encodeKey key)
      (putFile (shardPath dirname shard) (''temp-'' @ encodeKey key) content (snd (shardDir dirname shard d))) = Some content"
    by (simp add: readFile_write_shard)
  then show ?thesis unfolding stored_file by (simp add: readFile_rename readFile_write_shard)
qed

lemma stored_filePut:
  "stored dirname (snd (snd (filePut dirname shard key content ocs d))) = stored dirname d \<and> fst (filePut dirname shard key content ocs d) \<noteq> Ok \<or>
   stored dirname (snd (snd (filePut dirname shard key content ocs d))) =
     (\<lambda>s k. if s = shard \<and> k = key then Some content else stored dirname d s k) \<and> fst (filePut dirname shard key content ocs d) \<noteq> Err"
proof (cases rule: filePut_cases [of dirname shard key content ocs d])
  case (old n)
  have "stored dirname (snd (snd (filePut dirname shard key content ocs d))) = stored dirname d"
    unfolding old(2) by (intro ext) (rule stored_writePart)
  then show ?thesis using old(1) by blast
next
  case new
  have "stored dirname (snd (snd (filePut dirname shard key content ocs d))) = (\<lambda>s k. if s = shard \<and> k = key then Some content else stored dirname d s k)"
    unfolding new(2) by (intro ext) (rule stored_moved)
  then show ?thesis using new(1) by blast
qed

text \<open>A crash before the renaming leaves the key's file as it was.\<close>

fun cutBefore :: "outcome list \<Rightarrow> bool" where
  "cutBefore (Crashes _ # _) = True"
| "cutBefore (Done # Crashes None # _) = True"
| "cutBefore _ = False"

lemma stored_cutBefore:
  assumes "cutBefore ocs"
  shows "stored dirname (snd (snd (filePut dirname shard key content ocs d))) s k = stored dirname d s k"
proof -
  let ?p = "shardPath dirname shard" and ?d = "snd (shardDir dirname shard d)" and ?t = "''temp-'' @ encodeKey key"
  have there: "?d ?p \<noteq> None" by (rule shardDir_exists)
  have "\<exists>n. snd (snd (filePut dirname shard key content ocs d)) = writePart n ?p ?t content ?d"
    using assms
  proof (cases ocs rule: cutBefore.cases)
    case (1 n rest)
    then show ?thesis unfolding filePut_def by (subst shardDir_path) (auto simp: Let_def writeFile_def)
  next
    case (2 rest)
    then show ?thesis unfolding filePut_def using there
      by (subst shardDir_path) (auto simp: Let_def writeFile_def rename_def writePart_def intro!: exI [of _ "Some (length content)"])
  qed auto
  then show ?thesis using stored_writePart by metis
qed

text \<open>Without failures and crashes, a put succeeds.\<close>

lemma filePut_done: "\<exists>d'. filePut dirname shard key content [] d = (Ok, [], d')"
proof -
  let ?p = "shardPath dirname shard" and ?d = "snd (shardDir dirname shard d)" and ?t = "''temp-'' @ encodeKey key"
  have "?d ?p \<noteq> None" by (rule shardDir_exists)
  moreover have "readFile ?p ?t (putFile ?p ?t content ?d) \<noteq> None" by (simp add: readFile_write_shard)
  ultimately show ?thesis unfolding filePut_def by (subst shardDir_path) (simp add: Let_def writeFile_done rename_done)
qed

abbreviation putDone :: "string \<Rightarrow> nat \<Rightarrow> string \<Rightarrow> string \<Rightarrow> disk \<Rightarrow> disk" where
  "putDone dirname shard key content d \<equiv> snd (snd (filePut dirname shard key content [] d))"

lemma stored_putDone:
  "stored dirname (putDone dirname shard key content d) s k = (if s = shard \<and> k = key then Some content else stored dirname d s k)"
  using stored_filePut [of dirname shard key content "[]" d] filePut_done [of dirname shard key content d] by auto

lemma filePuts_done: "filePuts dirname shard m [] d = ([], fold (\<lambda>(k, v). putDone dirname shard k v) m d)"
proof (induction m arbitrary: d)
  case (Cons kv m)
  obtain k v where kv: "kv = (k, v)" by force
  obtain d' where "filePut dirname shard k v [] d = (Ok, [], d')" using filePut_done by blast
  then show ?case using Cons kv by simp
qed simp

section \<open>A shard's directory\<close>

text \<open>Every file of the directory is a key's file or a temporary one.\<close>

definition shardFile :: "string \<Rightarrow> bool" where
  "shardFile n \<longleftrightarrow> (\<exists>k. n = ''key-'' @ encodeKey k \<or> n = ''temp-'' @ encodeKey k)"

definition cleanDir :: "string \<Rightarrow> nat \<Rightarrow> disk \<Rightarrow> bool" where
  "cleanDir dirname shard d = (case d (shardPath dirname shard) of None \<Rightarrow> True
     | Some fs \<Rightarrow> fst ` set fs \<subseteq> Collect shardFile)"

lemma update_names: "fst ` set (AList.update k v al) = insert k (fst ` set al)"
  using dom_update [of k v al] by (simp add: dom_map_of_conv_image_fst)

lemma delete_names: "fst ` set (AList.delete k al) \<subseteq> fst ` set al"
  by (auto simp: AList.delete_eq)

lemma cleanDir_shardDir [simp]: "cleanDir dirname s (snd (shardDir dirname shard d)) = cleanDir dirname s d"
  by (auto simp: cleanDir_def shardDir_def Let_def split: option.splits)

lemma cleanDir_write: "cleanDir dirname s d \<Longrightarrow> shardFile nm \<Longrightarrow> cleanDir dirname s (putFile p nm c d)"
  unfolding cleanDir_def putFile_def
  by (cases "d p"; cases "shardPath dirname s = p") (simp_all add: update_names)

lemma cleanDir_rename:
  assumes "cleanDir dirname s d" "shardFile new"
  shows "cleanDir dirname s (moveFile p old new d)"
proof (cases "readFile p old d")
  case None
  then have "moveFile p old new d = d" by (auto simp: readFile_def moveFile_def split: option.splits)
  then show ?thesis using assms(1) by simp
next
  case (Some c)
  then obtain fs where fs: "d p = Some fs" "moveFile p old new d = d(p \<mapsto> AList.update new c (AList.delete old fs))"
    by (auto simp: readFile_def moveFile_def split: option.splits)
  show ?thesis
  proof (cases "shardPath dirname s = p")
    case True
    then have "fst ` set (AList.delete old fs) \<subseteq> Collect shardFile"
      using assms(1) fs(1) subset_trans [OF delete_names] by (simp add: cleanDir_def)
    then show ?thesis using True fs(2) assms(2) by (simp add: cleanDir_def update_names)
  next
    case False
    then show ?thesis using assms(1) fs(2) by (simp add: cleanDir_def)
  qed
qed

lemma shardFile_names [simp, intro]: "shardFile (''key-'' @ encodeKey k)" "shardFile (''temp-'' @ encodeKey k)"
  by (auto simp: shardFile_def)

lemma cleanDir_filePut:
  assumes "cleanDir dirname s d"
  shows "cleanDir dirname s (snd (snd (filePut dirname shard key content ocs d)))"
proof -
  have "cleanDir dirname s (snd (shardDir dirname shard d))" using assms by simp
  note c = this cleanDir_write [OF this shardFile_names(2)]
  show ?thesis by (rule filePut_cases [of dirname shard key content ocs d])
    (use c cleanDir_rename [OF c(2) shardFile_names(1)] in \<open>auto simp: writePart_def split: option.splits\<close>)
qed

lemma readNames_clean:
  assumes "\<forall>n \<in> set ns. \<exists>k. n = ''key-'' @ encodeKey k \<and> stored dirname d shard k \<noteq> None \<or> n = ''temp-'' @ encodeKey k"
    and "snd (shardDir dirname shard d) = d"
  shows "\<exists>m'. readNames dirname shard ns d m = Inr m' \<and>
    (\<forall>k. m' k = (if ''key-'' @ encodeKey k \<in> set ns then stored dirname d shard k else m k))"
  using assms(1)
proof (induction ns arbitrary: m)
  case (Cons n ns)
  then consider k where "n = ''key-'' @ encodeKey k" "stored dirname d shard k \<noteq> None" | k where "n = ''temp-'' @ encodeKey k" by auto
  then show ?case
  proof cases
    case (1 k)
    then obtain c where c: "fileGet dirname shard k d = (Some c, d)" "stored dirname d shard k = Some c"
      using assms(2) by (auto simp: stored_def fileGet_def split: prod.splits)
    then have e: "readNames dirname shard (n # ns) d m = readNames dirname shard ns d (m(k \<mapsto> c))"
      using 1 by (simp add: decode_encode)
    show ?thesis unfolding e using Cons.IH [of "m(k \<mapsto> c)"] Cons.prems 1(1) c(2) by fastforce
  next
    case (2 k)
    then have e: "readNames dirname shard (n # ns) d m = readNames dirname shard ns d m" by simp
    show ?thesis unfolding e using Cons.IH [of m] Cons.prems 2 by auto
  qed
qed simp

lemma fileReadShard_clean:
  assumes "cleanDir dirname shard d"
  shows "fileReadShard dirname shard d = Inr (stored dirname d shard)"
proof -
  let ?d = "snd (shardDir dirname shard d)"
  obtain fs where fs: "?d (shardPath dirname shard) = Some fs" using shardDir_exists by blast
  have st: "stored dirname ?d shard k = stored dirname d shard k" for k by (simp add: stored_file)
  have found: "stored dirname ?d shard k = map_of fs (''key-'' @ encodeKey k)" for k by (simp add: stored_file readFile_def fs)
  have "\<forall>n \<in> set (sort (map fst fs)). \<exists>k. n = ''key-'' @ encodeKey k \<and> stored dirname ?d shard k \<noteq> None \<or> n = ''temp-'' @ encodeKey k"
  proof
    fix n assume "n \<in> set (sort (map fst fs))"
    then have n: "n \<in> fst ` set fs" by simp
    moreover have "fst ` set fs \<subseteq> Collect shardFile"
      using assms cleanDir_shardDir [of dirname shard shard d] by (simp add: cleanDir_def fs)
    ultimately have "shardFile n" by blast
    then obtain k where "n = ''key-'' @ encodeKey k \<or> n = ''temp-'' @ encodeKey k" unfolding shardFile_def by blast
    moreover have "map_of fs n \<noteq> None" using n by (simp only: map_of_eq_None_iff not_not)
    ultimately show "\<exists>k. n = ''key-'' @ encodeKey k \<and> stored dirname ?d shard k \<noteq> None \<or> n = ''temp-'' @ encodeKey k"
      using found [of k] by metis
  qed
  moreover have "snd (shardDir dirname shard ?d) = ?d" using fs by (simp add: shardDir_def Let_def)
  ultimately obtain m where m: "readNames dirname shard (sort (map fst fs)) ?d Map.empty = Inr m"
    "\<And>k. m k = (if ''key-'' @ encodeKey k \<in> set (sort (map fst fs)) then stored dirname ?d shard k else None)"
    using readNames_clean [of "sort (map fst fs)" dirname ?d shard Map.empty] by auto
  have "m k = stored dirname d shard k" for k
    using m(2) [of k] map_of_eq_None_iff [of fs "''key-'' @ encodeKey k"] by (auto simp: st [symmetric] found)
  moreover have "fileReadShard dirname shard d = Inr m"
    unfolding fileReadShard_def by (subst shardDir_path) (simp add: fs m(1))
  ultimately show ?thesis by auto
qed

interpretation shard_store: keyed_store "\<lambda>d. stored dirname d shard" "putDone dirname shard"
  for dirname shard
  by unfold_locales (simp add: stored_putDone)

lemma stored_fold_other: "s \<noteq> shard \<Longrightarrow> stored dirname (fold (\<lambda>(k, v). putDone dirname shard k v) m d) s k = stored dirname d s k"
  by (induction m arbitrary: d) (auto simp: stored_putDone)

lemma cleanDir_filePuts: "cleanDir dirname s d \<Longrightarrow> cleanDir dirname s (snd (filePuts dirname shard m ocs d))"
proof (induction m arbitrary: ocs d)
  case (Cons kv m)
  obtain k v where kv: "kv = (k, v)" by force
  obtain st ocs' d' where p: "filePut dirname shard k v ocs d = (st, ocs', d')" by (metis prod_cases3)
  then have "cleanDir dirname s d'" using cleanDir_filePut [OF Cons.prems, of shard k v ocs] by simp
  then show ?case using Cons.IH kv p by (cases st) auto
qed simp

lemma stored_cleared:
  "stored dirname ((snd (shardDir dirname shard d))(shardPath dirname shard := None)) s k = (if s = shard then None else stored dirname d s k)"
  using readFile_shardDir [of "shardPath dirname s"] by (auto simp: stored_file readFile_def)

lemma stored_fileReplaceShard:
  assumes "distinct (map fst m)"
  shows "stored dirname (snd (fileReplaceShard dirname shard m [] d)) s k = (if s = shard then map_of m k else stored dirname d s k)"
  unfolding fileReplaceShard_def
  by (subst shardDir_path)
    (auto simp: filePuts_done stored_cleared shard_store.get_puts_distinct [OF assms] stored_fold_other split: option.splits)

lemma cleanDir_fileReplaceShard:
  assumes "s = shard \<or> cleanDir dirname s d"
  shows "cleanDir dirname s (snd (fileReplaceShard dirname shard m ocs d))"
proof -
  have "cleanDir dirname s ((snd (shardDir dirname shard d))(shardPath dirname shard := None))"
    using assms cleanDir_shardDir [of dirname s shard d] by (auto simp: cleanDir_def)
  then show ?thesis unfolding fileReplaceShard_def by (subst shardDir_path) (simp add: cleanDir_filePuts)
qed

section \<open>Properties\<close>

text \<open>
  C33. Replacing a key's content is atomic. However the two system calls of \<open>filePut\<close> end, each
  done, failed half-way or cut off by a crash half-way, afterwards the key reads either its old content
  or all of the new one: the new one if the put reported success, the old one if it reported an error.
  Every other key of every shard reads as before.
\<close>

theorem filePut_atomic:
  "case filePut dirname shard key content ocs d of (st, ocs', d') \<Rightarrow>
     fst (fileGet dirname shard key d') \<in> {fst (fileGet dirname shard key d), Some content} \<and>
     (st = Ok \<longrightarrow> fst (fileGet dirname shard key d') = Some content) \<and>
     (st = Err \<longrightarrow> fst (fileGet dirname shard key d') = fst (fileGet dirname shard key d)) \<and>
     (\<forall>s k. s \<noteq> shard \<or> k \<noteq> key \<longrightarrow> fst (fileGet dirname s k d') = fst (fileGet dirname s k d))"
  using stored_filePut [of dirname shard key content ocs d] unfolding stored_def fun_eq_iff
  by (cases "filePut dirname shard key content ocs d") (auto split: if_splits)

text \<open>A crash in the middle of writing the new content.\<close>

theorem filePut_atomic_witness:
  "\<exists>d'. filePut ''d'' 3 ''a'' ''new'' [Crashes (Some 1)] (putDone ''d'' 3 ''a'' ''old'' Map.empty) = (Crashed, [], d') \<and>
     readFile (shardPath ''d'' 3) (''temp-'' @ encodeKey ''a'') d' = Some ''n'' \<and> fst (fileGet ''d'' 3 ''a'' d') = Some ''old''"
proof -
  define d where "d = putDone ''d'' 3 ''a'' ''old'' Map.empty"
  let ?d' = "putFile (shardPath ''d'' 3) (''temp-'' @ encodeKey ''a'') ''n'' (snd (shardDir ''d'' 3 d))"
  have put: "filePut ''d'' 3 ''a'' ''new'' [Crashes (Some 1)] d = (Crashed, [], ?d')"
    unfolding filePut_def by (subst shardDir_path) (simp add: Let_def writeFile_def writePart_def)
  have "fst (fileGet ''d'' 3 ''a'' d) = Some ''old''"
    using stored_putDone [of "''d''" 3 "''a''" "''old''" Map.empty 3 "''a''"] by (simp add: stored_def d_def)
  moreover have "fst (fileGet ''d'' 3 ''a'' ?d') \<in> {fst (fileGet ''d'' 3 ''a'' d), Some ''new''}"
    using filePut_atomic [where dirname = "''d''" and shard = 3 and key = "''a''" and content = "''new''" and ocs = "[Crashes (Some 1)]" and d = d] unfolding put prod.case by (rule conjunct1)
  moreover have "fst (fileGet ''d'' 3 ''a'' ?d') = fst (fileGet ''d'' 3 ''a'' d)"
    using stored_writePart [of "''d''" "Some 1" 3 "''a''" "''new''" d 3 "''a''"] by (simp add: stored_def writePart_def)
  moreover have "readFile (shardPath ''d'' 3) (''temp-'' @ encodeKey ''a'') ?d' = Some ''n''" by (simp add: readFile_write_shard)
  ultimately show ?thesis using put by (simp add: d_def)
qed



end
