(* ===== verification/Harness_Net.thy ===== *)
theory Harness_Net
  imports Labrpc
begin

text \<open>
  What the test harnesses (the \<open>config.go\<close> files) do to the simulated network: make ends with
  random names and connect each to a server, and enable or disable ends.
\<close>

section \<open>Making and enabling ends\<close>

text \<open>
  Each end is made and connected to its server; some harnesses enable it at once. Making an end with
  a name that is in use ends the program.
\<close>

fun makeEnds :: "bool \<Rightarrow> ('e \<times> 's) list \<Rightarrow> ('e, 's) Network \<Rightarrow> rpcfail + ('e, 's) Network" where
  "makeEnds en [] rn = Inr rn"
| "makeEnds en ((e, sv) # es) rn = (case MakeEnd e rn of Inl f \<Rightarrow> Inl f
     | Inr rn \<Rightarrow> makeEnds en es (if en then Enable e True (Connect e sv rn) else Connect e sv rn))"

definition enableAll :: "bool \<Rightarrow> 'e list \<Rightarrow> ('e, 's) Network \<Rightarrow> ('e, 's) Network" where
  "enableAll b es rn = fold (\<lambda>e. Enable e b) es rn"

section \<open>Their effect\<close>

lemma enableAll_net [simp]:
  "enabled (enableAll b es rn) e = (if e \<in> set es then b else enabled rn e)"
  "ends (enableAll b es rn) = ends rn" "connections (enableAll b es rn) = connections rn" "servers (enableAll b es rn) = servers rn"
  unfolding enableAll_def by (induction es arbitrary: rn) (auto simp: Enable_def)

lemma in_map_filter: "x \<in> set (List.map_filter f xs) \<longleftrightarrow> (\<exists>y \<in> set xs. f y = Some x)"
  by (force simp: map_filter_def)

lemma makeEnds_ok:
  assumes "makeEnds en es rn = Inr rn'"
  shows "distinct (map fst es)" "e \<in> fst ` set es \<Longrightarrow> \<not> ends rn e" "ends rn' e = (ends rn e \<or> e \<in> fst ` set es)"
    "enabled rn' e = (if e \<in> fst ` set es then en else enabled rn e)" "(e, sv) \<in> set es \<Longrightarrow> connections rn' e = Some sv"
    "e \<notin> fst ` set es \<Longrightarrow> connections rn' e = connections rn e" "servers rn' = servers rn"
proof -
  have "distinct (map fst es) \<and> (\<forall>e \<in> fst ` set es. \<not> ends rn e) \<and> (\<forall>e. ends rn' e = (ends rn e \<or> e \<in> fst ` set es)) \<and>
    (\<forall>e. enabled rn' e = (if e \<in> fst ` set es then en else enabled rn e)) \<and> (\<forall>(e, sv) \<in> set es. connections rn' e = Some sv) \<and>
    (\<forall>e. e \<notin> fst ` set es \<longrightarrow> connections rn' e = connections rn e) \<and> servers rn' = servers rn"
    using assms
  proof (induction es arbitrary: rn)
    case (Cons x es)
    obtain e sv where x: "x = (e, sv)" by force
    with Cons.prems obtain rn1 where m: "MakeEnd e rn = Inr rn1" by (auto split: sum.splits)
    define rn2 where "rn2 = (if en then Enable e True (Connect e sv rn1) else Connect e sv rn1)"
    have new: "\<not> ends rn e" "ends rn2 = (ends rn)(e := True)" "enabled rn2 = (enabled rn)(e := en)"
      "connections rn2 = (connections rn)(e := Some sv)" "servers rn2 = servers rn"
      using m by (auto simp: rn2_def MakeEnd_def Enable_def Connect_def split: if_splits)
    have "makeEnds en es rn2 = Inr rn'" using Cons.prems m x by (simp add: rn2_def)
    note ih = Cons.IH [OF this]
    have "e \<notin> fst ` set es" using ih new(2) by auto
    moreover have "\<not> ends rn y" if "y \<in> fst ` set (x # es)" for y using ih new(1,2) that x by (auto split: if_splits)
    ultimately show ?case using ih new x by (auto split: if_splits)
  qed simp
  then show "distinct (map fst es)" "e \<in> fst ` set es \<Longrightarrow> \<not> ends rn e" "ends rn' e = (ends rn e \<or> e \<in> fst ` set es)"
    "enabled rn' e = (if e \<in> fst ` set es then en else enabled rn e)" "(e, sv) \<in> set es \<Longrightarrow> connections rn' e = Some sv"
    "e \<notin> fst ` set es \<Longrightarrow> connections rn' e = connections rn e" "servers rn' = servers rn" by auto
qed

text \<open>The ends of one instance of a server, one to each of the servers of its group.\<close>

lemma zip_upt_names:
  assumes "length names = n"
  shows "map fst (zip names [0..<n]) = names" "fst ` set (zip names [0..<n]) = set names"
    "b < n \<Longrightarrow> (names ! b, b) \<in> set (zip names [0..<n])"
proof -
  show m: "map fst (zip names [0..<n]) = names" using assms by simp
  show "fst ` set (zip names [0..<n]) = set names" unfolding set_map [symmetric] m ..
  show "b < n \<Longrightarrow> (names ! b, b) \<in> set (zip names [0..<n])" using assms by (auto simp: set_zip)
qed

end
