(* ===== verification/Raft_Config.thy ===== *)
theory Raft_Config
  imports Raft_Service Raft_Runs Harness_Net
begin

text \<open>
  The harness that runs a Raft cluster on the simulated network and injects faults,
  \<open>src/mit/src/raft/config.go\<close>: starting and crashing peers, attaching them to and detaching
  them from the network, and the checks it makes on the commands the peers apply and on their
  leaders. The peers are those of \<open>Raft_System\<close>, the network that of \<open>Labrpc\<close>.
  Commands are integers, as the harness demands.
\<close>

section \<open>State\<close>

datatype harnessfail =
    HNet rpcfail
  | PanicNilEndnames
  | ApplyMismatch nat nat nat
  | ApplyOutOfOrder nat nat
  | ApplyNotInt nat
  | MoreLeaders nat nat
  | NoLeader
  | PanicNilRaft nat
  | TermsDisagree
  | UnexpectedLeader nat
  | CommittedMismatch nat
  | OnlyDecided nat nat nat
  | NoAgreement int

text \<open>
  \<open>rafts\<close> tells which entries of the slice are not nil; the peers themselves are in \<open>hsys\<close>,
  with their persisters, which \<open>saved\<close> points to. Servers have addresses in the order they are
  made.
\<close>

record config =
  cfgNet :: "(string, nat) Network"
  cfgRafts :: "nat \<Rightarrow> bool"
  cfgConnected :: "nat \<Rightarrow> bool"
  cfgEndnames :: "nat \<Rightarrow> string list option"
  cfgLogs :: "nat \<Rightarrow> (nat \<rightharpoonup> int)"
  cfgServers :: nat
  hsys :: "int Sys"

definition endname :: "config \<Rightarrow> nat \<Rightarrow> nat \<Rightarrow> string option" where
  "endname cfg i j = (case cfgEndnames cfg i of None \<Rightarrow> None
     | Some es \<Rightarrow> if j < length es then Some (es ! j) else None)"

definition setNet :: "(string list) \<Rightarrow> bool \<Rightarrow> config \<Rightarrow> config" where
  "setNet es b cfg = cfg\<lparr>cfgNet := enableAll b es (cfgNet cfg)\<rparr>"

text \<open>An event of the cluster, if it can happen.\<close>

definition sysDo :: "nat \<Rightarrow> int event \<Rightarrow> config \<Rightarrow> config" where
  "sysDo n ev cfg = (case sys_step n ev (hsys cfg) of None \<Rightarrow> cfg | Some s \<Rightarrow> cfg\<lparr>hsys := s\<rparr>)"

section \<open>Connecting and crashing\<close>

definition cfg_connect :: "nat \<Rightarrow> nat \<Rightarrow> config \<Rightarrow> harnessfail + config" where
  "cfg_connect n i cfg =
     (let cfg = cfg\<lparr>cfgConnected := (cfgConnected cfg)(i := True)\<rparr>;
          js = filter (cfgConnected cfg) [0..<n];
          outgoing = map (endname cfg i) js;
          incoming = map (\<lambda>j. endname cfg j i) js in
      if None \<in> set (outgoing @ incoming) then Inl PanicNilEndnames
      else Inr (setNet (map the incoming) True (setNet (map the outgoing) True cfg)))"

definition cfg_disconnect :: "nat \<Rightarrow> nat \<Rightarrow> config \<Rightarrow> config" where
  "cfg_disconnect n i cfg =
     (let cfg = cfg\<lparr>cfgConnected := (cfgConnected cfg)(i := False)\<rparr>;
          outgoing = List.map_filter (endname cfg i) [0..<n];
          incoming = List.map_filter (\<lambda>j. endname cfg j i) [0..<n] in
      setNet incoming False (setNet outgoing False cfg))"

text \<open>
  A crashed peer is killed; its persister, which the harness copies, keeps its content.
\<close>

definition crash1 :: "nat \<Rightarrow> nat \<Rightarrow> config \<Rightarrow> config" where
  "crash1 n i cfg =
     (let cfg = cfg_disconnect n i cfg;
          cfg = cfg\<lparr>cfgNet := DeleteServer i (cfgNet cfg)\<rparr> in
      if cfgRafts cfg i
      then sysDo n (EKill i) (cfg\<lparr>cfgRafts := (cfgRafts cfg)(i := False)\<rparr>)
      else cfg)"

text \<open>\<open>names\<close> are the random strings drawn for the peer's ends, one per peer.\<close>

definition start1 :: "nat \<Rightarrow> nat \<Rightarrow> string list \<Rightarrow> nat list \<Rightarrow> config \<Rightarrow> harnessfail + config" where
  "start1 n i names rnd cfg =
     (let cfg = crash1 n i cfg;
          cfg = cfg\<lparr>cfgEndnames := (cfgEndnames cfg)(i := Some names)\<rparr> in
      case makeEnds False (zip names [0..<n]) (cfgNet cfg) of Inl f \<Rightarrow> Inl (HNet f)
      | Inr rn \<Rightarrow>
        (let cfg = sysDo n (ERestart i rnd) (cfg\<lparr>cfgNet := rn, cfgRafts := (cfgRafts cfg)(i := True)\<rparr>) in
         Inr (cfg\<lparr>cfgNet := AddServer i (cfgServers cfg) (cfgNet cfg), cfgServers := cfgServers cfg + 1\<rparr>)))"

definition setunreliable :: "bool \<Rightarrow> config \<Rightarrow> config" where
  "setunreliable unrel cfg = cfg\<lparr>cfgNet := Reliable (\<not> unrel) (cfgNet cfg)\<rparr>"

definition setlongreordering :: "bool \<Rightarrow> config \<Rightarrow> config" where
  "setlongreordering longrel cfg = cfg\<lparr>cfgNet := LongReordering longrel (cfgNet cfg)\<rparr>"

definition rpcCount :: "nat \<Rightarrow> (nat \<Rightarrow> ('w, 'd) Server) \<Rightarrow> config \<Rightarrow> rpcfail + nat" where
  "rpcCount server objs cfg = GetCount server objs (cfgNet cfg)"

definition cleanup :: "nat \<Rightarrow> config \<Rightarrow> config" where
  "cleanup n cfg = fold (\<lambda>i cfg. if cfgRafts cfg i then sysDo n (EKill i) cfg else cfg) [0..<n] cfg"

section \<open>The reader of an apply channel\<close>

text \<open>The error message that is left at the end decides; the log is updated before.\<close>

definition readApply :: "nat \<Rightarrow> nat \<Rightarrow> int ApplyMsg \<Rightarrow> (nat \<Rightarrow> (nat \<rightharpoonup> int)) \<Rightarrow> harnessfail + (nat \<Rightarrow> (nat \<rightharpoonup> int))" where
  "readApply n i m logs = (case amCommand m of
     None \<Rightarrow> Inl (ApplyNotInt i)
   | Some v \<Rightarrow>
     (let clash = filter (\<lambda>j. case logs j (amIndex m) of None \<Rightarrow> False | Some old \<Rightarrow> old \<noteq> v) [0..<n];
          prevok = (logs i (amIndex m - 1) \<noteq> None);
          logs = logs(i := (logs i)(amIndex m \<mapsto> v)) in
      if amIndex m > 1 \<and> prevok = False then Inl (ApplyOutOfOrder i (amIndex m))
      else if clash \<noteq> [] then Inl (ApplyMismatch (amIndex m) i (last clash))
      else Inr logs))"

fun readApplyAll :: "nat \<Rightarrow> nat \<Rightarrow> int ApplyMsg list \<Rightarrow> (nat \<Rightarrow> (nat \<rightharpoonup> int)) \<Rightarrow> harnessfail + (nat \<Rightarrow> (nat \<rightharpoonup> int))" where
  "readApplyAll n i [] logs = Inr logs"
| "readApplyAll n i (m # ms) logs = (case readApply n i m logs of Inl e \<Rightarrow> Inl e | Inr logs \<Rightarrow> readApplyAll n i ms logs)"

section \<open>The checks\<close>

text \<open>
  What the loop over the connected peers reads. \<open>look i\<close> is peer \<open>i\<close> at the two moments at which
  \<open>GetState\<close> reads its fields. The harness does not change its slices meanwhile; asking a peer that
  was crashed is a nil dereference.
\<close>

fun getStates :: "(nat \<Rightarrow> 'c Raft \<times> 'c Raft) \<Rightarrow> config \<Rightarrow> nat list \<Rightarrow> harnessfail + (nat \<times> nat \<times> bool) list" where
  "getStates look cfg [] = Inr []"
| "getStates look cfg (i # is) =
     (if \<not> cfgConnected cfg i then getStates look cfg is
      else if \<not> cfgRafts cfg i then Inl (PanicNilRaft i)
      else (case getStates look cfg is of Inl e \<Rightarrow> Inl e
        | Inr reads \<Rightarrow> Inr ((i, GetState (fst (look i)) (snd (look i))) # reads)))"

text \<open>
  One round of \<open>checkOneLeader\<close> on what was read: peer, term, whether it leads. The loop over a Go
  map has no order; the largest term has been found at its end, and any term with several leaders
  ends the test.
\<close>

definition leadersOf :: "(nat \<times> nat \<times> bool) list \<Rightarrow> nat \<Rightarrow> nat list" where
  "leadersOf reads t = map fst (filter (\<lambda>(i, t', leader). leader \<and> t' = t) reads)"

definition leaderTerms :: "(nat \<times> nat \<times> bool) list \<Rightarrow> nat list" where
  "leaderTerms reads = sort (remdups (map (\<lambda>(i, t, leader). t) (filter (\<lambda>(i, t, leader). leader) reads)))"

definition checkRound :: "(nat \<times> nat \<times> bool) list \<Rightarrow> harnessfail + nat option" where
  "checkRound reads =
     (case filter (\<lambda>t. length (leadersOf reads t) > 1) (leaderTerms reads) of
        t # _ \<Rightarrow> Inl (MoreLeaders t (length (leadersOf reads t)))
      | [] \<Rightarrow> Inr (if leaderTerms reads = [] then None else Some (leadersOf reads (last (leaderTerms reads)) ! 0)))"

text \<open>
  Ten rounds; when none of them finds a leader the state of every peer is printed, which is a nil
  dereference for a crashed one, and the test fails. \<open>looks k\<close> are the peers read in round
  \<open>k\<close>.
\<close>

fun checkRounds :: "(nat \<Rightarrow> 'c Raft \<times> 'c Raft) list \<Rightarrow> nat \<Rightarrow> config \<Rightarrow> harnessfail + nat" where
  "checkRounds [] n cfg = (case filter (\<lambda>i. \<not> cfgRafts cfg i) [0..<n] of [] \<Rightarrow> Inl NoLeader | i # _ \<Rightarrow> Inl (PanicNilRaft i))"
| "checkRounds (look # looks) n cfg = (case getStates look cfg [0..<n] of Inl e \<Rightarrow> Inl e
     | Inr reads \<Rightarrow> (case checkRound reads of Inl e \<Rightarrow> Inl e
       | Inr (Some i) \<Rightarrow> Inr i | Inr None \<Rightarrow> checkRounds looks n cfg))"

definition checkOneLeader :: "(nat \<Rightarrow> nat \<Rightarrow> 'c Raft \<times> 'c Raft) \<Rightarrow> nat \<Rightarrow> config \<Rightarrow> harnessfail + nat" where
  "checkOneLeader looks n cfg = checkRounds (map looks [0..<10]) n cfg"

text \<open>None stands for the result -1, that no peer is connected.\<close>

fun checkTermsFrom :: "nat list \<Rightarrow> (nat \<Rightarrow> 'c Raft \<times> 'c Raft) \<Rightarrow> config \<Rightarrow> nat option \<Rightarrow> harnessfail + nat option" where
  "checkTermsFrom [] look cfg trm = Inr trm"
| "checkTermsFrom (i # is) look cfg trm =
     (if \<not> cfgConnected cfg i then checkTermsFrom is look cfg trm
      else if \<not> cfgRafts cfg i then Inl (PanicNilRaft i)
      else let (xterm, _) = GetState (fst (look i)) (snd (look i)) in
        case trm of None \<Rightarrow> checkTermsFrom is look cfg (Some xterm)
        | Some t \<Rightarrow> if t \<noteq> xterm then Inl TermsDisagree else checkTermsFrom is look cfg (Some t))"

definition checkTerms :: "(nat \<Rightarrow> 'c Raft \<times> 'c Raft) \<Rightarrow> nat \<Rightarrow> config \<Rightarrow> harnessfail + nat option" where
  "checkTerms look n cfg = checkTermsFrom [0..<n] look cfg None"

fun checkNoLeaderFrom :: "nat list \<Rightarrow> (nat \<Rightarrow> 'c Raft \<times> 'c Raft) \<Rightarrow> config \<Rightarrow> harnessfail + unit" where
  "checkNoLeaderFrom [] look cfg = Inr ()"
| "checkNoLeaderFrom (i # is) look cfg =
     (if \<not> cfgConnected cfg i then checkNoLeaderFrom is look cfg
      else if \<not> cfgRafts cfg i then Inl (PanicNilRaft i)
      else let (_, is_leader) = GetState (fst (look i)) (snd (look i)) in
        if is_leader then Inl (UnexpectedLeader i) else checkNoLeaderFrom is look cfg)"

definition checkNoLeader :: "(nat \<Rightarrow> 'c Raft \<times> 'c Raft) \<Rightarrow> nat \<Rightarrow> config \<Rightarrow> harnessfail + unit" where
  "checkNoLeader look n cfg = checkNoLeaderFrom [0..<n] look cfg"

fun nCommittedFrom :: "nat list \<Rightarrow> nat \<Rightarrow> (nat \<Rightarrow> (nat \<rightharpoonup> int)) \<Rightarrow> nat \<times> int \<Rightarrow> harnessfail + nat \<times> int" where
  "nCommittedFrom [] index logs st = Inr st"
| "nCommittedFrom (i # is) index logs (count, cmd) = (case logs i index of
     None \<Rightarrow> nCommittedFrom is index logs (count, cmd)
   | Some cmd1 \<Rightarrow> if count > 0 \<and> cmd \<noteq> cmd1 then Inl (CommittedMismatch index)
       else nCommittedFrom is index logs (count + 1, cmd1))"

definition nCommitted :: "nat \<Rightarrow> nat \<Rightarrow> (nat \<Rightarrow> (nat \<rightharpoonup> int)) \<Rightarrow> harnessfail + nat \<times> int" where
  "nCommitted n index logs = nCommittedFrom [0..<n] index logs (0, -1)"

text \<open>
  \<open>wait\<close> polls until enough peers have committed: each poll is given with the largest term seen
  after it. None stands for the result -1, that someone has moved on.
\<close>

fun waitPolls :: "nat \<Rightarrow> nat \<Rightarrow> nat \<Rightarrow> nat option \<Rightarrow> ((nat \<Rightarrow> (nat \<rightharpoonup> int)) \<times> nat) list \<Rightarrow> harnessfail + bool" where
  "waitPolls n index want startTerm [] = Inr True"
| "waitPolls n index want startTerm ((logs, t) # polls) = (case nCommitted n index logs of Inl e \<Rightarrow> Inl e
     | Inr (nd, _) \<Rightarrow> if nd \<ge> want then Inr True
       else if (case startTerm of None \<Rightarrow> False | Some st \<Rightarrow> t > st) then Inr False
       else waitPolls n index want startTerm polls)"

definition cfg_wait :: "nat \<Rightarrow> nat \<Rightarrow> nat \<Rightarrow> nat option \<Rightarrow> ((nat \<Rightarrow> (nat \<rightharpoonup> int)) \<times> nat) list \<Rightarrow>
    (nat \<Rightarrow> (nat \<rightharpoonup> int)) \<Rightarrow> harnessfail + int option" where
  "cfg_wait n index want startTerm polls logs = (case waitPolls n index want startTerm (take 30 polls) of
     Inl e \<Rightarrow> Inl e
   | Inr False \<Rightarrow> Inr None
   | Inr True \<Rightarrow> (case nCommitted n index logs of Inl e \<Rightarrow> Inl e
     | Inr (nd, cmd) \<Rightarrow> if nd < want then Inl (OnlyDecided nd index want) else Inr (Some cmd)))"

text \<open>
  \<open>one\<close>: each attempt is given by what trying the peers in turn returned, an index if some peer
  took the command, and the logs polled afterwards.
\<close>

fun onePolls :: "nat \<Rightarrow> int \<Rightarrow> nat \<Rightarrow> nat \<Rightarrow> (nat \<Rightarrow> (nat \<rightharpoonup> int)) list \<Rightarrow> harnessfail + bool" where
  "onePolls n cmd expected index [] = Inr False"
| "onePolls n cmd expected index (logs # polls) = (case nCommitted n index logs of Inl e \<Rightarrow> Inl e
     | Inr (nd, cmd1) \<Rightarrow> if nd > 0 \<and> nd \<ge> expected \<and> cmd1 = cmd then Inr True else onePolls n cmd expected index polls)"

fun cfg_one :: "nat \<Rightarrow> int \<Rightarrow> nat \<Rightarrow> (nat option \<times> (nat \<Rightarrow> (nat \<rightharpoonup> int)) list) list \<Rightarrow> harnessfail + nat" where
  "cfg_one n cmd expected [] = Inl (NoAgreement cmd)"
| "cfg_one n cmd expected ((None, _) # attempts) = cfg_one n cmd expected attempts"
| "cfg_one n cmd expected ((Some index, polls) # attempts) = (case onePolls n cmd expected index polls of
     Inl e \<Rightarrow> Inl e | Inr True \<Rightarrow> Inr index | Inr False \<Rightarrow> cfg_one n cmd expected attempts)"

text \<open>Trying the peers in turn, from the one after \<open>starts\<close>.\<close>

fun tryStart :: "nat \<Rightarrow> nat \<Rightarrow> nat \<Rightarrow> int \<Rightarrow> config \<Rightarrow> nat option \<times> nat \<times> config" where
  "tryStart n starts 0 cmd cfg = (None, starts, cfg)"
| "tryStart n starts (Suc si) cmd cfg =
     (let starts = (starts + 1) mod n in
      if cfgConnected cfg starts \<and> cfgRafts cfg starts then
        (case Start cmd (node (hsys cfg) starts) of
           Inr (_, index, _, True) \<Rightarrow> (Some (nat index), starts, sysDo n (EStart starts cmd) cfg)
         | _ \<Rightarrow> tryStart n starts si cmd (sysDo n (EStart starts cmd) cfg))
      else tryStart n starts si cmd cfg)"

section \<open>Runs\<close>

text \<open>
  The harness starts with no peer running. Its operations and the events of the cluster can come in
  any order; a peer that hands over commands does so to the reader of its channel.
\<close>

datatype hevent =
    HStart nat "string list" "nat list"
  | HCrash nat
  | HConnect nat
  | HDisconnect nat
  | HUnreliable bool
  | HReordering bool
  | HSys "int event"

fun allDown :: "nat \<Rightarrow> int Sys \<Rightarrow> int Sys" where
  "allDown 0 s = s"
| "allDown (Suc i) s = allDown i (s\<lparr>down := i # down s\<rparr>)"

definition cfg_init :: "nat \<Rightarrow> config" where
  "cfg_init n = \<lparr>cfgNet = LongDelays True MakeNetwork, cfgRafts = (\<lambda>_. False), cfgConnected = (\<lambda>_. False),
     cfgEndnames = (\<lambda>_. None), cfgLogs = (\<lambda>_. Map.empty), cfgServers = 0, hsys = allDown n (init_sys n (\<lambda>_. []))\<rparr>"

definition cfg_apply :: "nat \<Rightarrow> nat \<Rightarrow> config \<Rightarrow> (harnessfail + config) option" where
  "cfg_apply n i cfg = (case sys_step n (EApply i) (hsys cfg) of None \<Rightarrow> None
     | Some s \<Rightarrow> Some (case readApplyAll n i (map snd (drop (length (applied (hsys cfg))) (applied s))) (cfgLogs cfg) of
         Inl e \<Rightarrow> Inl e | Inr logs \<Rightarrow> Inr (cfg\<lparr>hsys := s, cfgLogs := logs\<rparr>)))"

definition cfg_step :: "nat \<Rightarrow> hevent \<Rightarrow> config \<Rightarrow> (harnessfail + config) option" where
  "cfg_step n ev cfg = (case ev of
     HStart i names rnd \<Rightarrow> if i < n \<and> length names = n then Some (start1 n i names rnd cfg) else None
   | HCrash i \<Rightarrow> if i < n then Some (Inr (crash1 n i cfg)) else None
   | HConnect i \<Rightarrow> if i < n then Some (cfg_connect n i cfg) else None
   | HDisconnect i \<Rightarrow> if i < n then Some (Inr (cfg_disconnect n i cfg)) else None
   | HUnreliable b \<Rightarrow> Some (Inr (setunreliable b cfg))
   | HReordering b \<Rightarrow> Some (Inr (setlongreordering b cfg))
   | HSys rv \<Rightarrow> (case rv of
       EKill _ \<Rightarrow> None | ERestart _ _ \<Rightarrow> None
     | EApply i \<Rightarrow> cfg_apply n i cfg
     | _ \<Rightarrow> (case sys_step n rv (hsys cfg) of None \<Rightarrow> None | Some s \<Rightarrow> Some (Inr (cfg\<lparr>hsys := s\<rparr>)))))"

fun cfg_run :: "nat \<Rightarrow> hevent list \<Rightarrow> config \<Rightarrow> (harnessfail + config) option" where
  "cfg_run n [] cfg = Some (Inr cfg)"
| "cfg_run n (ev # evs) cfg = (case cfg_step n ev cfg of None \<Rightarrow> None
     | Some (Inl e) \<Rightarrow> Some (Inl e) | Some (Inr cfg) \<Rightarrow> cfg_run n evs cfg)"

text \<open>\<open>make_config\<close> starts all peers and then connects them.\<close>

definition make_config :: "nat \<Rightarrow> bool \<Rightarrow> (nat \<Rightarrow> string list) \<Rightarrow> (nat \<Rightarrow> nat list) \<Rightarrow> (harnessfail + config) option" where
  "make_config n unreliable names rnds =
     cfg_run n (HUnreliable unreliable # map (\<lambda>i. HStart i (names i) (rnds i)) [0..<n] @ map HConnect [0..<n]) (cfg_init n)"

inductive cfg_reachable :: "nat \<Rightarrow> config \<Rightarrow> bool" for n where
  cfg_start: "cfg_reachable n (cfg_init n)"
| cfg_more: "cfg_reachable n cfg \<Longrightarrow> cfg_step n ev cfg = Some (Inr cfg') \<Longrightarrow> cfg_reachable n cfg'"

section \<open>The applied commands\<close>

text \<open>
  Every entry of a peer's log in the harness is a command the peer has handed over, and every
  command it has handed over since it was started is there.
\<close>

definition handed :: "int Sys \<Rightarrow> nat \<Rightarrow> nat \<Rightarrow> int \<Rightarrow> bool" where
  "handed s i k v \<longleftrightarrow> (i, \<lparr>amIndex = k, amCommand = Some v\<rparr>) \<in> set (applied s)"

definition logs_ok :: "nat \<Rightarrow> int Sys \<Rightarrow> (nat \<Rightarrow> (nat \<rightharpoonup> int)) \<Rightarrow> bool" where
  "logs_ok n s logs \<longleftrightarrow> reachable n s \<and> (\<forall>i k v. logs i k = Some v \<longrightarrow> handed s i k v) \<and>
     (\<forall>i < n. \<forall>k. 0 < k \<longrightarrow> k \<le> lastApplied (node s i) \<longrightarrow> logs i k \<noteq> None)"

lemma handed_agree: "reachable n s \<Longrightarrow> 2 \<le> n \<Longrightarrow> handed s i k v \<Longrightarrow> handed s j k w \<Longrightarrow> v = w"
  using applied_agree [of n s i "\<lparr>amIndex = k, amCommand = Some v\<rparr>" j "\<lparr>amIndex = k, amCommand = Some w\<rparr>"]
  by (simp add: handed_def)

lemma logs_ok_step:
  assumes "logs_ok n s logs" "sys_step n ev s = Some s'" "\<And>i. ev \<noteq> EApply i"
  shows "logs_ok n s' logs"
proof -
  have a: "applied s' = applied s" by (rule sys_step_applied [OF assms(2,3)])
  have "lastApplied (node s' i) \<le> lastApplied (node s i)" for i
  proof (cases "\<exists>rnd. ev = ERestart i rnd")
    case True
    then have "lastApplied (node s' i) = 0" using assms(2) by (auto simp: sys_step_def Make_volatile split: if_splits)
    then show ?thesis by simp
  next
    case False
    then show ?thesis using sys_step_lastApplied [OF assms(2), of i] assms(3) by (simp add: applies_def)
  qed
  moreover have "reachable n s'" using assms(1,2) by (auto simp: logs_ok_def intro: reachable.more)
  ultimately show ?thesis using assms(1) a unfolding logs_ok_def handed_def by (metis order_trans)
qed

lemma readApply_ok:
  assumes "\<And>j v. logs j (amIndex m) = Some v \<Longrightarrow> Some v = amCommand m" "amCommand m \<noteq> None"
    "amIndex m \<le> 1 \<or> logs i (amIndex m - 1) \<noteq> None"
  shows "readApply n i m logs = Inr (logs(i := (logs i)(amIndex m := amCommand m)))"
proof -
  obtain v where v: "amCommand m = Some v" using assms(2) by blast
  then have "filter (\<lambda>j. case logs j (amIndex m) of None \<Rightarrow> False | Some old \<Rightarrow> old \<noteq> v) [0..<n] = []"
    using assms(1) by (auto simp: filter_empty_conv split: option.splits)
  then show ?thesis using assms(3) v by (auto simp: readApply_def Let_def)
qed

lemma readApplyAll_ok:
  assumes "map amIndex ms = [Suc p..<Suc p + length ms]" "\<And>m. m \<in> set ms \<Longrightarrow> \<exists>v. amCommand m = Some v \<and> A i (amIndex m) v"
    "\<And>i j k v w. A i k v \<Longrightarrow> A j k w \<Longrightarrow> v = w" "\<And>j k v. logs j k = Some v \<Longrightarrow> A j k v"
    "\<And>k. 0 < k \<Longrightarrow> k \<le> p \<Longrightarrow> logs i k \<noteq> None"
  shows "\<exists>logs'. readApplyAll n i ms logs = Inr logs' \<and> (\<forall>j k v. logs' j k = Some v \<longrightarrow> A j k v) \<and>
    (\<forall>k. 0 < k \<longrightarrow> k \<le> p + length ms \<longrightarrow> logs' i k \<noteq> None) \<and> (\<forall>j. j \<noteq> i \<longrightarrow> logs' j = logs j)"
  using assms(1,2,4,5)
proof (induction ms arbitrary: p logs)
  case (Cons m ms)
  have idx: "amIndex m = Suc p" "map amIndex ms = [Suc (Suc p)..<Suc (Suc p) + length ms]"
    using Cons.prems(1) by (simp_all add: upt_rec [of "Suc p"] del: upt_Suc)
  obtain v where v: "amCommand m = Some v" "A i (Suc p) v" using Cons.prems(2) [of m] idx(1) by auto
  let ?logs = "logs(i := (logs i)(Suc p := Some v))"
  have "readApply n i m logs = Inr ?logs"
  proof -
    have "Some w = amCommand m" if "logs j (amIndex m) = Some w" for j w
      using assms(3) [OF Cons.prems(3) [OF that [unfolded idx(1)]] v(2)] v(1) by simp
    moreover have "amIndex m \<le> 1 \<or> logs i (amIndex m - 1) \<noteq> None" using Cons.prems(4) [of p] idx(1) by (cases p) auto
    ultimately show ?thesis using readApply_ok [of logs m i n] v(1) idx(1) by simp
  qed
  moreover obtain logs' where "readApplyAll n i ms ?logs = Inr logs'" "\<forall>j k v. logs' j k = Some v \<longrightarrow> A j k v"
    "\<forall>k. 0 < k \<longrightarrow> k \<le> Suc p + length ms \<longrightarrow> logs' i k \<noteq> None" "\<forall>j. j \<noteq> i \<longrightarrow> logs' j = ?logs j"
  proof -
    have l1: "\<And>j k w. ?logs j k = Some w \<Longrightarrow> A j k w" using Cons.prems(3) v(2) by (auto split: if_splits)
    have l2: "\<And>k. 0 < k \<Longrightarrow> k \<le> Suc p \<Longrightarrow> ?logs i k \<noteq> None" using Cons.prems(4) by (auto simp: le_Suc_eq)
    have "\<exists>v. amCommand m = Some v \<and> A i (amIndex m) v" if "m \<in> set ms" for m using Cons.prems(2) that by simp
    from Cons.IH [of "Suc p" ?logs, OF idx(2) this l1 l2] show ?thesis using that by blast
  qed
  ultimately show ?case by auto
qed simp

lemma logs_ok_apply:
  assumes "logs_ok n s logs" "2 \<le> n" "sys_step n (EApply i) s = Some s'"
  shows "\<exists>logs'. readApplyAll n i (map snd (drop (length (applied s)) (applied s'))) logs = Inr logs' \<and> logs_ok n s' logs'"
proof -
  have r: "reachable n s" "reachable n s'" using assms(1,3) by (auto simp: logs_ok_def intro: reachable.more)
  have i: "i < n" using assms(3) by (auto simp: sys_step_def split: if_splits)
  obtain ms ops where ms: "applied s' = applied s @ map (Pair i) ms"
    "map amIndex ms = [Suc (lastApplied (node s i))..<Suc (lastApplied (node s i)) + length ms]"
    "lastApplied (node s' i) = lastApplied (node s i) + length ms" "map amCommand ms = map Some ops"
    by (rule apply_messages [OF r(1) assms(2,3)])
  have cmd: "\<exists>v. amCommand m = Some v \<and> handed s' i (amIndex m) v" if "m \<in> set ms" for m
  proof -
    have "amCommand m \<in> set (map Some ops)" using that unfolding ms(4) [symmetric] by simp
    then obtain v where "amCommand m = Some v" by auto
    moreover have "(i, m) \<in> set (applied s')" using that ms(1) by auto
    ultimately show ?thesis by (cases m) (auto simp: handed_def)
  qed
  have mono: "handed s' j k v" if "logs j k = Some v" for j k v
    using that assms(1) ms(1) by (auto simp: logs_ok_def handed_def)
  obtain logs' where logs': "readApplyAll n i ms logs = Inr logs'" "\<forall>j k v. logs' j k = Some v \<longrightarrow> handed s' j k v"
    "\<forall>k. 0 < k \<longrightarrow> k \<le> lastApplied (node s i) + length ms \<longrightarrow> logs' i k \<noteq> None" "\<forall>j. j \<noteq> i \<longrightarrow> logs' j = logs j"
    using readApplyAll_ok [of ms "lastApplied (node s i)" "handed s'" i logs n] ms(2) cmd mono handed_agree [OF r(2) assms(2)]
      assms(1) i by (auto simp: logs_ok_def)
  have "lastApplied (node s' j) = lastApplied (node s j)" if "j \<noteq> i" for j
    using sys_step_lastApplied [OF assms(3), of j] that by (simp add: applies_def)
  then have "logs_ok n s' logs'" using logs'(2-4) r(2) ms(3) assms(1) unfolding logs_ok_def by metis
  then show ?thesis using logs'(1) ms(1) by (simp add: comp_def)
qed

lemma setNet_fields [simp]:
  "hsys (setNet es b cfg) = hsys cfg" "cfgLogs (setNet es b cfg) = cfgLogs cfg" "cfgConnected (setNet es b cfg) = cfgConnected cfg"
  "cfgEndnames (setNet es b cfg) = cfgEndnames cfg" "endname (setNet es b cfg) = endname cfg" "cfgRafts (setNet es b cfg) = cfgRafts cfg"
  by (simp_all add: setNet_def endname_def fun_eq_iff)

lemma sysDo_fields [simp]:
  "cfgLogs (sysDo n ev cfg) = cfgLogs cfg" "cfgConnected (sysDo n ev cfg) = cfgConnected cfg" "cfgNet (sysDo n ev cfg) = cfgNet cfg"
  "cfgEndnames (sysDo n ev cfg) = cfgEndnames cfg" "endname (sysDo n ev cfg) = endname cfg"
  by (simp_all add: sysDo_def endname_def fun_eq_iff split: option.splits)

lemma logs_ok_sysDo:
  "logs_ok n (hsys cfg) logs \<Longrightarrow> (\<And>i. ev \<noteq> EApply i) \<Longrightarrow> logs_ok n (hsys (sysDo n ev cfg)) logs"
  by (auto simp: sysDo_def split: option.splits intro: logs_ok_step)

lemma disconnect_fields [simp]: "hsys (cfg_disconnect n i cfg) = hsys cfg" "cfgLogs (cfg_disconnect n i cfg) = cfgLogs cfg"
  by (simp_all add: cfg_disconnect_def Let_def)

lemma crash1_logs: "logs_ok n (hsys cfg) (cfgLogs cfg) \<Longrightarrow> logs_ok n (hsys (crash1 n i cfg)) (cfgLogs (crash1 n i cfg))"
  by (auto simp: crash1_def Let_def intro!: logs_ok_sysDo)

lemma start1_logs:
  assumes "logs_ok n (hsys cfg) (cfgLogs cfg)" "start1 n i names rnd cfg = Inr cfg'"
  shows "logs_ok n (hsys cfg') (cfgLogs cfg')"
  using assms crash1_logs [OF assms(1), of i] by (auto simp: start1_def Let_def split: sum.splits intro!: logs_ok_sysDo)

lemma cfg_step_logs:
  assumes "logs_ok n (hsys cfg) (cfgLogs cfg)" "2 \<le> n" "cfg_step n ev cfg = Some r"
  shows "case r of Inl e \<Rightarrow> (\<exists>f. e = HNet f) \<or> e = PanicNilEndnames | Inr cfg' \<Rightarrow> logs_ok n (hsys cfg') (cfgLogs cfg')"
proof (cases ev)
  case (HStart i names rnd)
  then show ?thesis using assms(3) start1_logs [OF assms(1)]
    by (auto simp: cfg_step_def split: if_splits sum.splits) (auto simp: start1_def Let_def split: sum.splits)
next
  case (HSys rv)
  show ?thesis
  proof (cases rv)
    case (EApply i)
    then show ?thesis using assms(3) HSys logs_ok_apply [OF assms(1,2), of i]
      by (auto simp: cfg_step_def cfg_apply_def split: option.splits)
  qed (use assms HSys in \<open>auto simp: cfg_step_def split: option.splits intro: logs_ok_step\<close>)
qed (use assms crash1_logs in \<open>auto simp: cfg_step_def cfg_connect_def setunreliable_def setlongreordering_def Let_def split: if_splits sum.splits\<close>)

lemma allDown_ok: "reachable n s \<Longrightarrow> k \<le> n \<Longrightarrow> reachable n (allDown k s) \<and> node (allDown k s) = node s \<and> applied (allDown k s) = applied s"
proof (induction k arbitrary: s)
  case (Suc k)
  have "reachable n (s\<lparr>down := k # down s\<rparr>)"
    by (rule reachable.more [OF Suc.prems(1), of "EKill k"]) (use Suc.prems(2) in \<open>simp add: sys_step_def\<close>)
  from Suc.IH [OF this] Suc.prems(2) show ?case by simp
qed simp

lemma cfg_reachable_logs:
  assumes "cfg_reachable n cfg" "2 \<le> n"
  shows "logs_ok n (hsys cfg) (cfgLogs cfg)"
  using assms(1)
proof induction
  case cfg_start
  have "reachable n (init_sys n (\<lambda>_. []) :: int Sys)" by (rule reachable.init)
  from allDown_ok [OF this, of n] show ?case by (simp add: logs_ok_def cfg_init_def init_sys_def Make_volatile)
next
  case (cfg_more cfg ev cfg')
  from cfg_step_logs [OF cfg_more(3) assms(2) cfg_more(2)] show ?case by simp
qed

lemma nCommittedFrom_ok:
  assumes "\<And>i v. i \<in> set is \<Longrightarrow> logs i k = Some v \<Longrightarrow> v = c" "count > 0 \<Longrightarrow> cmd = c"
  shows "\<exists>cmd'. nCommittedFrom is k logs (count, cmd) = Inr (count + length (filter (\<lambda>i. logs i k \<noteq> None) is), cmd') \<and>
    (count + length (filter (\<lambda>i. logs i k \<noteq> None) is) > 0 \<longrightarrow> cmd' = c)"
  using assms
proof (induction "is" arbitrary: count cmd)
  case (Cons i "is")
  have rest: "w = c" if "j \<in> set is" "logs j k = Some w" for j w using Cons.prems(1) [of j w] that by simp
  show ?case
  proof (cases "logs i k")
    case None
    then show ?thesis using Cons.IH [of count cmd, OF rest Cons.prems(2)] by auto
  next
    case (Some v)
    then have "v = c" using Cons.prems(1) [of i v] by simp
    then show ?thesis using Cons.IH [of "Suc count" c, OF rest] Cons.prems(2) Some by auto
  qed
qed simp

section \<open>Leaders\<close>

lemma leader_at_most_one:
  assumes "distinct (map fst reads)" "\<And>i j t. (i, t, True) \<in> set reads \<Longrightarrow> (j, t, True) \<in> set reads \<Longrightarrow> i = j"
  shows "length (leadersOf reads t) \<le> 1"
proof -
  have d: "distinct (leadersOf reads t)" using assms(1) unfolding leadersOf_def by (rule distinct_map_filter)
  have "set (leadersOf reads t) \<subseteq> {leadersOf reads t ! 0}"
  proof
    fix i assume i: "i \<in> set (leadersOf reads t)"
    then have "leadersOf reads t ! 0 \<in> set (leadersOf reads t)" by (intro nth_mem) auto
    then show "i \<in> {leadersOf reads t ! 0}" using i assms(2) by (auto simp: leadersOf_def)
  qed
  then have "card (set (leadersOf reads t)) \<le> 1" using card_mono [of "{leadersOf reads t ! 0}"] by fastforce
  then show ?thesis using distinct_card [OF d] by simp
qed

lemma leaderTerms_set: "t \<in> set (leaderTerms reads) \<longleftrightarrow> (\<exists>i. (i, t, True) \<in> set reads)"
  by (force simp: leaderTerms_def)

lemma sorted_le_last: "sorted xs \<Longrightarrow> x \<in> set xs \<Longrightarrow> x \<le> last xs"
proof (induction xs)
  case (Cons a xs)
  then show ?case by (cases "xs = []") (use last_in_set in \<open>auto\<close>)
qed simp

lemma checkRound_ok:
  assumes "\<And>t. length (leadersOf reads t) \<le> 1"
  shows "case checkRound reads of Inl e \<Rightarrow> False
    | Inr None \<Rightarrow> (\<forall>i t. (i, t, True) \<notin> set reads)
    | Inr (Some i) \<Rightarrow> \<exists>t. (i, t, True) \<in> set reads \<and> (\<forall>j u. (j, u, True) \<in> set reads \<longrightarrow> u \<le> t)"
proof -
  have none: "filter (\<lambda>t. length (leadersOf reads t) > 1) (leaderTerms reads) = []"
    using assms by (auto simp: filter_empty_conv not_less)
  show ?thesis
  proof (cases "leaderTerms reads = []")
    case True
    then show ?thesis using leaderTerms_set [of _ reads] none by (auto simp: checkRound_def)
  next
    case False
    let ?t = "last (leaderTerms reads)"
    have t: "?t \<in> set (leaderTerms reads)" using False by simp
    have top: "u \<le> ?t" if "u \<in> set (leaderTerms reads)" for u
      using that by (intro sorted_le_last) (simp_all add: leaderTerms_def)
    from t obtain i where i: "(i, ?t, True) \<in> set reads" using leaderTerms_set by blast
    then have "leadersOf reads ?t \<noteq> []" by (force simp: leadersOf_def filter_empty_conv)
    then have "leadersOf reads ?t ! 0 \<in> set (leadersOf reads ?t)" by simp
    then have "(leadersOf reads ?t ! 0, ?t, True) \<in> set reads" by (auto simp: leadersOf_def)
    then show ?thesis using none False top leaderTerms_set by (auto simp: checkRound_def)
  qed
qed

lemma getStates_reads:
  "getStates look cfg is = Inr reads \<Longrightarrow> reads = map (\<lambda>i. (i, GetState (fst (look i)) (snd (look i)))) (filter (cfgConnected cfg) is)"
  by (induction "is" arbitrary: reads) (auto split: if_splits sum.splits)

lemma getStates_nil: "getStates look cfg is = Inl e \<Longrightarrow> \<exists>i \<in> set is. e = PanicNilRaft i \<and> \<not> cfgRafts cfg i"
  by (induction "is") (auto split: if_splits sum.splits)

lemma checkRounds_ok:
  assumes "\<forall>look \<in> set looks. \<forall>reads t. getStates look cfg [0..<n] = Inr reads \<longrightarrow> length (leadersOf reads t) \<le> 1"
  defines "trm \<equiv> \<lambda>look i. currentTerm (fst (look i))" and "leads \<equiv> \<lambda>look i. state (snd (look i)) = StateLeader"
  shows "case checkRounds looks n cfg of
      Inr i \<Rightarrow> i < n \<and> cfgConnected cfg i \<and> (\<exists>look \<in> set looks. leads look i \<and>
        (\<forall>j < n. cfgConnected cfg j \<longrightarrow> leads look j \<longrightarrow> trm look j \<le> trm look i))
    | Inl e \<Rightarrow> (\<exists>i < n. e = PanicNilRaft i \<and> \<not> cfgRafts cfg i) \<or>
        e = NoLeader \<and> (\<forall>look \<in> set looks. \<forall>j < n. cfgConnected cfg j \<longrightarrow> \<not> leads look j)"
  using assms(1)
proof (induction looks)
  case Nil
  show ?case
  proof (cases "filter (\<lambda>i. \<not> cfgRafts cfg i) [0..<n]")
    case (Cons i "is")
    have "i \<in> set (filter (\<lambda>i. \<not> cfgRafts cfg i) [0..<n])" unfolding Cons by simp
    then have "i < n \<and> \<not> cfgRafts cfg i" by simp
    then show ?thesis unfolding checkRounds.simps Cons by simp
  qed simp
next
  case (Cons look looks)
  show ?case
  proof (cases "getStates look cfg [0..<n]")
    case (Inl e)
    then show ?thesis using getStates_nil [OF Inl] by auto
  next
    case (Inr reads)
    have r: "(i, t, True) \<in> set reads \<longleftrightarrow> i < n \<and> cfgConnected cfg i \<and> trm look i = t \<and> leads look i" for i t
      using getStates_reads [OF Inr] by (auto simp: GetState_def trm_def leads_def)
    have one: "length (leadersOf reads t) \<le> 1" for t using Cons.prems Inr by simp
    note round = checkRound_ok [OF one, unfolded r]
    have ih: "case checkRounds looks n cfg of
      Inr i \<Rightarrow> i < n \<and> cfgConnected cfg i \<and> (\<exists>look \<in> set looks. leads look i \<and>
        (\<forall>j < n. cfgConnected cfg j \<longrightarrow> leads look j \<longrightarrow> trm look j \<le> trm look i))
    | Inl e \<Rightarrow> (\<exists>i < n. e = PanicNilRaft i \<and> \<not> cfgRafts cfg i) \<or>
        e = NoLeader \<and> (\<forall>look \<in> set looks. \<forall>j < n. cfgConnected cfg j \<longrightarrow> \<not> leads look j)"
      by (rule Cons.IH) (use Cons.prems in simp)
    have "checkRounds (look # looks) n cfg = (case checkRound reads of Inl e \<Rightarrow> Inl e
        | Inr (Some i) \<Rightarrow> Inr i | Inr None \<Rightarrow> checkRounds looks n cfg)" using Inr by simp
    then show ?thesis using round ih by (auto split: sum.splits option.splits)
  qed
qed

text \<open>The states a cluster goes through: between two moments any number of events can happen.\<close>

definition timeline :: "nat \<Rightarrow> (nat \<Rightarrow> 'c Sys) \<Rightarrow> bool" where
  "timeline n \<sigma> \<longleftrightarrow> reachable n (\<sigma> 0) \<and> (\<forall>m. \<exists>evs. sys_run n evs (\<sigma> m) = Some (\<sigma> (Suc m)))"

lemma timeline_run: "timeline n \<sigma> \<Longrightarrow> \<exists>evs. sys_run n evs (\<sigma> k) = Some (\<sigma> (k + d))"
proof (induction d)
  case 0
  show ?case by (rule exI [of _ "[]"]) simp
next
  case (Suc d)
  then obtain evs evs' where "sys_run n evs (\<sigma> k) = Some (\<sigma> (k + d))" "sys_run n evs' (\<sigma> (k + d)) = Some (\<sigma> (k + Suc d))"
    unfolding timeline_def by force
  then show ?case using sys_run_append [of n evs evs'] by (metis option.simps(5))
qed

lemma timeline_leader_unique:
  assumes "timeline n \<sigma>" "2 \<le> n" "i < n" "j < n" "state (node (\<sigma> k) i) = StateLeader" "state (node (\<sigma> l) j) = StateLeader"
    "currentTerm (node (\<sigma> k) i) = currentTerm (node (\<sigma> l) j)"
  shows "i = j"
proof -
  have r: "reachable n (\<sigma> m)" for m
    using timeline_run [OF assms(1), of 0 m] assms(1) sys_run_reachable unfolding timeline_def by fastforce
  show ?thesis
  proof (cases "k \<le> l")
    case True
    then obtain evs where "sys_run n evs (\<sigma> k) = Some (\<sigma> l)" using timeline_run [OF assms(1), of k "l - k"] by auto
    from leader_unique [OF r assms(2) this assms(3-7)] show ?thesis .
  next
    case False
    then obtain evs where "sys_run n evs (\<sigma> l) = Some (\<sigma> k)" using timeline_run [OF assms(1), of l "k - l"] by auto
    from leader_unique [OF r assms(2) this assms(4,3,6,5)] assms(7) show ?thesis by simp
  qed
qed

lemma untorn_leaders:
  assumes "timeline n \<sigma>" "2 \<le> n" "\<And>i. i < n \<Longrightarrow> currentTerm (node (\<sigma> (tm i)) i) = currentTerm (node (\<sigma> (lm i)) i)"
    "getStates (\<lambda>i. (node (\<sigma> (tm i)) i, node (\<sigma> (lm i)) i)) cfg [0..<n] = Inr reads"
  shows "length (leadersOf reads t) \<le> 1"
proof (rule leader_at_most_one)
  note r = getStates_reads [OF assms(4)]
  show "distinct (map fst reads)" by (simp add: r comp_def)
  fix i j u assume "(i, u, True) \<in> set reads" "(j, u, True) \<in> set reads"
  then show "i = j" using timeline_leader_unique [OF assms(1,2), of i j "lm i" "lm j"] assms(3) by (auto simp: r GetState_def)
qed

section \<open>The network\<close>

text \<open>
  Every end in use belongs to one pair of peers and leads to the second of them; the enabled ends
  are exactly those between two connected peers.
\<close>

definition net_inv :: "nat \<Rightarrow> config \<Rightarrow> bool" where
  "net_inv n cfg \<longleftrightarrow>
     (\<forall>i es. cfgEndnames cfg i = Some es \<longrightarrow> i < n \<and> length es = n) \<and>
     (\<forall>i j e. endname cfg i j = Some e \<longrightarrow> ends (cfgNet cfg) e \<and> connections (cfgNet cfg) e = Some j) \<and>
     (\<forall>i j i' j' e. endname cfg i j = Some e \<longrightarrow> endname cfg i' j' = Some e \<longrightarrow> i = i' \<and> j = j') \<and>
     (\<forall>i. cfgConnected cfg i \<longrightarrow> cfgEndnames cfg i \<noteq> None) \<and>
     (\<forall>e. enabled (cfgNet cfg) e \<longleftrightarrow> (\<exists>i j. cfgConnected cfg i \<and> cfgConnected cfg j \<and> endname cfg i j = Some e))"

lemma net_invD:
  assumes "net_inv n cfg"
  shows "cfgEndnames cfg i = Some es \<Longrightarrow> i < n \<and> length es = n"
    "endname cfg i j = Some e \<Longrightarrow> ends (cfgNet cfg) e \<and> connections (cfgNet cfg) e = Some j"
    "endname cfg i j = Some e \<Longrightarrow> endname cfg i' j' = Some e \<Longrightarrow> i = i' \<and> j = j'"
    "cfgConnected cfg i \<Longrightarrow> cfgEndnames cfg i \<noteq> None"
    "enabled (cfgNet cfg) e \<longleftrightarrow> (\<exists>i j. cfgConnected cfg i \<and> cfgConnected cfg j \<and> endname cfg i j = Some e)"
  using assms unfolding net_inv_def by blast+

lemma setNet_net [simp]:
  "enabled (cfgNet (setNet es b cfg)) e = (if e \<in> set es then b else enabled (cfgNet cfg) e)"
  "ends (cfgNet (setNet es b cfg)) = ends (cfgNet cfg)" "connections (cfgNet (setNet es b cfg)) = connections (cfgNet cfg)"
  by (simp_all add: setNet_def)

lemma endname_range: "net_inv n cfg \<Longrightarrow> endname cfg i j = Some e \<Longrightarrow> i < n \<and> j < n"
  by (auto simp: net_inv_def endname_def split: option.splits if_splits)

lemma net_inv_transfer:
  assumes "net_inv n cfg" "cfgEndnames cfg' = cfgEndnames cfg" "ends (cfgNet cfg') = ends (cfgNet cfg)"
    "connections (cfgNet cfg') = connections (cfgNet cfg)" "\<And>i. cfgConnected cfg' i \<Longrightarrow> cfgEndnames cfg i \<noteq> None"
    "\<And>e. enabled (cfgNet cfg') e = (\<exists>i j. cfgConnected cfg' i \<and> cfgConnected cfg' j \<and> endname cfg i j = Some e)"
  shows "net_inv n cfg'"
proof -
  have "endname cfg' = endname cfg" using assms(2) by (simp add: endname_def fun_eq_iff)
  then show ?thesis using assms unfolding net_inv_def by simp
qed

lemma connect_net:
  assumes "net_inv n cfg" "i < n" "cfg_connect n i cfg = Inr cfg'"
  shows "net_inv n cfg'"
proof -
  define con where "con = (cfgConnected cfg)(i := True)"
  define js where "js = filter con [0..<n]"
  have en: "endname (cfg\<lparr>cfgConnected := con\<rparr>) = endname cfg" by (simp add: endname_def fun_eq_iff)
  have sel: "cfgConnected (cfg\<lparr>cfgConnected := con\<rparr>) = con" by simp
  have "cfg_connect n i cfg = (if None \<in> set (map (endname cfg i) js @ map (\<lambda>j. endname cfg j i) js) then Inl PanicNilEndnames
    else Inr (setNet (map the (map (\<lambda>j. endname cfg j i) js)) True (setNet (map the (map (endname cfg i) js)) True (cfg\<lparr>cfgConnected := con\<rparr>))))"
    unfolding cfg_connect_def Let_def con_def [symmetric] en js_def sel by (rule refl)
  then have some: "None \<notin> set (map (endname cfg i) js @ map (\<lambda>j. endname cfg j i) js)"
    and c: "cfg' = setNet (map the (map (\<lambda>j. endname cfg j i) js)) True (setNet (map the (map (endname cfg i) js)) True (cfg\<lparr>cfgConnected := con\<rparr>))"
    using assms(3) by (simp_all only: split: if_splits) simp_all
  have ex: "cfgEndnames cfg a \<noteq> None" if "con a" for a
  proof (cases "a = i")
    case True
    have "i \<in> set js" using assms(2) by (simp add: js_def con_def)
    then have "endname cfg i i \<noteq> None" using some by force
    then show ?thesis using True by (auto simp: endname_def split: option.splits)
  next
    case False
    then show ?thesis using that assms(1) by (simp add: con_def net_inv_def)
  qed
  show ?thesis
  proof (rule net_inv_transfer [OF assms(1)])
    fix e
    have "enabled (cfgNet cfg') e \<longleftrightarrow> enabled (cfgNet cfg) e \<or> (\<exists>j \<in> set js. endname cfg i j = Some e \<or> endname cfg j i = Some e)"
      using some unfolding c by (force simp: image_iff)
    then have en: "enabled (cfgNet cfg') e \<longleftrightarrow> (\<exists>a b. cfgConnected cfg a \<and> cfgConnected cfg b \<and> endname cfg a b = Some e) \<or>
        (\<exists>j \<in> set js. endname cfg i j = Some e \<or> endname cfg j i = Some e)"
      using assms(1) unfolding net_inv_def by blast
    have js: "j \<in> set js \<longleftrightarrow> j < n \<and> con j" for j by (auto simp: js_def)
    have con: "con i" "cfgConnected cfg a \<Longrightarrow> con a" "con a \<Longrightarrow> a \<noteq> i \<Longrightarrow> cfgConnected cfg a" for a by (simp_all add: con_def)
    have "(\<exists>a b. con a \<and> con b \<and> endname cfg a b = Some e) \<Longrightarrow> enabled (cfgNet cfg') e"
      unfolding en using js con(3) endname_range [OF assms(1)] by metis
    moreover have "enabled (cfgNet cfg') e \<Longrightarrow> (\<exists>a b. con a \<and> con b \<and> endname cfg a b = Some e)"
      unfolding en using js con(1,2) by metis
    ultimately show "enabled (cfgNet cfg') e = (\<exists>a b. cfgConnected cfg' a \<and> cfgConnected cfg' b \<and> endname cfg a b = Some e)"
      using c by (simp only: setNet_fields sel) blast
  qed (use ex in \<open>simp_all add: c\<close>)
qed

lemma disconnect_net:
  assumes "net_inv n cfg"
  shows "net_inv n (cfg_disconnect n i cfg)" "\<not> cfgConnected (cfg_disconnect n i cfg) i"
proof -
  let ?cfg = "cfg_disconnect n i cfg"
  have en: "endname (cfg\<lparr>cfgConnected := con\<rparr>) = endname cfg" for con by (simp add: endname_def fun_eq_iff)
  have f: "cfgConnected ?cfg = (cfgConnected cfg)(i := False)" "cfgEndnames ?cfg = cfgEndnames cfg"
    "ends (cfgNet ?cfg) = ends (cfgNet cfg)" "connections (cfgNet ?cfg) = connections (cfgNet cfg)"
    by (simp_all add: cfg_disconnect_def Let_def)
  show "\<not> cfgConnected ?cfg i" by (simp add: f)
  show "net_inv n ?cfg"
  proof (rule net_inv_transfer [OF assms])
    fix e
    have en': "enabled (cfgNet ?cfg) e \<longleftrightarrow> enabled (cfgNet cfg) e \<and> \<not> (\<exists>j < n. endname cfg i j = Some e \<or> endname cfg j i = Some e)"
      by (auto simp: cfg_disconnect_def Let_def in_map_filter en)
    have old: "enabled (cfgNet cfg) e \<longleftrightarrow> (\<exists>a b. cfgConnected cfg a \<and> cfgConnected cfg b \<and> endname cfg a b = Some e)"
      and inj: "\<And>a b a' b'. endname cfg a b = Some e \<Longrightarrow> endname cfg a' b' = Some e \<Longrightarrow> a = a' \<and> b = b'"
      using assms unfolding net_inv_def by blast+
    show "enabled (cfgNet ?cfg) e = (\<exists>a b. cfgConnected ?cfg a \<and> cfgConnected ?cfg b \<and> endname cfg a b = Some e)"
    proof
      assume "enabled (cfgNet ?cfg) e"
      then obtain a b where ab: "cfgConnected cfg a" "cfgConnected cfg b" "endname cfg a b = Some e"
        and no: "\<not> (\<exists>j < n. endname cfg i j = Some e \<or> endname cfg j i = Some e)" unfolding en' old by blast
      have "a \<noteq> i" "b \<noteq> i" using no ab(3) endname_range [OF assms ab(3)] by auto
      then show "\<exists>a b. cfgConnected ?cfg a \<and> cfgConnected ?cfg b \<and> endname cfg a b = Some e" using ab unfolding f(1) by auto
    next
      assume "\<exists>a b. cfgConnected ?cfg a \<and> cfgConnected ?cfg b \<and> endname cfg a b = Some e"
      then obtain a b where ab: "cfgConnected cfg a" "cfgConnected cfg b" "endname cfg a b = Some e" "a \<noteq> i" "b \<noteq> i"
        unfolding f(1) by (auto split: if_splits)
      then show "enabled (cfgNet ?cfg) e" unfolding en' old using inj [OF ab(3)] by blast
    qed
    show "cfgConnected ?cfg a \<Longrightarrow> cfgEndnames cfg a \<noteq> None" for a
      using net_invD(4) [OF assms, of a] unfolding f(1) by (simp split: if_splits)
  qed (simp_all add: f)
qed

lemma crash1_net:
  assumes "net_inv n cfg"
  shows "net_inv n (crash1 n i cfg)" "\<not> cfgConnected (crash1 n i cfg) i"
proof -
  let ?d = "cfg_disconnect n i cfg"
  have f: "cfgConnected (crash1 n i cfg) = cfgConnected ?d" "cfgEndnames (crash1 n i cfg) = cfgEndnames ?d"
    "ends (cfgNet (crash1 n i cfg)) = ends (cfgNet ?d)" "connections (cfgNet (crash1 n i cfg)) = connections (cfgNet ?d)"
    "enabled (cfgNet (crash1 n i cfg)) = enabled (cfgNet ?d)"
    by (simp_all add: crash1_def DeleteServer_def Let_def)
  show "\<not> cfgConnected (crash1 n i cfg) i" using disconnect_net(2) [OF assms] by (simp add: f)
  have "net_inv n ?d" by (rule disconnect_net(1) [OF assms])
  then show "net_inv n (crash1 n i cfg)"
  proof (rule net_inv_transfer)
    show "enabled (cfgNet (crash1 n i cfg)) e = (\<exists>a b. cfgConnected (crash1 n i cfg) a \<and> cfgConnected (crash1 n i cfg) b \<and> endname ?d a b = Some e)" for e
      unfolding f by (rule net_invD(5) [OF \<open>net_inv n ?d\<close>])
    show "cfgConnected (crash1 n i cfg) a \<Longrightarrow> cfgEndnames ?d a \<noteq> None" for a unfolding f by (rule net_invD(4) [OF \<open>net_inv n ?d\<close>])
  qed (simp_all add: f)
qed

lemma start1_net:
  assumes "net_inv n cfg" "i < n" "length names = n" "start1 n i names rnd cfg = Inr cfg'"
  shows "net_inv n cfg'"
proof -
  let ?c = "crash1 n i cfg"
  note inv = net_invD [OF crash1_net(1) [OF assms(1), of i]]
  have no: "\<not> cfgConnected ?c i" by (rule crash1_net(2) [OF assms(1)])
  obtain rn where rn: "makeEnds False (zip names [0..<n]) (cfgNet ?c) = Inr rn" using assms(4) by (auto simp: start1_def Let_def split: sum.splits)
  have f: "cfgConnected cfg' = cfgConnected ?c" "cfgEndnames cfg' = (cfgEndnames ?c)(i := Some names)"
    "ends (cfgNet cfg') = ends rn" "enabled (cfgNet cfg') = enabled rn" "connections (cfgNet cfg') = connections rn"
    using assms(4) rn by (auto simp: start1_def Let_def AddServer_def)
  note ok = makeEnds_ok [OF rn, unfolded zip_upt_names [OF assms(3)]]
  have e: "endname cfg' a b = (if a = i then if b < n then Some (names ! b) else None else endname ?c a b)" for a b
    using assms(3) by (simp add: endname_def f(2))
  have new: "endname cfg' i b = Some x \<longleftrightarrow> b < n \<and> x = names ! b" for b x by (auto simp: e)
  have old: "x \<notin> set names" if "endname ?c a b = Some x" for a b x using inv(2) [OF that] ok(2) by blast
  have mem: "names ! b \<in> set names" if "b < n" for b using that assms(3) by simp
  show ?thesis unfolding net_inv_def
  proof (intro conjI allI impI)
    fix a es assume "cfgEndnames cfg' a = Some es"
    then show "a < n" "length es = n" using inv(1) [of a es] assms(2,3) by (auto simp: f(2) split: if_splits)
  next
    fix a b x assume x: "endname cfg' a b = Some x"
    show "ends (cfgNet cfg') x" "connections (cfgNet cfg') x = Some b"
      using x inv(2) [of a b x] ok(3) [of x] ok(5) [of x b] ok(6) [of x] old [of a b x] zip_upt_names(3) [OF assms(3), of b] mem
      by (auto simp: f e split: if_splits)
  next
    fix a b a' b' x assume x: "endname cfg' a b = Some x" "endname cfg' a' b' = Some x"
    have "a = i \<longleftrightarrow> a' = i" using x old mem by (auto simp: e split: if_splits)
    then show "a = a'" "b = b'" using x inv(3) [of a b x a' b'] ok(1) assms(3) by (auto simp: e nth_eq_iff_index_eq split: if_splits)
  next
    fix a assume "cfgConnected cfg' a"
    then show "cfgEndnames cfg' a \<noteq> None" using inv(4) [of a] by (simp add: f)
  next
    fix x
    have "cfgConnected ?c a \<Longrightarrow> endname cfg' a b = endname ?c a b" for a b using no by (auto simp: e)
    then show "enabled (cfgNet cfg') x = (\<exists>a b. cfgConnected cfg' a \<and> cfgConnected cfg' b \<and> endname cfg' a b = Some x)"
      unfolding f ok(4) inv(5) using old by metis
  qed
qed

lemma cfg_step_net:
  assumes "net_inv n cfg" "cfg_step n ev cfg = Some (Inr cfg')"
  shows "net_inv n cfg'"
proof -
  have same: "net_inv n cfg'" if "cfgEndnames cfg' = cfgEndnames cfg" "cfgConnected cfg' = cfgConnected cfg"
    "ends (cfgNet cfg') = ends (cfgNet cfg)" "connections (cfgNet cfg') = connections (cfgNet cfg)" "enabled (cfgNet cfg') = enabled (cfgNet cfg)"
    using net_inv_transfer [OF assms(1) that(1,3,4)] net_invD(4,5) [OF assms(1)] that(2,5) by simp
  show ?thesis
  proof (cases ev)
    case (HStart i names rnd)
    then show ?thesis using assms(2) start1_net [OF assms(1)] by (auto simp: cfg_step_def split: if_splits)
  next
    case (HCrash i)
    then show ?thesis using assms(2) crash1_net(1) [OF assms(1)] by (auto simp: cfg_step_def split: if_splits)
  next
    case (HConnect i)
    then show ?thesis using assms(2) connect_net [OF assms(1)] by (auto simp: cfg_step_def split: if_splits)
  next
    case (HDisconnect i)
    then show ?thesis using assms(2) disconnect_net(1) [OF assms(1)] by (auto simp: cfg_step_def split: if_splits)
  next
    case (HUnreliable b)
    then have "cfg' = setunreliable b cfg" using assms(2) by (simp add: cfg_step_def)
    then show ?thesis by (intro same) (simp_all add: setunreliable_def Reliable_def)
  next
    case (HReordering b)
    then have "cfg' = setlongreordering b cfg" using assms(2) by (simp add: cfg_step_def)
    then show ?thesis by (intro same) (simp_all add: setlongreordering_def LongReordering_def)
  next
    case (HSys rv)
    then have "cfgNet cfg' = cfgNet cfg \<and> cfgEndnames cfg' = cfgEndnames cfg \<and> cfgConnected cfg' = cfgConnected cfg"
      using assms(2) by (cases rv) (auto simp: cfg_step_def cfg_apply_def split: option.splits sum.splits)
    then show ?thesis by (intro same) simp_all
  qed
qed

lemma cfg_reachable_net: "cfg_reachable n cfg \<Longrightarrow> net_inv n cfg"
proof (induction rule: cfg_reachable.induct)
  case cfg_start
  then show ?case by (simp add: net_inv_def cfg_init_def endname_def LongDelays_def MakeNetwork_def)
next
  case (cfg_more cfg ev cfg')
  show ?case by (rule cfg_step_net [OF cfg_more(3,2)])
qed

section \<open>A run\<close>

text \<open>
  Three peers are started and connected, peer 0 is elected and replicates 7, two peers apply it,
  and peer 1 is crashed and started again.
\<close>

fun cfg_script :: "nat \<Rightarrow> (config \<Rightarrow> hevent) list \<Rightarrow> config \<Rightarrow> config option" where
  "cfg_script n [] cfg = Some cfg"
| "cfg_script n (f # fs) cfg = (case cfg_step n (f cfg) cfg of Some (Inr cfg) \<Rightarrow> cfg_script n fs cfg | _ \<Rightarrow> None)"

lemma cfg_script_reachable: "cfg_reachable n cfg \<Longrightarrow> cfg_script n fs cfg = Some cfg' \<Longrightarrow> cfg_reachable n cfg'"
  by (induction fs arbitrary: cfg) (auto split: option.splits sum.splits intro: cfg_more)

definition hdo :: "hevent \<Rightarrow> config \<Rightarrow> hevent" where
  "hdo ev cfg = ev"

definition hdeliver :: "nat \<Rightarrow> config \<Rightarrow> hevent" where
  "hdeliver k cfg = HSys (EDeliver (net (hsys cfg) ! k))"

definition demo_script :: "(config \<Rightarrow> hevent) list" where
  "demo_script = map hdo [HStart 0 [''00'', ''01'', ''02''] [], HStart 1 [''10'', ''11'', ''12''] [], HStart 2 [''20'', ''21'', ''22''] [],
     HConnect 0, HConnect 1, HConnect 2] @ replicate 10 (hdo (HSys (ETick 0))) @
     [hdeliver 0, hdeliver 2, hdo (HSys (EStart 0 7)), hdeliver 5, hdeliver 7] @ replicate 5 (hdo (HSys (ETick 0))) @
     [hdeliver 8, hdo (HSys (EApply 0)), hdo (HSys (EApply 1)), hdo (HCrash 1), hdo (HStart 1 [''1a'', ''1b'', ''1c''] [])]"

definition demo_cfg :: config where
  "demo_cfg = the (cfg_script 3 demo_script (cfg_init 3))"

lemma demo_some: "cfg_script 3 demo_script (cfg_init 3) \<noteq> None"
  by code_simp

lemma demo_reachable: "cfg_reachable 3 demo_cfg"
  using cfg_script_reachable [OF cfg_start] demo_some by (auto simp: demo_cfg_def)

lemma demo_facts: "cfgLogs demo_cfg 0 1 = Some 7" "cfgLogs demo_cfg 1 1 = Some 7" "cfgLogs demo_cfg 2 1 = None"
  "endname demo_cfg 0 2 = Some ''02''" "endname demo_cfg 1 0 = Some ''1a''" "cfgConnected demo_cfg 0" "cfgConnected demo_cfg 2" "\<not> cfgConnected demo_cfg 1"
  by code_simp+

section \<open>Theorems\<close>

text \<open>
  C36: The harness's checks of the applied commands never fail. Whatever peers it crashes, restarts
  and disconnects and whatever messages are lost, no reader of an apply channel sees a command that
  differs from one applied earlier at the index, a gap, or something that is not an integer: an
  operation can only end the test when a name drawn for an end is in use already or when a peer that
  was never started is connected. And counting the peers that have committed an index never
  finds two values.
\<close>

theorem harness_checks_pass:
  assumes "cfg_reachable n cfg" "2 \<le> n"
  shows "(cfg_step n ev cfg = Some (Inl e) \<longrightarrow> (\<exists>f. e = HNet f) \<or> e = PanicNilEndnames) \<and>
    (\<exists>cmd. nCommitted n index (cfgLogs cfg) = Inr (length (filter (\<lambda>i. cfgLogs cfg i index \<noteq> None) [0..<n]), cmd) \<and>
      (\<forall>i < n. \<forall>v. cfgLogs cfg i index = Some v \<longrightarrow> v = cmd))"
proof -
  have ok: "logs_ok n (hsys cfg) (cfgLogs cfg)" by (rule cfg_reachable_logs [OF assms])
  have same: "v = w" if "cfgLogs cfg i index = Some v" "cfgLogs cfg j index = Some w" for i j v w
    using ok that handed_agree [OF _ assms(2)] unfolding logs_ok_def by metis
  have "\<exists>c. \<forall>i v. cfgLogs cfg i index = Some v \<longrightarrow> v = c" using same by metis
  then obtain c where c: "\<And>i v. cfgLogs cfg i index = Some v \<Longrightarrow> v = c" by blast
  obtain cmd where cmd: "nCommitted n index (cfgLogs cfg) = Inr (length (filter (\<lambda>i. cfgLogs cfg i index \<noteq> None) [0..<n]), cmd)"
    "length (filter (\<lambda>i. cfgLogs cfg i index \<noteq> None) [0..<n]) > 0 \<longrightarrow> cmd = c"
    using nCommittedFrom_ok [of "[0..<n]" "cfgLogs cfg" index c 0 "-1"] c unfolding nCommitted_def by auto
  have "v = cmd" if "i < n" "cfgLogs cfg i index = Some v" for i v
  proof -
    have "i \<in> set (filter (\<lambda>i. cfgLogs cfg i index \<noteq> None) [0..<n])" using that by simp
    then have "length (filter (\<lambda>i. cfgLogs cfg i index \<noteq> None) [0..<n]) > 0" by (rule length_pos_if_in_set)
    then show ?thesis using cmd(2) c [OF that(2)] by simp
  qed
  then show ?thesis using cmd(1) cfg_step_logs [OF ok assms(2), of ev "Inl e"] by auto
qed

theorem harness_checks_pass_witness:
  "\<exists>cmd. nCommitted 3 1 (cfgLogs demo_cfg) = Inr (2, cmd) \<and> cmd = 7"
  using harness_checks_pass [OF demo_reachable, of "HCrash 0" NoLeader 1] demo_facts(1-3) by (auto simp: upt_rec numeral_3_eq_3 numeral_2_eq_2)


text \<open>Peer 0 leads term 2; then peer 1 is elected in term 3 without peer 0 hearing of it.\<close>

definition contested_sys :: "nat Sys" where
  "contested_sys = the (script 3 (replicate 10 (event (ETick 1)) @ [deliver 6, deliver 7]) elected_sys)"

lemma contested_some: "script 3 (replicate 10 (event (ETick 1)) @ [deliver 6, deliver 7]) elected_sys \<noteq> None"
  by code_simp

lemma contested_facts:
  "currentTerm (node elected_sys 0) = 2" "state (node elected_sys 0) = StateLeader" "currentTerm (node elected_sys 1) = 2"
  "state (node contested_sys 1) = StateLeader" "currentTerm (node contested_sys 1) = 3" "state (node contested_sys 2) = StateFollower"
  by code_simp+

definition contest :: "nat \<Rightarrow> nat Sys" where
  "contest m = (if m = 0 then elected_sys else contested_sys)"

lemma contest_timeline: "timeline 3 contest"
proof -
  have "\<exists>evs. sys_run 3 evs elected_sys = Some contested_sys" using run_the [OF contested_some] unfolding contested_sys_def by blast
  moreover have "\<exists>evs. sys_run 3 evs contested_sys = Some contested_sys" by (rule exI [of _ "[]"]) simp
  ultimately show ?thesis using elected_reachable by (auto simp: timeline_def contest_def)
qed


text \<open>
  The two reads of \<open>GetState\<close> can see different terms. The harness reads peer 0, which leads term
  2, then the term of peer 1, still 2, and then its state, when peer 1 leads term 3: two leaders of
  term 2. Likewise between the two assignments of \<open>becomeFollower\<close> a deposed leader has the new term and
  still the state of a leader.
\<close>

theorem torn_reads_find_two_leaders:
  assumes "\<forall>i < 3. cfgConnected cfg i \<and> cfgRafts cfg i"
  shows "checkOneLeader (\<lambda>k i. (node (contest (if i = 2 then 1 else 0)) i, node (contest (if i = 0 then 0 else 1)) i)) 3 cfg = Inl (MoreLeaders 2 2)"
proof -
  have "[0..<3] = [0, 1, 2 :: nat]" by (simp add: upt_rec)
  moreover have "[0..<10] = 0 # [Suc 0..<10]" by (simp add: upt_rec)
  ultimately show ?thesis using assms contested_facts
    by (simp add: checkOneLeader_def contest_def GetState_def checkRound_def leadersOf_def leaderTerms_def)
qed

lemma becomeFollower_window: "state r = StateLeader \<Longrightarrow> GetState (reset trm r) (reset trm r) = (trm, True)"
  by (simp add: GetState_def reset_def resetRandomizedElectionTimeout_def Let_def split: list.splits)

text \<open>
  C38: Isolation. In every state of the harness the enabled ends of the network are exactly those of
  the current instances of two connected peers, each leading to the peer it is meant for: a
  disconnected peer and every earlier instance of a peer are cut off.
\<close>

theorem harness_isolates:
  assumes "cfg_reachable n cfg"
  shows "(enabled (cfgNet cfg) e \<longleftrightarrow>
      (\<exists>i j. i < n \<and> j < n \<and> cfgConnected cfg i \<and> cfgConnected cfg j \<and> endname cfg i j = Some e)) \<and>
    (endname cfg i j = Some e \<longrightarrow> connections (cfgNet cfg) e = Some j)"
proof -
  note inv = cfg_reachable_net [OF assms]
  show ?thesis using net_invD(2,5) [OF inv] endname_range [OF inv] by metis
qed

theorem harness_isolates_witness:
  "enabled (cfgNet demo_cfg) ''02'' \<and> \<not> enabled (cfgNet demo_cfg) ''1a'' \<and> connections (cfgNet demo_cfg) ''1a'' = Some 0"
proof -
  have "enabled (cfgNet demo_cfg) ''02''"
    using harness_isolates [OF demo_reachable, of "''02''"] demo_facts(4,6,7) by fastforce
  moreover have "\<not> enabled (cfgNet demo_cfg) ''1a''" by code_simp
  ultimately show ?thesis using harness_isolates [OF demo_reachable, of "''1a''" 1 0] demo_facts(5) by simp
qed

end
