(* ===== verification/Kv_Config.thy ===== *)
theory Kv_Config
  imports Kv_System Kv_Clerk Harness_Net "HOL-Library.Multiset"
begin

text \<open>
  The harness of the key/value service, \<open>src/mit/src/kvraft/config.go\<close>, and that of the
  shardmaster, \<open>src/mit/src/shardmaster/config.go\<close>, which is the same program around another
  server: starting and shutting down servers, connecting servers and clerks, and partitioning the
  servers so that the first server that believes it leads is in the minority. The operations on the network are shared; what
  killing and starting a server does to the running service is a parameter.
\<close>

section \<open>State\<close>

datatype kharnessfail = KNet rpcfail | KPanicNil | KPanicIndex

text \<open>
  \<open>kServers\<close> tells which servers are not nil; a clerk is known by the number it was made with.
\<close>

record 'a kconfig =
  kNet :: "(string, nat) Network"
  kServers :: "nat \<Rightarrow> bool"
  kEndnames :: "nat \<Rightarrow> string list option"
  kClerks :: "nat \<rightharpoonup> string list"
  nextClientId :: nat
  kObjects :: nat
  ksys :: 'a

definition kname :: "'a kconfig \<Rightarrow> nat \<Rightarrow> nat \<Rightarrow> string option" where
  "kname cfg i j = (case kEndnames cfg i of None \<Rightarrow> None | Some es \<Rightarrow> if j < length es then Some (es ! j) else None)"

text \<open>Enabling or disabling ends, where a missing name is an index out of range.\<close>

definition enableEnds :: "bool \<Rightarrow> string option list \<Rightarrow> 'a kconfig \<Rightarrow> kharnessfail + 'a kconfig" where
  "enableEnds b es cfg = (if None \<in> set es then Inl KPanicIndex
     else Inr (cfg\<lparr>kNet := enableAll b (map the es) (kNet cfg)\<rparr>))"

section \<open>Connections between servers\<close>

definition connectUnlocked :: "nat \<Rightarrow> nat list \<Rightarrow> 'a kconfig \<Rightarrow> kharnessfail + 'a kconfig" where
  "connectUnlocked i to cfg = enableEnds True (map (kname cfg i) to @ map (\<lambda>j. kname cfg j i) to) cfg"

text \<open>
  The test for nil of the second loop looks at the position in the list, not at the server. The
  lists the tests pass are no longer than the number of servers, so that the position is in range.
\<close>

definition disconnectUnlocked :: "nat \<Rightarrow> nat list \<Rightarrow> 'a kconfig \<Rightarrow> kharnessfail + 'a kconfig" where
  "disconnectUnlocked i from cfg = enableEnds False
     ((if kEndnames cfg i = None then [] else map (kname cfg i) from) @
      map (\<lambda>(j, f). kname cfg f i) (filter (\<lambda>(j, f). kEndnames cfg j \<noteq> None) (enumerate 0 from))) cfg"

definition All_servers :: "nat \<Rightarrow> nat list" where
  "All_servers n = [0..<n]"

definition ConnectAll :: "nat \<Rightarrow> 'a kconfig \<Rightarrow> kharnessfail + 'a kconfig" where
  "ConnectAll n cfg = foldE (\<lambda>i. connectUnlocked i (All_servers n)) [0..<n] cfg"

definition isolate :: "nat list \<Rightarrow> nat list \<Rightarrow> nat \<Rightarrow> 'a kconfig \<Rightarrow> kharnessfail + 'a kconfig" where
  "isolate own other i cfg = (case disconnectUnlocked i other cfg of Inl e \<Rightarrow> Inl e | Inr cfg \<Rightarrow> connectUnlocked i own cfg)"

definition partition_cfg :: "nat list \<Rightarrow> nat list \<Rightarrow> 'a kconfig \<Rightarrow> kharnessfail + 'a kconfig" where
  "partition_cfg p1 p2 cfg = (case foldE (isolate p1 p2) p1 cfg of Inl e \<Rightarrow> Inl e | Inr cfg \<Rightarrow> foldE (isolate p2 p1) p2 cfg)"

section \<open>Clerks\<close>

text \<open>The shuffle of the ends a clerk gets; \<open>rs i\<close> is the number drawn in round \<open>i\<close>.\<close>

fun shuffleFrom :: "nat \<Rightarrow> (nat \<Rightarrow> nat) \<Rightarrow> nat \<Rightarrow> 'x list \<Rightarrow> 'x list" where
  "shuffleFrom i rs 0 sa = sa"
| "shuffleFrom i rs (Suc k) sa = (let j = rs i mod (i + 1) in shuffleFrom (Suc i) rs k (sa[i := sa ! j, j := sa ! i]))"

definition random_handles :: "(nat \<Rightarrow> nat) \<Rightarrow> 'x list \<Rightarrow> 'x list" where
  "random_handles rs kvh = shuffleFrom 0 rs (length kvh) kvh"

definition ConnectClientUnlocked :: "nat \<Rightarrow> nat list \<Rightarrow> 'a kconfig \<Rightarrow> kharnessfail + 'a kconfig" where
  "ConnectClientUnlocked ck to cfg = (let endnames = (case kClerks cfg ck of None \<Rightarrow> [] | Some es \<Rightarrow> es) in
     enableEnds True (map (\<lambda>j. if j < length endnames then Some (endnames ! j) else None) to) cfg)"

definition DisconnectClientUnlocked :: "nat \<Rightarrow> nat list \<Rightarrow> 'a kconfig \<Rightarrow> kharnessfail + 'a kconfig" where
  "DisconnectClientUnlocked ck from cfg = (let endnames = (case kClerks cfg ck of None \<Rightarrow> [] | Some es \<Rightarrow> es) in
     enableEnds False (map (\<lambda>j. if j < length endnames then Some (endnames ! j) else None) from) cfg)"

definition makeClient :: "nat \<Rightarrow> nat list \<Rightarrow> string list \<Rightarrow> (nat \<Rightarrow> nat) \<Rightarrow> nat \<Rightarrow> 'a kconfig \<Rightarrow>
    kharnessfail + string Clerk \<times> 'a kconfig" where
  "makeClient n to names rs r cfg = (case makeEnds False (zip names [0..<n]) (kNet cfg) of Inl f \<Rightarrow> Inl (KNet f)
     | Inr rn \<Rightarrow>
       (let ck = MakeClerk r (random_handles rs names); me = nextClientId cfg;
            cfg = cfg\<lparr>kNet := rn, kClerks := (kClerks cfg)(me \<mapsto> names), nextClientId := nextClientId cfg + 1\<rparr> in
        case ConnectClientUnlocked me to cfg of Inl e \<Rightarrow> Inl e | Inr cfg \<Rightarrow> Inr (ck, cfg)))"

definition deleteClient :: "nat \<Rightarrow> 'a kconfig \<Rightarrow> 'a kconfig" where
  "deleteClient ck cfg = cfg\<lparr>kClerks := (kClerks cfg)(ck := None)\<rparr>"

section \<open>Servers\<close>

definition ShutdownServer :: "(nat \<Rightarrow> 'a \<Rightarrow> 'a) \<Rightarrow> nat \<Rightarrow> nat \<Rightarrow> 'a kconfig \<Rightarrow> kharnessfail + 'a kconfig" where
  "ShutdownServer kill n i cfg = (case disconnectUnlocked i (All_servers n) cfg of Inl e \<Rightarrow> Inl e
     | Inr cfg \<Rightarrow>
       (let cfg = cfg\<lparr>kNet := DeleteServer i (kNet cfg)\<rparr> in
        Inr (if kServers cfg i then cfg\<lparr>ksys := kill i (ksys cfg), kServers := (kServers cfg)(i := False)\<rparr> else cfg)))"

definition StartServer :: "(nat \<Rightarrow> nat list \<Rightarrow> 'a \<Rightarrow> 'a) \<Rightarrow> nat \<Rightarrow> nat \<Rightarrow> string list \<Rightarrow> nat list \<Rightarrow> 'a kconfig \<Rightarrow> kharnessfail + 'a kconfig" where
  "StartServer start n i names rnd cfg =
     (let cfg = cfg\<lparr>kEndnames := (kEndnames cfg)(i := Some names)\<rparr> in
      case makeEnds False (zip names [0..<n]) (kNet cfg) of Inl f \<Rightarrow> Inl (KNet f)
      | Inr rn \<Rightarrow> Inr (cfg\<lparr>kNet := AddServer i (kObjects cfg) rn, kObjects := kObjects cfg + 1,
          ksys := start i rnd (ksys cfg), kServers := (kServers cfg)(i := True)\<rparr>))"

text \<open>
  What \<open>GetState\<close> says of each server when it is asked is given; a server that is nil makes it
  panic. The first server that believes it leads is reported, also when it was deposed.
\<close>

fun LeaderFrom :: "nat list \<Rightarrow> (nat \<Rightarrow> bool) \<Rightarrow> 'a kconfig \<Rightarrow> kharnessfail + bool \<times> nat" where
  "LeaderFrom [] leads cfg = Inr (False, 0)"
| "LeaderFrom (i # is) leads cfg = (if \<not> kServers cfg i then Inl KPanicNil
     else if leads i then Inr (True, i) else LeaderFrom is leads cfg)"

definition Leader :: "nat \<Rightarrow> (nat \<Rightarrow> bool) \<Rightarrow> 'a kconfig \<Rightarrow> kharnessfail + bool \<times> nat" where
  "Leader n leads cfg = LeaderFrom [0..<n] leads cfg"

fun fillParts :: "nat list \<Rightarrow> nat \<Rightarrow> nat \<Rightarrow> nat list \<Rightarrow> nat list \<Rightarrow> kharnessfail + nat list \<times> nat list" where
  "fillParts [] l j p1 p2 = Inr (p1, p2)"
| "fillParts (i # is) l j p1 p2 =
     (if i \<noteq> l then
        if j < length p1 then fillParts is l (j + 1) (p1[j := i]) p2
        else if j - length p1 < length p2 then fillParts is l (j + 1) p1 (p2[j - length p1 := i])
        else Inl KPanicIndex
      else fillParts is l j p1 p2)"

definition make_partition :: "nat \<Rightarrow> (nat \<Rightarrow> bool) \<Rightarrow> 'a kconfig \<Rightarrow> kharnessfail + nat list \<times> nat list" where
  "make_partition n leads cfg = (case Leader n leads cfg of Inl e \<Rightarrow> Inl e
     | Inr (_, l) \<Rightarrow> (case fillParts [0..<n] l 0 (replicate (n div 2 + 1) 0) (replicate (n div 2) 0) of Inl e \<Rightarrow> Inl e
       | Inr (p1, p2) \<Rightarrow> if p2 = [] then Inl KPanicIndex else Inr (p1, p2[length p2 - 1 := l])))"

definition kcfg_init :: "nat \<Rightarrow> 'a \<Rightarrow> 'a kconfig" where
  "kcfg_init n sys = \<lparr>kNet = MakeNetwork, kServers = (\<lambda>_. False), kEndnames = (\<lambda>_. None), kClerks = Map.empty,
     nextClientId = n + 1000, kObjects = 0, ksys = sys\<rparr>"

definition kv_make_config :: "(nat \<Rightarrow> nat list \<Rightarrow> 'a \<Rightarrow> 'a) \<Rightarrow> nat \<Rightarrow> bool \<Rightarrow> (nat \<Rightarrow> string list) \<Rightarrow> (nat \<Rightarrow> nat list) \<Rightarrow> 'a \<Rightarrow>
    kharnessfail + 'a kconfig" where
  "kv_make_config start n unreliable names rnds sys =
     (case foldE (\<lambda>i. StartServer start n i (names i) (rnds i)) [0..<n] (kcfg_init n sys) of Inl e \<Rightarrow> Inl e
      | Inr cfg \<Rightarrow> (case ConnectAll n cfg of Inl e \<Rightarrow> Inl e
        | Inr cfg \<Rightarrow> Inr (cfg\<lparr>kNet := Reliable (\<not> unreliable) (kNet cfg)\<rparr>)))"

definition kv_cleanup :: "(nat \<Rightarrow> 'a \<Rightarrow> 'a) \<Rightarrow> nat \<Rightarrow> 'a kconfig \<Rightarrow> 'a kconfig" where
  "kv_cleanup kill n cfg = cfg\<lparr>ksys := fold (\<lambda>i. if kServers cfg i then kill i else id) [0..<n] (ksys cfg)\<rparr>"

text \<open>The two services.\<close>

definition kvDo :: "nat \<Rightarrow> kvevent \<Rightarrow> KvSys \<Rightarrow> KvSys" where
  "kvDo n ev s = (case kv_step n ev s of None \<Rightarrow> s | Some s' \<Rightarrow> s')"

definition raftDo :: "nat \<Rightarrow> 'c event \<Rightarrow> 'c Sys \<Rightarrow> 'c Sys" where
  "raftDo n ev s = (case sys_step n ev s of None \<Rightarrow> s | Some s' \<Rightarrow> s')"

definition kv_ShutdownServer :: "nat \<Rightarrow> nat \<Rightarrow> KvSys kconfig \<Rightarrow> kharnessfail + KvSys kconfig" where
  "kv_ShutdownServer n = ShutdownServer (\<lambda>i. kvDo n (KRaft (EKill i))) n"

definition kv_StartServer :: "nat \<Rightarrow> nat \<Rightarrow> string list \<Rightarrow> nat list \<Rightarrow> KvSys kconfig \<Rightarrow> kharnessfail + KvSys kconfig" where
  "kv_StartServer n = StartServer (\<lambda>i rnd. kvDo n (KRestart i rnd)) n"

definition LogSize :: "nat \<Rightarrow> KvSys kconfig \<Rightarrow> nat" where
  "LogSize n cfg = fold (\<lambda>i logsize. let m = RaftStateSize (persister (node (rsys (ksys cfg)) i)) in
     if m > logsize then m else logsize) [0..<n] 0"

definition sm_ShutdownServer :: "nat \<Rightarrow> nat \<Rightarrow> unit Sys kconfig \<Rightarrow> kharnessfail + unit Sys kconfig" where
  "sm_ShutdownServer n = ShutdownServer (\<lambda>i. raftDo n (EKill i)) n"

definition smc_StartServer :: "nat \<Rightarrow> nat \<Rightarrow> string list \<Rightarrow> nat list \<Rightarrow> unit Sys kconfig \<Rightarrow> kharnessfail + unit Sys kconfig" where
  "smc_StartServer n = StartServer (\<lambda>i rnd. raftDo n (ERestart i rnd)) n"

definition sm_cleanup :: "nat \<Rightarrow> unit Sys kconfig \<Rightarrow> unit Sys kconfig" where
  "sm_cleanup n = kv_cleanup (\<lambda>i. raftDo n (EKill i)) n"

definition smc_make_config :: "nat \<Rightarrow> bool \<Rightarrow> (nat \<Rightarrow> string list) \<Rightarrow> (nat \<Rightarrow> nat list) \<Rightarrow> unit Sys \<Rightarrow> kharnessfail + unit Sys kconfig" where
  "smc_make_config n = kv_make_config (\<lambda>i rnd. raftDo n (ERestart i rnd)) n"

section \<open>Runs\<close>

text \<open>
  The harness starts with all servers down. Its operations and the events of the service come in any
  order; a server is started only when it is down, as the comment on \<open>StartServer\<close> asks.
\<close>

datatype khevent =
    KHStart nat "string list" "nat list"
  | KHShutdown nat
  | KHConnect nat "nat list"
  | KHDisconnect nat "nat list"
  | KHConnectAll
  | KHPartition "nat list" "nat list"
  | KHClient "nat list" "string list" "nat \<Rightarrow> nat" nat
  | KHConnectClient nat "nat list"
  | KHDisconnectClient nat "nat list"
  | KHDeleteClient nat
  | KHReliable bool
  | KHService kvevent

definition kv_off :: "nat \<Rightarrow> KvSys" where
  "kv_off n = fold (\<lambda>i. kvDo n (KRaft (EKill i))) [0..<n] (kv_init n (\<lambda>_. []))"

definition kcfg_step :: "nat \<Rightarrow> khevent \<Rightarrow> KvSys kconfig \<Rightarrow> (kharnessfail + KvSys kconfig) option" where
  "kcfg_step n ev cfg = (case ev of
     KHStart i names rnd \<Rightarrow> if i < n \<and> length names = n \<and> \<not> kServers cfg i then Some (kv_StartServer n i names rnd cfg) else None
   | KHShutdown i \<Rightarrow> if i < n then Some (kv_ShutdownServer n i cfg) else None
   | KHConnect i to \<Rightarrow> Some (connectUnlocked i to cfg)
   | KHDisconnect i from \<Rightarrow> Some (disconnectUnlocked i from cfg)
   | KHConnectAll \<Rightarrow> Some (ConnectAll n cfg)
   | KHPartition p1 p2 \<Rightarrow> Some (partition_cfg p1 p2 cfg)
   | KHClient to names rs r \<Rightarrow> if length names = n then Some (case makeClient n to names rs r cfg of Inl e \<Rightarrow> Inl e | Inr (_, cfg) \<Rightarrow> Inr cfg) else None
   | KHConnectClient ck to \<Rightarrow> Some (ConnectClientUnlocked ck to cfg)
   | KHDisconnectClient ck from \<Rightarrow> Some (DisconnectClientUnlocked ck from cfg)
   | KHDeleteClient ck \<Rightarrow> Some (Inr (deleteClient ck cfg))
   | KHReliable b \<Rightarrow> Some (Inr (cfg\<lparr>kNet := Reliable b (kNet cfg)\<rparr>))
   | KHService kev \<Rightarrow> (case kev of KRestart _ _ \<Rightarrow> None | KRaft (EKill _) \<Rightarrow> None
     | _ \<Rightarrow> (case kv_step n kev (ksys cfg) of None \<Rightarrow> None | Some s \<Rightarrow> Some (Inr (cfg\<lparr>ksys := s\<rparr>)))))"

inductive kcfg_reachable :: "nat \<Rightarrow> KvSys kconfig \<Rightarrow> bool" for n where
  kcfg_start: "kcfg_reachable n (kcfg_init n (kv_off n))"
| kcfg_more: "kcfg_reachable n cfg \<Longrightarrow> kcfg_step n ev cfg = Some (Inr cfg') \<Longrightarrow> kcfg_reachable n cfg'"

section \<open>The service under the harness\<close>

text \<open>
  What the harness needs of a service: killing and starting a server keep its states good. Then so
  do the harness's operations.
\<close>

locale harnessed =
  fixes good :: "'a \<Rightarrow> bool" and kill :: "nat \<Rightarrow> 'a \<Rightarrow> 'a" and start :: "nat \<Rightarrow> nat list \<Rightarrow> 'a \<Rightarrow> 'a"
  assumes good_kill: "good s \<Longrightarrow> good (kill i s)" and good_start: "good s \<Longrightarrow> good (start i rnd s)"
begin

lemma ShutdownServer_good: "good (ksys cfg) \<Longrightarrow> ShutdownServer kill n i cfg = Inr cfg' \<Longrightarrow> good (ksys cfg')"
  by (auto simp: ShutdownServer_def disconnectUnlocked_def enableEnds_def Let_def good_kill split: sum.splits if_splits)

lemma StartServer_good: "good (ksys cfg) \<Longrightarrow> StartServer start n i names rnd cfg = Inr cfg' \<Longrightarrow> good (ksys cfg')"
  by (auto simp: StartServer_def Let_def good_start split: sum.splits)

lemma cleanup_good: "good (ksys cfg) \<Longrightarrow> good (ksys (kv_cleanup kill n cfg))"
proof -
  have "good s \<Longrightarrow> good (fold (\<lambda>i. if P i then kill i else id) is s)" for P "is" s
    by (induction "is" arbitrary: s) (auto intro: good_kill)
  then show "good (ksys cfg) \<Longrightarrow> ?thesis" by (simp add: kv_cleanup_def)
qed

end

interpretation kv_service: harnessed "kv_reachable n" "\<lambda>i. kvDo n (KRaft (EKill i))" "\<lambda>i rnd. kvDo n (KRestart i rnd)"
  by unfold_locales (auto simp: kvDo_def split: option.splits intro: kv_more)

interpretation sm_service: harnessed "reachable n" "\<lambda>i. raftDo n (EKill i)" "\<lambda>i rnd. raftDo n (ERestart i rnd)"
  by unfold_locales (auto simp: raftDo_def split: option.splits intro: reachable.more)

section \<open>The names of the ends\<close>

text \<open>
  Each end of a server belongs to one pair of servers and leads to the second of them; the ends of
  the clerks are others.
\<close>

definition kinv :: "nat \<Rightarrow> 'a kconfig \<Rightarrow> bool" where
  "kinv n cfg \<longleftrightarrow>
     (\<forall>i es. kEndnames cfg i = Some es \<longrightarrow> i < n \<and> length es = n) \<and>
     (\<forall>i j e. kname cfg i j = Some e \<longrightarrow> ends (kNet cfg) e \<and> connections (kNet cfg) e = Some j) \<and>
     (\<forall>i j i' j' e. kname cfg i j = Some e \<longrightarrow> kname cfg i' j' = Some e \<longrightarrow> i = i' \<and> j = j') \<and>
     (\<forall>c es e. kClerks cfg c = Some es \<longrightarrow> e \<in> set es \<longrightarrow> ends (kNet cfg) e \<and> (\<forall>i j. kname cfg i j \<noteq> Some e))"

lemma kinvD:
  assumes "kinv n cfg"
  shows "kEndnames cfg i = Some es \<Longrightarrow> i < n \<and> length es = n"
    "kname cfg i j = Some e \<Longrightarrow> ends (kNet cfg) e \<and> connections (kNet cfg) e = Some j"
    "kname cfg i j = Some e \<Longrightarrow> kname cfg i' j' = Some e \<Longrightarrow> i = i' \<and> j = j'"
    "kClerks cfg c = Some es \<Longrightarrow> e \<in> set es \<Longrightarrow> ends (kNet cfg) e \<and> kname cfg i j \<noteq> Some e"
  using assms unfolding kinv_def by blast+

definition allStarted :: "nat \<Rightarrow> 'a kconfig \<Rightarrow> bool" where
  "allStarted n cfg \<longleftrightarrow> (\<forall>i < n. kEndnames cfg i \<noteq> None)"

lemma kname_some: "kinv n cfg \<Longrightarrow> allStarted n cfg \<Longrightarrow> i < n \<Longrightarrow> j < n \<Longrightarrow> \<exists>e. kname cfg i j = Some e"
  using kinvD(1) [of n cfg i] by (auto simp: allStarted_def kname_def)

text \<open>Two configurations that differ in which ends are enabled and in the service only.\<close>

definition same_names :: "'a kconfig \<Rightarrow> 'b kconfig \<Rightarrow> bool" where
  "same_names cfg cfg' \<longleftrightarrow> kEndnames cfg' = kEndnames cfg \<and> kClerks cfg' = kClerks cfg \<and>
     ends (kNet cfg') = ends (kNet cfg) \<and> connections (kNet cfg') = connections (kNet cfg)"

lemma same_namesD:
  assumes "same_names cfg cfg'"
  shows "kname cfg' = kname cfg" "kinv n cfg' = kinv n cfg" "allStarted n cfg' = allStarted n cfg"
proof -
  show k: "kname cfg' = kname cfg" using assms by (simp add: same_names_def kname_def fun_eq_iff)
  show "kinv n cfg' = kinv n cfg" "allStarted n cfg' = allStarted n cfg"
    using assms k by (simp_all add: kinv_def allStarted_def same_names_def)
qed

lemma same_names_trans: "same_names a b \<Longrightarrow> same_names b c \<Longrightarrow> same_names a c"
  by (simp add: same_names_def)

lemma enableEnds_ok:
  assumes "None \<notin> set es"
  shows "\<exists>cfg'. enableEnds b es cfg = Inr cfg' \<and> same_names cfg cfg' \<and>
    (\<forall>e. enabled (kNet cfg') e = (if Some e \<in> set es then b else enabled (kNet cfg) e))"
proof -
  have "e \<in> the ` set es \<longleftrightarrow> Some e \<in> set es" for e
  proof
    assume "e \<in> the ` set es"
    then obtain x where "x \<in> set es" "e = the x" by blast
    then show "Some e \<in> set es" using assms by (cases x rule: option.exhaust) auto
  next
    assume "Some e \<in> set es"
    then show "e \<in> the ` set es" by (rule rev_image_eqI) simp
  qed
  then show ?thesis using assms by (simp add: enableEnds_def same_names_def)
qed

section \<open>Links\<close>

definition link :: "'a kconfig \<Rightarrow> nat \<Rightarrow> nat \<Rightarrow> bool" where
  "link cfg i j = (case kname cfg i j of None \<Rightarrow> False | Some e \<Rightarrow> enabled (kNet cfg) e)"

text \<open>The new state of the links is \<open>f\<close> of the old; ends that belong to no pair of servers stay.\<close>

definition relinked :: "nat \<Rightarrow> (nat \<Rightarrow> nat \<Rightarrow> bool \<Rightarrow> bool) \<Rightarrow> 'a kconfig \<Rightarrow> 'a kconfig \<Rightarrow> bool" where
  "relinked n f cfg cfg' \<longleftrightarrow> same_names cfg cfg' \<and> (\<forall>a < n. \<forall>b < n. link cfg' a b = f a b (link cfg a b)) \<and>
     (\<forall>e. (\<forall>a b. kname cfg a b \<noteq> Some e) \<longrightarrow> enabled (kNet cfg') e = enabled (kNet cfg) e)"

lemma relinked_trans:
  assumes "relinked n f c1 c2" "relinked n g c2 c3"
  shows "relinked n (\<lambda>a b x. g a b (f a b x)) c1 c3"
  using assms same_namesD(1) [of c1 c2] same_names_trans [of c1 c2 c3] by (simp add: relinked_def)

lemma enableEnds_relinked:
  assumes "kinv n cfg" "set es = (\<lambda>(a, b). kname cfg a b) ` P" "P \<subseteq> {..<n} \<times> {..<n}" "allStarted n cfg"
  obtains cfg' where "enableEnds v es cfg = Inr cfg'" "relinked n (\<lambda>a b x. if (a, b) \<in> P then v else x) cfg cfg'"
proof -
  have some: "\<exists>e. kname cfg a b = Some e" if "(a, b) \<in> P" for a b using kname_some [OF assms(1,4)] assms(3) that by auto
  then have "None \<notin> set es" using assms(2) by force
  then obtain cfg' where c: "enableEnds v es cfg = Inr cfg'" "same_names cfg cfg'"
    "\<And>e. enabled (kNet cfg') e = (if Some e \<in> set es then v else enabled (kNet cfg) e)" using enableEnds_ok [of es v cfg] by blast
  have mem: "Some e \<in> set es \<longleftrightarrow> (a, b) \<in> P" if "kname cfg a b = Some e" for a b e
  proof
    assume "Some e \<in> set es"
    then obtain a' b' where "(a', b') \<in> P" "kname cfg a' b' = Some e" unfolding assms(2) by auto
    then show "(a, b) \<in> P" using kinvD(3) [OF assms(1) that] by blast
  next
    assume "(a, b) \<in> P"
    then show "Some e \<in> set es" unfolding assms(2) using that by (intro rev_image_eqI) auto
  qed
  have "relinked n (\<lambda>a b x. if (a, b) \<in> P then v else x) cfg cfg'"
    unfolding relinked_def
  proof (intro conjI allI impI)
    show "same_names cfg cfg'" by (rule c(2))
    fix a b assume "a < n" "b < n"
    then obtain e where "kname cfg a b = Some e" using kname_some [OF assms(1,4)] by blast
    then show "link cfg' a b = (if (a, b) \<in> P then v else link cfg a b)"
      using same_namesD(1) [OF c(2)] c(3) [of e] mem by (simp add: link_def)
  next
    fix e assume "\<forall>a b. kname cfg a b \<noteq> Some e"
    then have "Some e \<notin> set es" unfolding assms(2) by (metis (no_types, lifting) case_prod_unfold image_iff)
    then show "enabled (kNet cfg') e = enabled (kNet cfg) e" using c(3) by simp
  qed
  then show ?thesis using that c(1) by blast
qed

definition between :: "nat \<Rightarrow> nat set \<Rightarrow> (nat \<times> nat) set" where
  "between i T = {i} \<times> T \<union> T \<times> {i}"

lemma connect_relinked:
  assumes "kinv n cfg" "allStarted n cfg" "i < n" "set to \<subseteq> {..<n}"
  obtains cfg' where "connectUnlocked i to cfg = Inr cfg'" "relinked n (\<lambda>a b x. if (a, b) \<in> between i (set to) then True else x) cfg cfg'"
  unfolding connectUnlocked_def
  by (rule enableEnds_relinked [OF assms(1) _ _ assms(2), of _ "between i (set to)" True])
    (use assms(3,4) in \<open>auto simp: between_def\<close>)

lemma disconnect_relinked:
  assumes "kinv n cfg" "allStarted n cfg" "i < n" "set from \<subseteq> {..<n}" "length from \<le> n"
  obtains cfg' where "disconnectUnlocked i from cfg = Inr cfg'" "relinked n (\<lambda>a b x. if (a, b) \<in> between i (set from) then False else x) cfg cfg'"
proof -
  have "filter (\<lambda>(j, f). kEndnames cfg j \<noteq> None) (enumerate 0 from) = enumerate 0 from"
    using assms(2,5) by (auto simp: filter_id_conv allStarted_def in_set_enumerate_eq)
  moreover have "map (\<lambda>(j, f). kname cfg f i) (enumerate 0 from) = map (\<lambda>f. kname cfg f i) from"
    by (rule nth_equalityI) (simp_all add: nth_enumerate_eq)
  moreover have "kEndnames cfg i \<noteq> None" using assms(2,3) by (simp add: allStarted_def)
  ultimately have "disconnectUnlocked i from cfg = enableEnds False (map (kname cfg i) from @ map (\<lambda>f. kname cfg f i) from) cfg"
    by (simp only: disconnectUnlocked_def if_False)
  moreover obtain cfg' where "enableEnds False (map (kname cfg i) from @ map (\<lambda>f. kname cfg f i) from) cfg = Inr cfg'"
    "relinked n (\<lambda>a b x. if (a, b) \<in> between i (set from) then False else x) cfg cfg'"
    by (rule enableEnds_relinked [OF assms(1) _ _ assms(2), of _ "between i (set from)" False])
      (use assms(3,4) in \<open>auto simp: between_def\<close>)
  ultimately show ?thesis using that by simp
qed

section \<open>Partitions\<close>

lemma relinked_inv: "relinked n f cfg cfg' \<Longrightarrow> kinv n cfg \<Longrightarrow> allStarted n cfg \<Longrightarrow> kinv n cfg' \<and> allStarted n cfg'"
  using same_namesD [of cfg cfg'] by (simp add: relinked_def)

lemma relinked_cong: "relinked n f cfg cfg' \<Longrightarrow> (\<And>a b x. a < n \<Longrightarrow> b < n \<Longrightarrow> f a b x = g a b x) \<Longrightarrow> relinked n g cfg cfg'"
  by (simp add: relinked_def)

text \<open>Everything between \<open>S\<close> and \<open>own\<close> is linked, nothing between \<open>S\<close> and \<open>other\<close>.\<close>

definition split_off :: "nat set \<Rightarrow> nat set \<Rightarrow> nat set \<Rightarrow> nat \<Rightarrow> nat \<Rightarrow> bool \<Rightarrow> bool" where
  "split_off own other S a b x =
     (if a \<in> S \<and> b \<in> own \<or> b \<in> S \<and> a \<in> own then True
      else if a \<in> S \<and> b \<in> other \<or> b \<in> S \<and> a \<in> other then False else x)"

lemma isolate_relinked:
  assumes "kinv n cfg" "allStarted n cfg" "i < n" "set own \<subseteq> {..<n}" "set other \<subseteq> {..<n}" "length other \<le> n"
  obtains cfg' where "isolate own other i cfg = Inr cfg'" "relinked n (split_off (set own) (set other) {i}) cfg cfg'"
proof -
  obtain c1 where c1: "disconnectUnlocked i other cfg = Inr c1"
    "relinked n (\<lambda>a b x. if (a, b) \<in> between i (set other) then False else x) cfg c1"
    by (rule disconnect_relinked [OF assms(1-3,5,6)])
  obtain c2 where c2: "connectUnlocked i own c1 = Inr c2"
    "relinked n (\<lambda>a b x. if (a, b) \<in> between i (set own) then True else x) c1 c2"
    using relinked_inv [OF c1(2) assms(1,2)] connect_relinked [OF _ _ assms(3,4)] by metis
  have "relinked n (split_off (set own) (set other) {i}) cfg c2"
    by (rule relinked_cong [OF relinked_trans [OF c1(2) c2(2)]]) (auto simp: split_off_def between_def)
  then show ?thesis using that c1(1) c2(1) by (simp add: isolate_def)
qed

lemma isolate_all:
  assumes "set own \<subseteq> {..<n}" "set other \<subseteq> {..<n}" "length other \<le> n" "set own \<inter> set other = {}"
  shows "kinv n cfg \<Longrightarrow> allStarted n cfg \<Longrightarrow> set is \<subseteq> set own \<Longrightarrow>
    \<exists>cfg'. foldE (isolate own other) is cfg = Inr cfg' \<and> relinked n (split_off (set own) (set other) (set is)) cfg cfg'"
proof (induction "is" arbitrary: cfg)
  case Nil
  then show ?case by (simp add: relinked_def same_names_def split_off_def)
next
  case (Cons i "is")
  then have i: "i < n" "i \<in> set own" "set is \<subseteq> set own" using assms(1) by auto
  obtain c1 where c1: "isolate own other i cfg = Inr c1" "relinked n (split_off (set own) (set other) {i}) cfg c1"
    by (rule isolate_relinked [OF Cons.prems(1,2) i(1) assms(1-3)])
  obtain c2 where c2: "foldE (isolate own other) is c1 = Inr c2" "relinked n (split_off (set own) (set other) (set is)) c1 c2"
    using Cons.IH [of c1] relinked_inv [OF c1(2) Cons.prems(1,2)] i(3) by blast
  have "relinked n (split_off (set own) (set other) (set (i # is))) cfg c2"
    by (rule relinked_cong [OF relinked_trans [OF c1(2) c2(2)]]) (use assms(4) i in \<open>auto simp: split_off_def\<close>)
  then show ?case using c1(1) c2(1) by simp
qed

lemma partition_relinked:
  assumes "kinv n cfg" "allStarted n cfg" "set p1 \<subseteq> {..<n}" "set p2 \<subseteq> {..<n}" "distinct p1" "distinct p2" "set p1 \<inter> set p2 = {}"
  obtains cfg' where "partition_cfg p1 p2 cfg = Inr cfg'"
    "relinked n (\<lambda>a b x. split_off (set p2) (set p1) (set p2) a b (split_off (set p1) (set p2) (set p1) a b x)) cfg cfg'"
proof -
  have len: "length p1 \<le> n" "length p2 \<le> n"
    using assms(3-6) card_mono [of "{..<n}"] by (auto simp flip: distinct_card)
  obtain c1 where c1: "foldE (isolate p1 p2) p1 cfg = Inr c1" "relinked n (split_off (set p1) (set p2) (set p1)) cfg c1"
    using isolate_all [OF assms(3,4) len(2) assms(7,1,2) order_refl] by blast
  moreover obtain c2 where c2: "foldE (isolate p2 p1) p2 c1 = Inr c2" "relinked n (split_off (set p2) (set p1) (set p2)) c1 c2"
    using isolate_all [OF assms(4,3) len(1)] relinked_inv [OF c1(2) assms(1,2)] assms(7) by (metis inf_commute order_refl)
  ultimately show ?thesis using that relinked_trans [OF c1(2) c2(2)] by (simp add: partition_cfg_def)
qed

section \<open>All operations keep the names apart\<close>

lemma enableEnds_same: "enableEnds b es cfg = Inr cfg' \<Longrightarrow> same_names cfg cfg' \<and> kServers cfg' = kServers cfg \<and> ksys cfg' = ksys cfg"
  by (auto simp: enableEnds_def same_names_def split: if_splits)

lemma isolate_same: "isolate own other i cfg = Inr cfg' \<Longrightarrow> same_names cfg cfg' \<and> kServers cfg' = kServers cfg \<and> ksys cfg' = ksys cfg"
  by (auto simp: isolate_def connectUnlocked_def disconnectUnlocked_def split: sum.splits dest!: enableEnds_same intro: same_names_trans)

lemma foldE_same:
  assumes "foldE f xs cfg = Inr cfg'"
    "\<And>x c c'. f x c = Inr c' \<Longrightarrow> same_names c c' \<and> kServers c' = kServers c \<and> ksys c' = ksys c"
  shows "same_names cfg cfg' \<and> kServers cfg' = kServers cfg \<and> ksys cfg' = ksys cfg"
  by (rule foldE_invariant [OF assms(1)]) (use assms(2) same_names_trans in \<open>auto simp: same_names_def\<close>)

text \<open>A new instance of a server and a new clerk bring new names.\<close>

lemma StartServer_inv:
  assumes "kinv n cfg" "i < n" "length names = n" "StartServer start n i names rnd cfg = Inr cfg'"
  shows "kinv n cfg'"
proof -
  obtain rn where rn: "makeEnds False (zip names [0..<n]) (kNet cfg) = Inr rn" using assms(4) by (auto simp: StartServer_def Let_def split: sum.splits)
  have f: "kEndnames cfg' = (kEndnames cfg)(i := Some names)" "kClerks cfg' = kClerks cfg"
    "ends (kNet cfg') = ends rn" "connections (kNet cfg') = connections rn"
    using assms(4) rn by (auto simp: StartServer_def Let_def AddServer_def)
  note ok = makeEnds_ok [OF rn, unfolded zip_upt_names [OF assms(3)]]
  note inv = kinvD [OF assms(1)]
  have e: "kname cfg' a b = (if a = i then if b < n then Some (names ! b) else None else kname cfg a b)" for a b
    using assms(3) by (simp add: kname_def f(1))
  have old: "x \<notin> set names" if "kname cfg a b = Some x" for a b x using inv(2) [OF that] ok(2) by blast
  have mem: "names ! b \<in> set names" if "b < n" for b using that assms(3) by simp
  show ?thesis unfolding kinv_def
  proof (intro conjI allI impI)
    fix a es assume "kEndnames cfg' a = Some es"
    then show "a < n" "length es = n" using inv(1) [of a es] assms(2,3) by (auto simp: f(1) split: if_splits)
  next
    fix a b x assume x: "kname cfg' a b = Some x"
    show "ends (kNet cfg') x" "connections (kNet cfg') x = Some b"
      using x inv(2) [of a b x] ok(3) [of x] ok(5) [of x b] ok(6) [of x] old [of a b x] zip_upt_names(3) [OF assms(3), of b] mem
      by (auto simp: f e split: if_splits)
  next
    fix a b a' b' x assume x: "kname cfg' a b = Some x" "kname cfg' a' b' = Some x"
    have "a = i \<longleftrightarrow> a' = i" using x old mem by (auto simp: e split: if_splits)
    then show "a = a'" "b = b'" using x inv(3) [of a b x a' b'] ok(1) assms(3) by (auto simp: e nth_eq_iff_index_eq split: if_splits)
  next
    fix c es x assume c: "kClerks cfg' c = Some es" "x \<in> set es"
    then have x: "ends (kNet cfg) x" "kname cfg a b \<noteq> Some x" for a b using inv(4) [of c es x] by (simp_all add: f(2))
    then show "ends (kNet cfg') x" using ok(3) by (simp add: f(3))
    fix a b
    show "kname cfg' a b \<noteq> Some x" using x ok(2) [of x] mem by (auto simp: e)
  qed
qed

lemma makeClient_inv:
  assumes "kinv n cfg" "length names = n" "makeClient n to names rs r cfg = Inr (ck, cfg')"
  shows "kinv n cfg' \<and> kServers cfg' = kServers cfg \<and> kEndnames cfg' = kEndnames cfg \<and> ksys cfg' = ksys cfg"
proof -
  obtain rn where rn: "makeEnds False (zip names [0..<n]) (kNet cfg) = Inr rn" using assms(3) by (auto simp: makeClient_def Let_def split: sum.splits)
  define c1 where "c1 = cfg\<lparr>kNet := rn, kClerks := (kClerks cfg)(nextClientId cfg \<mapsto> names), nextClientId := nextClientId cfg + 1\<rparr>"
  have c: "same_names c1 cfg'" "kServers cfg' = kServers cfg" "kEndnames cfg' = kEndnames cfg" "ksys cfg' = ksys cfg"
    using assms(3) rn by (auto simp: makeClient_def Let_def c1_def [symmetric] ConnectClientUnlocked_def split: sum.splits dest!: enableEnds_same)
      (simp_all add: c1_def same_names_def)
  note ok = makeEnds_ok [OF rn, unfolded zip_upt_names [OF assms(2)]]
  note inv = kinvD [OF assms(1)]
  have k: "kname c1 = kname cfg" by (simp add: c1_def kname_def fun_eq_iff)
  have "kinv n c1" unfolding kinv_def
  proof (intro conjI allI impI)
    fix a b x assume x: "kname c1 a b = Some x"
    then have "ends (kNet cfg) x" "connections (kNet cfg) x = Some b" using inv(2) k by simp_all
    then show "ends (kNet c1) x" "connections (kNet c1) x = Some b" using ok(2,3,6) [of x] by (auto simp: c1_def)
  next
    fix c es x assume c: "kClerks c1 c = Some es" "x \<in> set es"
    show "ends (kNet c1) x" using c ok(3) [of x] inv(4) [of c es x] by (auto simp: c1_def split: if_splits)
    fix a b
    show "kname c1 a b \<noteq> Some x" using c inv(4) [of c es x] inv(2) [of a b x] ok(2) [of x] unfolding k by (auto simp: c1_def split: if_splits)
  qed (use inv(1,3) k in \<open>auto simp: c1_def\<close>)
  then show ?thesis using c same_namesD(2) [OF c(1)] by simp
qed

text \<open>
  In every configuration of a run: the names are apart, a server that runs has names, and the
  service is in one of its own reachable states.
\<close>

definition kgood :: "nat \<Rightarrow> KvSys kconfig \<Rightarrow> bool" where
  "kgood n cfg \<longleftrightarrow> kinv n cfg \<and> (\<forall>i. kServers cfg i \<longrightarrow> kEndnames cfg i \<noteq> None) \<and> kv_reachable n (ksys cfg)"

lemma same_good: "kgood n cfg \<Longrightarrow> same_names cfg cfg' \<and> kServers cfg' = kServers cfg \<and> ksys cfg' = ksys cfg \<Longrightarrow> kgood n cfg'"
  using same_namesD(2) [of cfg cfg' n] by (simp add: kgood_def same_names_def)

lemma connect_same:
  "connectUnlocked i to cfg = Inr cfg' \<Longrightarrow> same_names cfg cfg' \<and> kServers cfg' = kServers cfg \<and> ksys cfg' = ksys cfg"
  "disconnectUnlocked i to cfg = Inr cfg' \<Longrightarrow> same_names cfg cfg' \<and> kServers cfg' = kServers cfg \<and> ksys cfg' = ksys cfg"
  unfolding connectUnlocked_def disconnectUnlocked_def by (rule enableEnds_same, assumption)+

lemma connect_client_same:
  "ConnectClientUnlocked c to cfg = Inr cfg' \<Longrightarrow> same_names cfg cfg' \<and> kServers cfg' = kServers cfg \<and> ksys cfg' = ksys cfg"
  "DisconnectClientUnlocked c to cfg = Inr cfg' \<Longrightarrow> same_names cfg cfg' \<and> kServers cfg' = kServers cfg \<and> ksys cfg' = ksys cfg"
  unfolding ConnectClientUnlocked_def DisconnectClientUnlocked_def Let_def by (rule enableEnds_same, assumption)+

lemma partition_same:
  assumes "partition_cfg p1 p2 cfg = Inr cfg'"
  shows "same_names cfg cfg' \<and> kServers cfg' = kServers cfg \<and> ksys cfg' = ksys cfg"
proof -
  obtain c where c: "foldE (isolate p1 p2) p1 cfg = Inr c" "foldE (isolate p2 p1) p2 c = Inr cfg'"
    using assms by (auto simp: partition_cfg_def split: sum.splits)
  show ?thesis using foldE_same [OF c(1) isolate_same] foldE_same [OF c(2) isolate_same] same_names_trans [of cfg c cfg'] by simp
qed

lemma ConnectAll_same:
  assumes "ConnectAll n cfg = Inr cfg'"
  shows "same_names cfg cfg' \<and> kServers cfg' = kServers cfg \<and> ksys cfg' = ksys cfg"
  using assms unfolding ConnectAll_def by (rule foldE_same) (rule connect_same(1))

lemmas enables_good = connect_same [THEN same_good [rotated]] connect_client_same [THEN same_good [rotated]]
  partition_same [THEN same_good [rotated]] ConnectAll_same [THEN same_good [rotated]]

lemma ShutdownServer_kgood:
  assumes "kgood n cfg" "kv_ShutdownServer n i cfg = Inr cfg'"
  shows "kgood n cfg'"
proof -
  obtain c where c: "disconnectUnlocked i (All_servers n) cfg = Inr c" using assms(2) by (auto simp: kv_ShutdownServer_def ShutdownServer_def split: sum.splits)
  have "kgood n c" by (rule same_good [OF assms(1) connect_same(2) [OF c]])
  moreover have "same_names c cfg'" "kServers cfg' = (kServers c)(i := False)"
    using assms(2) c by (auto simp: kv_ShutdownServer_def ShutdownServer_def Let_def same_names_def DeleteServer_def fun_eq_iff split: if_splits)
  moreover have "kv_reachable n (ksys cfg')"
    using kv_service.ShutdownServer_good assms by (auto simp: kgood_def kv_ShutdownServer_def)
  ultimately show ?thesis using same_namesD(2) [of c cfg' n] by (simp add: kgood_def same_names_def)
qed

lemma StartServer_kgood:
  assumes "kgood n cfg" "i < n" "length names = n" "kv_StartServer n i names rnd cfg = Inr cfg'"
  shows "kgood n cfg'"
proof -
  have "kinv n cfg'" using StartServer_inv [OF _ assms(2,3)] assms(1,4) by (auto simp: kgood_def kv_StartServer_def)
  moreover have "kServers cfg' = (kServers cfg)(i := True)" "kEndnames cfg' = (kEndnames cfg)(i := Some names)"
    using assms(4) by (auto simp: kv_StartServer_def StartServer_def Let_def split: sum.splits)
  moreover have "kv_reachable n (ksys cfg')"
    using kv_service.StartServer_good assms(1,4) by (auto simp: kgood_def kv_StartServer_def)
  ultimately show ?thesis using assms(1) by (simp add: kgood_def)
qed

lemma kv_off_reachable: "kv_reachable n (kv_off n)"
proof -
  have "kv_reachable n s \<Longrightarrow> kv_reachable n (fold (\<lambda>i. kvDo n (KRaft (EKill i))) is s)" for "is" s
    by (induction "is" arbitrary: s) (auto intro: kv_service.good_kill)
  then show ?thesis unfolding kv_off_def by (simp add: kv_reachable.kv_init)
qed

lemma kcfg_step_good:
  assumes "kgood n cfg" "kcfg_step n ev cfg = Some (Inr cfg')"
  shows "kgood n cfg'"
proof (cases ev)
  case (KHStart i names rnd)
  with assms(2) show ?thesis using StartServer_kgood [OF assms(1)] by (auto simp: kcfg_step_def split: if_splits)
next
  case (KHShutdown i)
  with assms(2) show ?thesis using ShutdownServer_kgood [OF assms(1)] by (auto simp: kcfg_step_def split: if_splits)
next
  case (KHClient to names rs r)
  with assms(2) obtain ck where "length names = n" "makeClient n to names rs r cfg = Inr (ck, cfg')"
    by (auto simp: kcfg_step_def split: if_splits sum.splits)
  then show ?thesis using makeClient_inv [of n cfg] assms(1) by (simp add: kgood_def)
next
  case (KHDeleteClient c)
  with assms show ?thesis by (auto simp: kcfg_step_def deleteClient_def kgood_def kinv_def kname_def split: if_splits)
next
  case (KHReliable b)
  with assms show ?thesis by (auto simp: kcfg_step_def Reliable_def kgood_def kinv_def kname_def)
next
  case (KHService kev)
  with assms(2) obtain s where "kv_step n kev (ksys cfg) = Some s" "cfg' = cfg\<lparr>ksys := s\<rparr>"
    by (auto simp: kcfg_step_def split: kvevent.splits event.splits option.splits)
  then show ?thesis using assms(1) kv_more by (auto simp: kgood_def kinv_def kname_def)
qed (use assms in \<open>auto simp: kcfg_step_def intro: enables_good\<close>)

lemma kcfg_reachable_good: "kcfg_reachable n cfg \<Longrightarrow> kgood n cfg"
proof (induction rule: kcfg_reachable.induct)
  case kcfg_start
  then show ?case by (simp add: kgood_def kinv_def kname_def kcfg_init_def kv_off_reachable)
next
  case (kcfg_more cfg ev cfg')
  then show ?case using kcfg_step_good by blast
qed

section \<open>The partition that puts the leader in the minority\<close>

lemma fillParts_ok:
  assumes "j + length (filter (\<lambda>i. i \<noteq> l) is) \<le> length p1 + length p2"
  shows "\<exists>q1 q2. fillParts is l j p1 p2 = Inr (q1, q2) \<and> length q1 = length p1 \<and> length q2 = length p2 \<and>
    q1 @ q2 = take j (p1 @ p2) @ filter (\<lambda>i. i \<noteq> l) is @ drop (j + length (filter (\<lambda>i. i \<noteq> l) is)) (p1 @ p2)"
  using assms
proof (induction "is" l j p1 p2 rule: fillParts.induct)
  case (2 i "is" l j p1 p2)
  have upd: "take (Suc j) (xs[j := i]) = take j xs @ [i]" "drop (Suc (j + k)) (xs[j := i]) = drop (Suc (j + k)) xs" if "j < length xs" for xs k
    using that by (simp_all add: take_Suc_conv_app_nth take_update_swap drop_update_cancel list_update_append)
  show ?case
  proof (cases "i = l")
    case True
    then show ?thesis using 2(3) 2(4) by simp
  next
    case False
    then have j: "j < length (p1 @ p2)" using 2(4) by simp
    show ?thesis
    proof (cases "j < length p1")
      case True
      then show ?thesis using 2(1) [OF False True] 2(4) False upd [OF j] by (simp add: list_update_append del: take_append drop_append)
    next
      case nj: False
      then have k: "j - length p1 < length p2" using j by simp
      then show ?thesis using 2(2) [OF False nj k] 2(4) False nj upd [OF j] by (simp add: list_update_append del: take_append drop_append)
    qed
  qed
qed (simp del: take_append drop_append)

lemma Leader_ok:
  assumes "\<forall>i < n. kServers cfg i" "0 < n"
  shows "\<exists>l < n. Leader n leads cfg = Inr (\<exists>i < n. leads i, l) \<and> ((\<exists>i < n. leads i) \<longrightarrow> leads l \<and> (\<forall>j < l. \<not> leads j))"
proof -
  have "\<exists>l. LeaderFrom is leads cfg = Inr (\<exists>i \<in> set is. leads i, l) \<and>
      (l \<in> set is \<and> leads l \<and> (\<forall>j \<in> set is. j < l \<longrightarrow> \<not> leads j) \<or> l = 0 \<and> (\<forall>i \<in> set is. \<not> leads i))"
    if "\<forall>i \<in> set is. kServers cfg i" "sorted is" for "is"
    using that by (induction "is") fastforce+
  from this [of "[0..<n]"] assms show ?thesis unfolding Leader_def by (auto simp: atLeast0LessThan)
qed

lemma make_partition_ok:
  assumes "\<forall>i < n. kServers cfg i" "odd n" "3 \<le> n" "l < n" "Leader n leads cfg = Inr (found, l)"
  obtains p1 p2 where "make_partition n leads cfg = Inr (p1, p2)" "length p1 = n div 2 + 1" "l \<in> set p2"
    "p1 @ p2 = filter (\<lambda>i. i \<noteq> l) [0..<n] @ [l]"
proof -
  define rest where "rest = filter (\<lambda>i. i \<noteq> l) [0..<n]"
  have "distinct rest" "set rest = {..<n} - {l}" by (auto simp: rest_def)
  then have len: "length rest = n - 1" using assms(4) by (simp flip: distinct_card)
  obtain k where n: "n = k + 1 + k" using oddE [OF assms(2)] by (metis add.assoc add.commute mult_2)
  then have k: "n div 2 = k" "1 \<le> k" using assms(3) by simp_all
  obtain q1 q2 where q: "fillParts [0..<n] l 0 (replicate (k + 1) 0) (replicate k 0) = Inr (q1, q2)"
    "length q1 = k + 1" "length q2 = k" "q1 @ q2 = rest @ drop (n - 1) (replicate (k + 1) 0 @ replicate k 0)"
    using fillParts_ok [of 0 l "[0..<n]" "replicate (k + 1) 0" "replicate k 0"] len n unfolding rest_def [symmetric] by auto
  have "drop (n - 1) (replicate (k + 1) 0 @ replicate k (0 :: nat)) = [0]" unfolding replicate_add [symmetric] drop_replicate n by simp
  then have q4: "q1 @ q2 = rest @ [0]" using q(4) by simp
  have "q1 @ q2[k - 1 := l] = (q1 @ q2)[k + 1 + (k - 1) := l]" using q(2) by (simp add: list_update_append)
  also have "\<dots> = rest @ [l]" unfolding q4 using len n k(2) by (simp add: list_update_append)
  finally have "q1 @ q2[k - 1 := l] = rest @ [l]" .
  moreover have "make_partition n leads cfg = Inr (q1, q2[k - 1 := l])"
    using q(1-3) k assms(5) by (auto simp: make_partition_def)
  moreover have "l \<in> set (q2[k - 1 := l])" using q(3) k(2) by (intro set_update_memI) simp
  ultimately show ?thesis using that q(2) k(1) unfolding rest_def by blast
qed

section \<open>The ends of a clerk\<close>

lemma shuffleFrom_mset: "i + k = length sa \<Longrightarrow> mset (shuffleFrom i rs k sa) = mset sa"
proof (induction k arbitrary: i sa)
  case (Suc k)
  have "rs i mod (i + 1) < length sa" using Suc.prems mod_less_divisor [of "i + 1" "rs i"] by linarith
  moreover have "i < length sa" using Suc.prems by simp
  ultimately have "mset (sa[i := sa ! (rs i mod (i + 1)), rs i mod (i + 1) := sa ! i]) = mset sa" by (rule mset_swap)
  then show ?case using Suc by (simp add: Let_def)
qed simp

lemma random_handles_mset: "mset (random_handles rs kvh) = mset kvh"
  by (simp add: random_handles_def shuffleFrom_mset)

section \<open>A run\<close>

text \<open>Three servers are started and connected, a clerk is made, and server 0 is elected.\<close>

fun kcfg_script :: "nat \<Rightarrow> (KvSys kconfig \<Rightarrow> khevent) list \<Rightarrow> KvSys kconfig \<Rightarrow> KvSys kconfig option" where
  "kcfg_script n [] cfg = Some cfg"
| "kcfg_script n (f # fs) cfg = (case kcfg_step n (f cfg) cfg of Some (Inr cfg) \<Rightarrow> kcfg_script n fs cfg | _ \<Rightarrow> None)"

lemma kcfg_script_reachable: "kcfg_reachable n cfg \<Longrightarrow> kcfg_script n fs cfg = Some cfg' \<Longrightarrow> kcfg_reachable n cfg'"
  by (induction fs arbitrary: cfg) (auto split: option.splits sum.splits intro: kcfg_more)

definition khdo :: "khevent \<Rightarrow> KvSys kconfig \<Rightarrow> khevent" where
  "khdo ev cfg = ev"

definition khdeliver :: "nat \<Rightarrow> KvSys kconfig \<Rightarrow> khevent" where
  "khdeliver k cfg = KHService (KRaft (EDeliver (net (rsys (ksys cfg)) ! k)))"

definition kdemo_script :: "(KvSys kconfig \<Rightarrow> khevent) list" where
  "kdemo_script = map khdo [KHStart 0 [''00'', ''01'', ''02''] [], KHStart 1 [''10'', ''11'', ''12''] [], KHStart 2 [''20'', ''21'', ''22''] [],
     KHConnectAll, KHClient [0, 1, 2] [''c0'', ''c1'', ''c2''] (\<lambda>i. i + 2) 5] @
     replicate 10 (khdo (KHService (KRaft (ETick 0)))) @ [khdeliver 0, khdeliver 2]"

definition kdemo_cfg :: "KvSys kconfig" where
  "kdemo_cfg = the (kcfg_script 3 kdemo_script (kcfg_init 3 (kv_off 3)))"

lemma kdemo_some: "kcfg_script 3 kdemo_script (kcfg_init 3 (kv_off 3)) \<noteq> None"
  by code_simp

lemma kdemo_reachable: "kcfg_reachable 3 kdemo_cfg"
  using kcfg_script_reachable [OF kcfg_start] kdemo_some by (auto simp: kdemo_cfg_def)

lemma kdemo_facts: "kServers kdemo_cfg 0" "kServers kdemo_cfg 1" "kServers kdemo_cfg 2"
  "state (node (rsys (ksys kdemo_cfg)) 0) = StateLeader"
  by code_simp+

text \<open>
  Then server 1 is elected in the next term without server 0 hearing of it: \<open>Leader\<close> reports
  the deposed server 0, and the leader is in the majority.
\<close>

definition kstale_script :: "(KvSys kconfig \<Rightarrow> khevent) list" where
  "kstale_script = kdemo_script @ replicate 10 (khdo (KHService (KRaft (ETick 1)))) @ [khdeliver 6, khdeliver 7]"

lemma stale_leader_partition:
  "case kcfg_script 3 kstale_script (kcfg_init 3 (kv_off 3)) of None \<Rightarrow> False
   | Some cfg \<Rightarrow> (let r = node (rsys (ksys cfg)) in
       GetState (r 0) (r 0) = (2, True) \<and> GetState (r 1) (r 1) = (3, True) \<and> GetState (r 2) (r 2) = (3, False) \<and>
       make_partition 3 (\<lambda>i. snd (GetState (r i) (r i))) cfg = Inr ([1, 2], [0]))"
  by code_simp

section \<open>Theorem\<close>

text \<open>
  C39: \<open>make_partition\<close> and \<open>partition\<close>, whatever the servers said when they were asked whether
  they lead. With an odd number of servers, all running, they neither panic nor leave anybody out:
  the server that \<open>Leader\<close> reports, the first that said it leads, is in the smaller part
  \<open>p2\<close>, the other part is a majority, afterwards two servers can reach each other exactly
  when they are in the same part, and the ends of the clerks are as before. So the leader
  is in the minority when no other server believes it leads; beside a deposed leader it need not be
  (\<open>stale_leader_partition\<close>).
\<close>

theorem partition_isolates_leader:
  assumes "kcfg_reachable n cfg" "odd n" "3 \<le> n" "\<forall>i < n. kServers cfg i"
  shows "\<exists>p1 p2 cfg' l. make_partition n leads cfg = Inr (p1, p2) \<and> partition_cfg p1 p2 cfg = Inr cfg' \<and>
    mset (p1 @ p2) = mset [0..<n] \<and> length p1 = n div 2 + 1 \<and>
    Leader n leads cfg = Inr (\<exists>i < n. leads i, l) \<and> l \<in> set p2 \<and> ((\<exists>i < n. leads i) \<longrightarrow> leads l \<and> (\<forall>j < l. \<not> leads j)) \<and>
    (\<forall>a < n. \<forall>b < n. link cfg' a b = (a \<in> set p1 \<longleftrightarrow> b \<in> set p1)) \<and>
    (\<forall>c es. kClerks cfg c = Some es \<longrightarrow> (\<forall>e \<in> set es. enabled (kNet cfg') e = enabled (kNet cfg) e))"
proof -
  note good = kcfg_reachable_good [OF assms(1), unfolded kgood_def]
  then have inv: "kinv n cfg" and started: "allStarted n cfg" using assms(4) by (simp_all add: allStarted_def)
  obtain l where l: "l < n" "Leader n leads cfg = Inr (\<exists>i < n. leads i, l)" "(\<exists>i < n. leads i) \<longrightarrow> leads l \<and> (\<forall>j < l. \<not> leads j)"
    using Leader_ok [OF assms(4), of leads] assms(3) by auto
  obtain p1 p2 where p: "make_partition n leads cfg = Inr (p1, p2)" "length p1 = n div 2 + 1" "l \<in> set p2"
    "p1 @ p2 = filter (\<lambda>i. i \<noteq> l) [0..<n] @ [l]"
    by (rule make_partition_ok [OF assms(4,2,3) l(1,2)])
  have d: "distinct (p1 @ p2)" "set (p1 @ p2) = {..<n}" unfolding p(4) using l(1) by auto
  then have d': "distinct p1" "distinct p2" "set p1 \<inter> set p2 = {}" "set p1 \<subseteq> {..<n}" "set p2 \<subseteq> {..<n}" by auto
  obtain cfg' where c: "partition_cfg p1 p2 cfg = Inr cfg'"
    "relinked n (\<lambda>a b x. split_off (set p2) (set p1) (set p2) a b (split_off (set p1) (set p2) (set p1) a b x)) cfg cfg'"
    by (rule partition_relinked [OF inv started d'(4,5,1,2,3)])
  have in2: "a \<in> set p2 \<longleftrightarrow> a \<notin> set p1" if "a < n" for a using d that by auto
  have "link cfg' a b = (a \<in> set p1 \<longleftrightarrow> b \<in> set p1)" if "a < n" "b < n" for a b
    using c(2) that in2 by (auto simp: relinked_def split_off_def)
  moreover have "enabled (kNet cfg') e = enabled (kNet cfg) e" if "kClerks cfg c = Some es" "e \<in> set es" for c es e
    using c(2) kinvD(4) [OF inv that] by (simp add: relinked_def)
  moreover have "mset (p1 @ p2) = mset [0..<n]" using d by (intro set_eq_iff_mset_eq_distinct [THEN iffD1]) (auto simp: atLeast0LessThan)
  ultimately show ?thesis using p(1-3) c(1) l(2,3) by (intro exI [of _ p1] exI [of _ p2] exI [of _ cfg'] exI [of _ l]) auto
qed

theorem partition_isolates_leader_witness:
  "\<exists>p1 p2 cfg'. make_partition 3 (\<lambda>i. i = 0) kdemo_cfg = Inr (p1, p2) \<and> state (node (rsys (ksys kdemo_cfg)) 0) = StateLeader \<and>
    partition_cfg p1 p2 kdemo_cfg = Inr cfg' \<and> length p1 = 2 \<and> 0 \<in> set p2"
proof -
  have up: "\<forall>i < 3. kServers kdemo_cfg i" using kdemo_facts by (auto simp: less_Suc_eq numeral_3_eq_3 numeral_2_eq_2)
  show ?thesis using partition_isolates_leader [OF kdemo_reachable _ _ up, of "\<lambda>i. i = 0"] kdemo_facts(4) by auto
qed

end
