(* ===== verification/Shard_Config.thy ===== *)
theory Shard_Config
  imports Kv_Config Shard_Clerks Strconv
begin

text \<open>
  The harness of the sharded key/value service, \<open>src/mit/src/shardkv/config.go\<close>: three
  shardmasters and three groups of servers on one simulated network, whose servers are known by
  name. The handlers of the servers are empty; what runs in each group is Raft.
\<close>

section \<open>State\<close>

datatype sharnessfail = SNet rpcfail | SPanicIndex

text \<open>
  The slices \<open>endnames\<close> and \<open>mendnames\<close> of a group have a length of their own; an element that
  was not assigned is nil.
\<close>

record group =
  ggGid :: nat
  ggServers :: "bool list"
  ggEndnames :: "string list option list"
  ggMendnames :: "string list option list"
  ggSys :: "unit Sys"

record sconfig =
  scNet :: "(string, string) Network"
  scNmasters :: nat
  scMasterservers :: "bool list"
  scMasterSys :: "unit Sys"
  scMck :: "string list"
  scNgroups :: nat
  scN :: nat
  scGroups :: "group list"
  scClerks :: "nat \<rightharpoonup> string list"
  scNextClientId :: nat
  scObjects :: nat

section \<open>Names\<close>

definition mastername :: "nat \<Rightarrow> string" where
  "mastername i = ''master'' @ itoa i"

definition servername :: "nat \<Rightarrow> nat \<Rightarrow> string" where
  "servername gid i = ''server-'' @ itoa gid @ ''-'' @ itoa i"

text \<open>New ends, enabled at once; \<open>makeEnd\<close> is the function clerks and servers get.\<close>

definition newEnds :: "(string \<times> string) list \<Rightarrow> sconfig \<Rightarrow> sharnessfail + sconfig" where
  "newEnds es cfg = (case makeEnds True es (scNet cfg) of Inl f \<Rightarrow> Inl (SNet f) | Inr rn \<Rightarrow> Inr (cfg\<lparr>scNet := rn\<rparr>))"

definition makeEnd :: "string \<Rightarrow> string \<Rightarrow> sconfig \<Rightarrow> sharnessfail + sconfig" where
  "makeEnd name sv = newEnds [(name, sv)]"

definition register :: "string \<Rightarrow> sconfig \<Rightarrow> sconfig" where
  "register name cfg = cfg\<lparr>scNet := AddServer name (scObjects cfg) (scNet cfg), scObjects := scObjects cfg + 1\<rparr>"

section \<open>Clerks\<close>

text \<open>
  \<open>endnames\<close> has one element per server of a group, and the loop assigns one per shardmaster.
\<close>

definition sk_makeClient :: "string list \<Rightarrow> sconfig \<Rightarrow> sharnessfail + string SClerk \<times> sconfig" where
  "sk_makeClient names cfg =
     (case newEnds (take (scN cfg) (zip names (map mastername [0..<scNmasters cfg]))) cfg of Inl e \<Rightarrow> Inl e
      | Inr cfg \<Rightarrow>
        if scN cfg < scNmasters cfg then Inl SPanicIndex
        else Inr (skv_MakeClerk names,
          cfg\<lparr>scClerks := (scClerks cfg)(scNextClientId cfg \<mapsto> names @ replicate (scN cfg - scNmasters cfg) ''''),
              scNextClientId := scNextClientId cfg + 1\<rparr>))"

definition sk_deleteClient :: "nat \<Rightarrow> sconfig \<Rightarrow> sconfig" where
  "sk_deleteClient ck cfg = cfg\<lparr>scClerks := (scClerks cfg)(ck := None)\<rparr>"

section \<open>Servers of a group\<close>

definition disableEnds :: "string list \<Rightarrow> sconfig \<Rightarrow> sconfig" where
  "disableEnds es cfg = cfg\<lparr>scNet := enableAll False es (scNet cfg)\<rparr>"

definition setGroup :: "nat \<Rightarrow> group \<Rightarrow> sconfig \<Rightarrow> sconfig" where
  "setGroup gi gg cfg = cfg\<lparr>scGroups := (scGroups cfg)[gi := gg]\<rparr>"

definition sk_ShutdownServer :: "nat \<Rightarrow> nat \<Rightarrow> sconfig \<Rightarrow> sharnessfail + sconfig" where
  "sk_ShutdownServer gi i cfg =
     (if gi \<ge> length (scGroups cfg) then Inl SPanicIndex else
      let gg = scGroups cfg ! gi in
      if i \<ge> length (ggEndnames gg) \<or> i \<ge> length (ggMendnames gg) then Inl SPanicIndex else
      case ggEndnames gg ! i of None \<Rightarrow> Inl SPanicIndex
      | Some es \<Rightarrow>
        if length es < length (ggServers gg) then Inl SPanicIndex else
        (let cfg = disableEnds (take (length (ggServers gg)) es) cfg;
             cfg = (case ggMendnames gg ! i of None \<Rightarrow> cfg | Some ms \<Rightarrow> disableEnds ms cfg);
             cfg = cfg\<lparr>scNet := DeleteServer (servername (ggGid gg) i) (scNet cfg)\<rparr> in
         Inr (if ggServers gg ! i
              then setGroup gi (gg\<lparr>ggServers := (ggServers gg)[i := False], ggSys := raftDo (scN cfg) (EKill i) (ggSys gg)\<rparr>) cfg
              else cfg)))"

definition sk_ShutdownGroup :: "nat \<Rightarrow> sconfig \<Rightarrow> sharnessfail + sconfig" where
  "sk_ShutdownGroup gi cfg = foldE (sk_ShutdownServer gi) [0..<scN cfg] cfg"

definition sk_cleanup :: "sconfig \<Rightarrow> sharnessfail + sconfig" where
  "sk_cleanup cfg = foldE sk_ShutdownGroup [0..<scNgroups cfg] cfg"

text \<open>
  \<open>names\<close> and \<open>mnames\<close> are the names drawn for the ends to the servers of the group and to the
  shardmasters.
\<close>

definition sk_StartServer :: "nat \<Rightarrow> nat \<Rightarrow> string list \<Rightarrow> string list \<Rightarrow> nat list \<Rightarrow> sconfig \<Rightarrow> sharnessfail + sconfig" where
  "sk_StartServer gi i names mnames rnd cfg =
     (if gi \<ge> length (scGroups cfg) then Inl SPanicIndex else
      let gg = scGroups cfg ! gi in
      if i \<ge> length (ggEndnames gg) then Inl SPanicIndex else
      case newEnds (zip names (map (servername (ggGid gg)) [0..<scN cfg])) cfg of Inl e \<Rightarrow> Inl e
      | Inr cfg \<Rightarrow>
        if i \<ge> length (ggMendnames gg) then Inl SPanicIndex else
        case newEnds (zip mnames (map mastername [0..<scNmasters cfg])) cfg of Inl e \<Rightarrow> Inl e
        | Inr cfg \<Rightarrow>
          Inr (register (servername (ggGid gg) i)
            (setGroup gi (gg\<lparr>ggEndnames := (ggEndnames gg)[i := Some names], ggMendnames := (ggMendnames gg)[i := Some mnames],
               ggServers := (ggServers gg)[i := True], ggSys := raftDo (scN cfg) (ERestart i rnd) (ggSys gg)\<rparr>) cfg)))"

text \<open>What is drawn for the servers of a group is given by functions of the server.\<close>

definition sk_StartGroup :: "(nat \<Rightarrow> string list) \<Rightarrow> (nat \<Rightarrow> string list) \<Rightarrow> (nat \<Rightarrow> nat list) \<Rightarrow> nat \<Rightarrow> sconfig \<Rightarrow> sharnessfail + sconfig" where
  "sk_StartGroup names mnames rnds gi cfg = foldE (\<lambda>i. sk_StartServer gi i (names i) (mnames i) (rnds i)) [0..<scN cfg] cfg"

section \<open>Shardmasters\<close>

definition StartMasterServer :: "string list \<Rightarrow> nat list \<Rightarrow> nat \<Rightarrow> sconfig \<Rightarrow> sharnessfail + sconfig" where
  "StartMasterServer names rnd i cfg =
     (case newEnds (zip names (map mastername [0..<scNmasters cfg])) cfg of Inl e \<Rightarrow> Inl e
      | Inr cfg \<Rightarrow>
        if i \<ge> length (scMasterservers cfg) then Inl SPanicIndex
        else Inr (register (mastername i) (cfg\<lparr>scMasterservers := (scMasterservers cfg)[i := True],
          scMasterSys := raftDo (scNmasters cfg) (ERestart i rnd) (scMasterSys cfg)\<rparr>)))"

definition shardclerk :: "string list \<Rightarrow> sconfig \<Rightarrow> sharnessfail + string list \<times> sconfig" where
  "shardclerk names cfg = (case newEnds (zip names (map mastername [0..<scNmasters cfg])) cfg of Inl e \<Rightarrow> Inl e
     | Inr cfg \<Rightarrow> Inr (names, cfg))"

text \<open>The arguments of the clerk's calls; an index out of range panics.\<close>

definition joinServers :: "nat list \<Rightarrow> sconfig \<Rightarrow> sharnessfail + (int \<rightharpoonup> string list)" where
  "joinServers gis cfg = foldE (\<lambda>g m. if g \<ge> length (scGroups cfg) then Inl SPanicIndex
     else Inr (m(int (ggGid (scGroups cfg ! g)) \<mapsto> map (servername (ggGid (scGroups cfg ! g))) [0..<scN cfg]))) gis Map.empty"

definition joinm :: "(nat \<Rightarrow> string \<Rightarrow> string \<Rightarrow> JoinArgs \<Rightarrow> ChangeReply option) \<Rightarrow> nat list \<Rightarrow> sconfig \<Rightarrow> nat \<Rightarrow> sharnessfail + (unit \<times> nat) option" where
  "joinm rpc gis cfg k = (case joinServers gis cfg of Inl e \<Rightarrow> Inl e | Inr m \<Rightarrow> Inr (sm_Join rpc (scMck cfg) m k))"

definition sk_join :: "(nat \<Rightarrow> string \<Rightarrow> string \<Rightarrow> JoinArgs \<Rightarrow> ChangeReply option) \<Rightarrow> nat \<Rightarrow> sconfig \<Rightarrow> nat \<Rightarrow> sharnessfail + (unit \<times> nat) option" where
  "sk_join rpc gi = joinm rpc [gi]"

definition leaveGids :: "nat list \<Rightarrow> sconfig \<Rightarrow> sharnessfail + int list" where
  "leaveGids gis cfg = foldE (\<lambda>g gids. if g \<ge> length (scGroups cfg) then Inl SPanicIndex
     else Inr (gids @ [int (ggGid (scGroups cfg ! g))])) gis []"

definition leavem :: "(nat \<Rightarrow> string \<Rightarrow> string \<Rightarrow> LeaveArgs \<Rightarrow> ChangeReply option) \<Rightarrow> nat list \<Rightarrow> sconfig \<Rightarrow> nat \<Rightarrow> sharnessfail + (unit \<times> nat) option" where
  "leavem rpc gis cfg k = (case leaveGids gis cfg of Inl e \<Rightarrow> Inl e | Inr gids \<Rightarrow> Inr (sm_Leave rpc (scMck cfg) gids k))"

definition sk_leave :: "(nat \<Rightarrow> string \<Rightarrow> string \<Rightarrow> LeaveArgs \<Rightarrow> ChangeReply option) \<Rightarrow> nat \<Rightarrow> sconfig \<Rightarrow> nat \<Rightarrow> sharnessfail + (unit \<times> nat) option" where
  "sk_leave rpc gi = leavem rpc [gi]"

section \<open>The whole configuration\<close>

definition sys_off :: "nat \<Rightarrow> unit Sys" where
  "sys_off n = fold (\<lambda>i. raftDo n (EKill i)) [0..<n] (init_sys n (\<lambda>_. []))"

definition newGroup :: "nat \<Rightarrow> nat \<Rightarrow> nat \<Rightarrow> group" where
  "newGroup n nmasters gi = \<lparr>ggGid = 100 + gi, ggServers = replicate n False, ggEndnames = replicate n None,
     ggMendnames = replicate nmasters None, ggSys = sys_off n\<rparr>"

definition scfg_init :: sconfig where
  "scfg_init = \<lparr>scNet = MakeNetwork, scNmasters = 3, scMasterservers = replicate 3 False, scMasterSys = sys_off 3, scMck = [],
     scNgroups = 0, scN = 0, scGroups = [], scClerks = Map.empty, scNextClientId = 0, scObjects = 0\<rparr>"

text \<open>Names and timeouts by group and server; group 3 stands for the shardmasters and the clerk of the harness.\<close>

definition sk_make_config :: "nat \<Rightarrow> bool \<Rightarrow> (nat \<Rightarrow> nat \<Rightarrow> string list) \<Rightarrow> (nat \<Rightarrow> nat \<Rightarrow> string list) \<Rightarrow> (nat \<Rightarrow> nat \<Rightarrow> nat list) \<Rightarrow>
    sharnessfail + sconfig" where
  "sk_make_config n unreliable names mnames rnds =
     (case foldE (\<lambda>i. StartMasterServer (names 3 i) (rnds 3 i) i) [0..<3] scfg_init of Inl e \<Rightarrow> Inl e
      | Inr cfg \<Rightarrow> (case shardclerk (mnames 3 0) cfg of Inl e \<Rightarrow> Inl e
      | Inr (mck, cfg) \<Rightarrow>
        (case foldE (\<lambda>gi cfg. sk_StartGroup (names gi) (mnames gi) (rnds gi) gi (cfg\<lparr>scGroups := scGroups cfg @ [newGroup n (scNmasters cfg) gi]\<rparr>))
           [0..<3] (cfg\<lparr>scMck := mck, scNgroups := 3, scN := n\<rparr>) of Inl e \<Rightarrow> Inl e
         | Inr cfg \<Rightarrow> Inr (cfg\<lparr>scClerks := Map.empty, scNextClientId := n + 1000, scNet := Reliable (\<not> unreliable) (scNet cfg)\<rparr>))))"

section \<open>Runs\<close>

text \<open>
  From a configuration \<open>make_config\<close> has built, the operations of the harness and the events of the
  groups' Raft peers come in any order.
\<close>

datatype skevent =
    SKStart nat nat "string list" "string list" "nat list"
  | SKShutdown nat nat
  | SKClient "string list"
  | SKDeleteClient nat
  | SKEnd string string
  | SKReliable bool
  | SKGroup nat "unit event"

definition srunning :: "sconfig \<Rightarrow> nat \<Rightarrow> nat \<Rightarrow> bool" where
  "srunning cfg gi i \<longleftrightarrow> gi < length (scGroups cfg) \<and> i < length (ggServers (scGroups cfg ! gi)) \<and> ggServers (scGroups cfg ! gi) ! i"

definition sk_step :: "skevent \<Rightarrow> sconfig \<Rightarrow> (sharnessfail + sconfig) option" where
  "sk_step ev cfg = (case ev of
     SKStart gi i names mnames rnd \<Rightarrow>
       if length names = scN cfg \<and> length mnames = scNmasters cfg \<and> \<not> srunning cfg gi i
       then Some (sk_StartServer gi i names mnames rnd cfg) else None
   | SKShutdown gi i \<Rightarrow> Some (sk_ShutdownServer gi i cfg)
   | SKClient names \<Rightarrow> if length names = scNmasters cfg then Some (case sk_makeClient names cfg of Inl e \<Rightarrow> Inl e | Inr (_, cfg) \<Rightarrow> Inr cfg) else None
   | SKDeleteClient ck \<Rightarrow> Some (Inr (sk_deleteClient ck cfg))
   | SKEnd name sv \<Rightarrow> Some (makeEnd name sv cfg)
   | SKReliable b \<Rightarrow> Some (Inr (cfg\<lparr>scNet := Reliable b (scNet cfg)\<rparr>))
   | SKGroup gi rv \<Rightarrow> (case rv of EKill _ \<Rightarrow> None | ERestart _ _ \<Rightarrow> None
     | _ \<Rightarrow> if gi < length (scGroups cfg)
       then Some (Inr (setGroup gi ((scGroups cfg ! gi)\<lparr>ggSys := raftDo (scN cfg) rv (ggSys (scGroups cfg ! gi))\<rparr>) cfg)) else None))"

inductive sk_reachable :: "nat \<Rightarrow> sconfig \<Rightarrow> bool" for n where
  sk_made: "sk_make_config n unreliable names mnames rnds = Inr cfg \<Longrightarrow> (\<And>gi i. length (names gi i) = (if gi = 3 then 3 else n)) \<Longrightarrow>
    (\<And>gi i. length (mnames gi i) = 3) \<Longrightarrow> sk_reachable n cfg"
| sk_more: "sk_reachable n cfg \<Longrightarrow> sk_step ev cfg = Some (Inr cfg') \<Longrightarrow> sk_reachable n cfg'"

section \<open>Server names\<close>

lemma split_at_dash:
  assumes "a @ CHR ''-'' # b = a' @ CHR ''-'' # b'" "CHR ''-'' \<notin> set a" "CHR ''-'' \<notin> set a'"
  shows "a = a' \<and> b = b'"
  using assms by (induction a arbitrary: a') (auto simp: Cons_eq_append_conv append_eq_Cons_conv)

lemma servername_inject [simp]: "servername g i = servername g' i' \<longleftrightarrow> g = g' \<and> i = i'"
  using split_at_dash [of "itoa g" "itoa i" "itoa g'" "itoa i'"] itoa_no_dash by (auto simp: servername_def)

lemma mastername_inject [simp]: "mastername i = mastername j \<longleftrightarrow> i = j"
  by (simp add: mastername_def)

lemma servername_master [simp]: "servername g i \<noteq> mastername j" "mastername j \<noteq> servername g i"
  by (simp_all add: servername_def mastername_def)

section \<open>The wiring of the groups\<close>

text \<open>The ends of the current instance of a server, with the name of the server each is meant for.\<close>

definition paired :: "string list option list \<Rightarrow> nat \<Rightarrow> string list \<Rightarrow> (string \<times> string) list" where
  "paired names i svs = (if i < length names then case names ! i of None \<Rightarrow> [] | Some es \<Rightarrow> zip es svs else [])"

definition gwires :: "nat \<Rightarrow> nat \<Rightarrow> nat \<Rightarrow> group \<Rightarrow> nat \<Rightarrow> (string \<times> string) list" where
  "gwires n k gi gg i = paired (ggEndnames gg) i (map (servername (100 + gi)) [0..<n]) @ paired (ggMendnames gg) i (map mastername [0..<k])"

definition wires :: "sconfig \<Rightarrow> nat \<Rightarrow> nat \<Rightarrow> (string \<times> string) list" where
  "wires cfg gi i = (if gi < length (scGroups cfg) then gwires (scN cfg) (scNmasters cfg) gi (scGroups cfg ! gi) i else [])"

definition group_ok :: "nat \<Rightarrow> nat \<Rightarrow> group \<Rightarrow> bool" where
  "group_ok n gi gg \<longleftrightarrow> ggGid gg = 100 + gi \<and> length (ggServers gg) = n \<and> length (ggEndnames gg) = n \<and> length (ggMendnames gg) = 3 \<and>
     (\<forall>es. Some es \<in> set (ggEndnames gg) \<longrightarrow> length es = n) \<and> (\<forall>es. Some es \<in> set (ggMendnames gg) \<longrightarrow> length es = 3) \<and> reachable n (ggSys gg)"

definition sinv :: "nat \<Rightarrow> sconfig \<Rightarrow> bool" where
  "sinv n cfg \<longleftrightarrow> scN cfg = n \<and> scNmasters cfg = 3 \<and> (\<forall>gi < length (scGroups cfg). group_ok n gi (scGroups cfg ! gi)) \<and>
     (\<forall>gi i e sv. (e, sv) \<in> set (wires cfg gi i) \<longrightarrow>
        ends (scNet cfg) e \<and> connections (scNet cfg) e = Some sv \<and> (enabled (scNet cfg) e \<longleftrightarrow> srunning cfg gi i)) \<and>
     (\<forall>gi i gi' i' e. e \<in> fst ` set (wires cfg gi i) \<longrightarrow> e \<in> fst ` set (wires cfg gi' i') \<longrightarrow> gi = gi' \<and> i = i') \<and>
     (\<forall>gi i. servers (scNet cfg) (servername (100 + gi) i) \<noteq> None \<longleftrightarrow> srunning cfg gi i) \<and>
     (\<forall>gi i. srunning cfg gi i \<longrightarrow> map snd (wires cfg gi i) = map (servername (100 + gi)) [0..<n] @ map mastername [0..<3])"

lemma sinvD:
  assumes "sinv n cfg"
  shows "scN cfg = n" "scNmasters cfg = 3" "gi < length (scGroups cfg) \<Longrightarrow> group_ok n gi (scGroups cfg ! gi)"
    "servers (scNet cfg) (servername (100 + gi) i) \<noteq> None \<longleftrightarrow> srunning cfg gi i"
    "(e, sv) \<in> set (wires cfg gi i) \<Longrightarrow> ends (scNet cfg) e \<and> connections (scNet cfg) e = Some sv \<and> (enabled (scNet cfg) e \<longleftrightarrow> srunning cfg gi i)"
    "e \<in> fst ` set (wires cfg gi i) \<Longrightarrow> e \<in> fst ` set (wires cfg gi' i') \<Longrightarrow> gi = gi' \<and> i = i'"
    "srunning cfg gi i \<Longrightarrow> map snd (wires cfg gi i) = map (servername (100 + gi)) [0..<n] @ map mastername [0..<3]"
proof -
  note a = assms [unfolded sinv_def]
  show "scN cfg = n" "scNmasters cfg = 3" "gi < length (scGroups cfg) \<Longrightarrow> group_ok n gi (scGroups cfg ! gi)"
    "servers (scNet cfg) (servername (100 + gi) i) \<noteq> None \<longleftrightarrow> srunning cfg gi i"
    "srunning cfg gi i \<Longrightarrow> map snd (wires cfg gi i) = map (servername (100 + gi)) [0..<n] @ map mastername [0..<3]" using a by simp_all
  show "(e, sv) \<in> set (wires cfg gi i) \<Longrightarrow> ends (scNet cfg) e \<and> connections (scNet cfg) e = Some sv \<and> (enabled (scNet cfg) e \<longleftrightarrow> srunning cfg gi i)"
    using a by (elim conjE) (drule spec, drule spec, drule spec, drule spec, drule (1) mp, assumption)
  show "e \<in> fst ` set (wires cfg gi i) \<Longrightarrow> e \<in> fst ` set (wires cfg gi' i') \<Longrightarrow> gi = gi' \<and> i = i'" using a by blast
qed

lemma makeEnds_append: "makeEnds en (a @ b) rn = (case makeEnds en a rn of Inl f \<Rightarrow> Inl f | Inr rn \<Rightarrow> makeEnds en b rn)"
  by (induction en a rn rule: makeEnds.induct) (auto split: sum.splits)

text \<open>
  A change that touches the network outside the wiring only, and the groups only in what their
  peers do, keeps the invariant.
\<close>

definition same_wires :: "sconfig \<Rightarrow> sconfig \<Rightarrow> bool" where
  "same_wires cfg cfg' \<longleftrightarrow> scN cfg' = scN cfg \<and> scNmasters cfg' = scNmasters cfg \<and> wires cfg' = wires cfg \<and> srunning cfg' = srunning cfg \<and>
     length (scGroups cfg') = length (scGroups cfg)"

lemma sinv_outside:
  assumes "sinv n cfg" "same_wires cfg cfg'" "\<And>gi. gi < length (scGroups cfg) \<Longrightarrow> group_ok n gi (scGroups cfg' ! gi)"
    "\<And>e. ends (scNet cfg) e \<Longrightarrow> ends (scNet cfg') e \<and> connections (scNet cfg') e = connections (scNet cfg) e \<and> enabled (scNet cfg') e = enabled (scNet cfg) e"
    "\<And>gi i. servers (scNet cfg') (servername (100 + gi) i) = servers (scNet cfg) (servername (100 + gi) i)"
  shows "sinv n cfg'"
  unfolding sinv_def
proof (intro conjI allI impI)
  have w: "scN cfg' = scN cfg" "scNmasters cfg' = scNmasters cfg" "wires cfg' = wires cfg" "srunning cfg' = srunning cfg"
    "length (scGroups cfg') = length (scGroups cfg)" using assms(2) by (simp_all add: same_wires_def)
  note inv = sinvD [OF assms(1)]
  show "scN cfg' = n" "scNmasters cfg' = 3" using inv(1,2) w by simp_all
  show "group_ok n gi (scGroups cfg' ! gi)" if "gi < length (scGroups cfg')" for gi using assms(3) that w(5) by simp
  fix gi i
  show "(servers (scNet cfg') (servername (100 + gi) i) \<noteq> None) = srunning cfg' gi i" unfolding assms(5) w(4) by (rule inv(4))
  show "map snd (wires cfg' gi i) = map (servername (100 + gi)) [0..<n] @ map mastername [0..<3]" if "srunning cfg' gi i"
    using inv(7) that unfolding w(3,4) .
  fix e
  show "gi = gi'" "i = i'" if "e \<in> fst ` set (wires cfg' gi i)" "e \<in> fst ` set (wires cfg' gi' i')" for gi' i'
    using inv(6) that unfolding w(3) by blast+
  fix sv assume "(e, sv) \<in> set (wires cfg' gi i)"
  from inv(5) [OF this [unfolded w(3)]] assms(4) [of e] w(4)
  show "ends (scNet cfg') e" "connections (scNet cfg') e = Some sv" "enabled (scNet cfg') e = srunning cfg' gi i" by simp_all
qed

lemma newEnds_inv:
  assumes "sinv n cfg" "newEnds es cfg = Inr cfg'"
  shows "sinv n cfg'"
proof -
  obtain rn where rn: "makeEnds True es (scNet cfg) = Inr rn" "cfg' = cfg\<lparr>scNet := rn\<rparr>"
    using assms(2) by (auto simp: newEnds_def split: sum.splits)
  note ok = makeEnds_ok [OF rn(1)]
  show ?thesis
  proof (rule sinv_outside [OF assms(1)])
    show "same_wires cfg cfg'" by (simp add: rn(2) same_wires_def wires_def srunning_def fun_eq_iff)
    show "group_ok n gi (scGroups cfg' ! gi)" if "gi < length (scGroups cfg)" for gi using sinvD(3) [OF assms(1) that] by (simp add: rn(2))
    show "servers (scNet cfg') (servername (100 + gi) i) = servers (scNet cfg) (servername (100 + gi) i)" for gi i by (simp add: rn(2) ok(7))
    show "ends (scNet cfg') e \<and> connections (scNet cfg') e = connections (scNet cfg) e \<and> enabled (scNet cfg') e = enabled (scNet cfg) e"
      if "ends (scNet cfg) e" for e using that ok(2,3,4,6) [of e] by (auto simp: rn(2))
  qed
qed

lemma newEnds_groups: "newEnds es cfg = Inr cfg' \<Longrightarrow> scGroups cfg' = scGroups cfg"
  by (auto simp: newEnds_def split: sum.splits)

lemma setGroup_wires:
  assumes "gi < length (scGroups cfg)"
  shows "wires (setGroup gi gg cfg) a b = (if a = gi then gwires (scN cfg) (scNmasters cfg) gi gg b else wires cfg a b)"
    "srunning (setGroup gi gg cfg) a b = (if a = gi then b < length (ggServers gg) \<and> ggServers gg ! b else srunning cfg a b)"
  using assms by (simp_all add: setGroup_def wires_def srunning_def)

lemma paired_update: "i < length names \<Longrightarrow> paired (names[i := Some es]) j svs = (if j = i then zip es svs else paired names j svs)"
  by (simp add: paired_def)

lemma net_only:
  "wires (cfg\<lparr>scNet := rn\<rparr>) = wires cfg" "srunning (cfg\<lparr>scNet := rn\<rparr>) = srunning cfg"
  "wires (register name cfg) = wires cfg" "srunning (register name cfg) = srunning cfg"
  by (simp_all add: wires_def srunning_def register_def fun_eq_iff)

text \<open>
  A change of one server: its ends are now \<open>ws\<close>, and \<open>live\<close> tells whether it runs; the ends of
  the others are as before.
\<close>

lemma sinv_rewired:
  assumes inv: "sinv n cfg" and "scN cfg' = n" "scNmasters cfg' = 3" "\<And>a. a < length (scGroups cfg') \<Longrightarrow> group_ok n a (scGroups cfg' ! a)"
    and w: "\<And>a b. wires cfg' a b = (if a = gi \<and> b = i then ws else wires cfg a b)"
    and r: "\<And>a b. srunning cfg' a b = (if a = gi \<and> b = i then live else srunning cfg a b)"
    and own: "\<And>e sv. (e, sv) \<in> set ws \<Longrightarrow> ends (scNet cfg') e \<and> connections (scNet cfg') e = Some sv \<and> enabled (scNet cfg') e = live"
    and other: "\<And>e. ends (scNet cfg) e \<Longrightarrow> e \<notin> fst ` set ws \<Longrightarrow> ends (scNet cfg') e \<and> connections (scNet cfg') e = connections (scNet cfg) e \<and>
      enabled (scNet cfg') e = enabled (scNet cfg) e"
    and apart: "\<And>e a b. e \<in> fst ` set (wires cfg a b) \<Longrightarrow> e \<in> fst ` set ws \<Longrightarrow> a = gi \<and> b = i"
    and srv: "servers (scNet cfg') = (servers (scNet cfg))(servername (100 + gi) i := x)" "live \<longleftrightarrow> x \<noteq> None"
    and full: "live \<Longrightarrow> map snd ws = map (servername (100 + gi)) [0..<n] @ map mastername [0..<3]"
  shows "sinv n cfg'"
  unfolding sinv_def
proof (intro conjI allI impI)
  note inv = sinvD [OF inv]
  show "scN cfg' = n" "scNmasters cfg' = 3" by fact+
  show "group_ok n a (scGroups cfg' ! a)" if "a < length (scGroups cfg')" for a using assms(4) that .
  fix a b
  show "(servers (scNet cfg') (servername (100 + a) b) \<noteq> None) = srunning cfg' a b" using inv(4) [of a b] srv by (auto simp: r)
  show "map snd (wires cfg' a b) = map (servername (100 + a)) [0..<n] @ map mastername [0..<3]" if "srunning cfg' a b"
    using inv(7) [of a b] full that by (auto simp: w r split: if_splits)
  fix e
  have "a = a' \<and> b = b'" if "e \<in> fst ` set (wires cfg' a b)" "e \<in> fst ` set (wires cfg' a' b')" for a' b'
  proof -
    have c: "a = gi \<and> b = i \<and> e \<in> fst ` set ws \<or> \<not> (a = gi \<and> b = i) \<and> e \<in> fst ` set (wires cfg a b)"
      if "e \<in> fst ` set (wires cfg' a b)" for a b using that w [of a b] by (cases "a = gi \<and> b = i") auto
    show ?thesis using c [OF that(1)] c [OF that(2)] apart [of e a b] apart [of e a' b'] inv(6) [of e a b a' b'] by metis
  qed
  then show "a = a'" "b = b'" if "e \<in> fst ` set (wires cfg' a b)" "e \<in> fst ` set (wires cfg' a' b')" for a' b'
    using that by simp_all
  fix sv assume e: "(e, sv) \<in> set (wires cfg' a b)"
  show "ends (scNet cfg') e" "connections (scNet cfg') e = Some sv" "enabled (scNet cfg') e = srunning cfg' a b"
  proof (atomize (full), cases "a = gi \<and> b = i")
    case True
    then show "ends (scNet cfg') e \<and> connections (scNet cfg') e = Some sv \<and> enabled (scNet cfg') e = srunning cfg' a b"
      using own [of e sv] e by (simp add: w r)
  next
    case False
    then have m: "(e, sv) \<in> set (wires cfg a b)" using e w [of a b] by auto
    then have "e \<in> fst ` set (wires cfg a b)" by (simp add: rev_image_eqI)
    then show "ends (scNet cfg') e \<and> connections (scNet cfg') e = Some sv \<and> enabled (scNet cfg') e = srunning cfg' a b"
      using inv(5) [OF m] other [of e] apart [of e a b] False by (auto simp: r)
  qed
qed

text \<open>A started server has new ends, which lead to the servers of its group and the shardmasters.\<close>

lemma StartServer_wires:
  assumes "sinv n cfg" "sk_StartServer gi i names mnames rnd cfg = Inr cfg'"
  obtains rn gg' where
    "makeEnds True (zip names (map (servername (100 + gi)) [0..<n]) @ zip mnames (map mastername [0..<3])) (scNet cfg) = Inr rn"
    "gi < length (scGroups cfg)" "i < n" "i < 3" "cfg' = register (servername (100 + gi) i) (setGroup gi gg' (cfg\<lparr>scNet := rn\<rparr>))"
    "gg' = (scGroups cfg ! gi)\<lparr>ggEndnames := (ggEndnames (scGroups cfg ! gi))[i := Some names], ggMendnames := (ggMendnames (scGroups cfg ! gi))[i := Some mnames],
       ggServers := (ggServers (scGroups cfg ! gi))[i := True], ggSys := raftDo n (ERestart i rnd) (ggSys (scGroups cfg ! gi))\<rparr>"
proof -
  have gi: "gi < length (scGroups cfg)" using assms(2) by (auto simp: sk_StartServer_def split: if_splits)
  note g = sinvD(3) [OF assms(1) gi, unfolded group_ok_def]
  show ?thesis using assms(2) gi g sinvD(1,2) [OF assms(1)]
    by (auto simp: sk_StartServer_def Let_def newEnds_def makeEnds_append split: if_splits sum.splits intro!: that)
qed

lemma StartServer_sinv:
  assumes "sinv n cfg" "sk_StartServer gi i names mnames rnd cfg = Inr cfg'" "length names = n" "length mnames = 3"
  shows "sinv n cfg'"
proof -
  define ws where "ws = zip names (map (servername (100 + gi)) [0..<n]) @ zip mnames (map mastername [0..<3])"
  obtain rn gg' where st: "makeEnds True ws (scNet cfg) = Inr rn" "gi < length (scGroups cfg)" "i < n" "i < 3"
    "cfg' = register (servername (100 + gi) i) (setGroup gi gg' (cfg\<lparr>scNet := rn\<rparr>))"
    "gg' = (scGroups cfg ! gi)\<lparr>ggEndnames := (ggEndnames (scGroups cfg ! gi))[i := Some names], ggMendnames := (ggMendnames (scGroups cfg ! gi))[i := Some mnames],
       ggServers := (ggServers (scGroups cfg ! gi))[i := True], ggSys := raftDo n (ERestart i rnd) (ggSys (scGroups cfg ! gi))\<rparr>"
    unfolding ws_def by (rule StartServer_wires [OF assms(1,2)])
  note ok = makeEnds_ok [OF st(1)] and inv = sinvD [OF assms(1)]
  note g = inv(3) [OF st(2), unfolded group_ok_def]
  have w: "wires cfg' a b = (if a = gi \<and> b = i then ws else wires cfg a b)" for a b
    using st(2-4) g inv(1,2) unfolding st(5) by (simp add: net_only setGroup_wires gwires_def st(6) paired_update ws_def) (simp add: wires_def gwires_def)
  have r: "srunning cfg' a b = (a = gi \<and> b = i \<or> srunning cfg a b)" for a b
    using st(2-4) g unfolding st(5) by (simp add: net_only setGroup_wires st(6) nth_list_update) (auto simp: srunning_def)
  have "group_ok n gi gg'" using g sm_service.good_start assms(3,4) by (auto simp: group_ok_def st(6) dest!: set_update_subset_insert [THEN subsetD])
  then have groups: "group_ok n a (scGroups cfg' ! a)" if "a < length (scGroups cfg')" for a
    using inv(3) that st(2) by (auto simp: st(5) register_def setGroup_def nth_list_update)
  have net: "ends (scNet cfg') = ends rn" "connections (scNet cfg') = connections rn" "enabled (scNet cfg') = enabled rn"
    "servers (scNet cfg') = (servers (scNet cfg))(servername (100 + gi) i \<mapsto> scObjects cfg)"
    by (simp_all add: st(5) register_def setGroup_def AddServer_def ok(7))
  show ?thesis
  proof (rule sinv_rewired [OF assms(1) _ _ groups, of gi i ws True])
    show "scN cfg' = n" "scNmasters cfg' = 3" using inv(1,2) by (simp_all add: st(5) register_def setGroup_def)
    show "a = gi \<and> b = i" if h: "e \<in> fst ` set (wires cfg a b)" "e \<in> fst ` set ws" for e a b
    proof -
      obtain sv where "(e, sv) \<in> set (wires cfg a b)" using h(1) by auto
      then show ?thesis using inv(5) ok(2) [OF h(2)] by blast
    qed
    show "ends (scNet cfg') e \<and> connections (scNet cfg') e = Some sv \<and> enabled (scNet cfg') e = True" if "(e, sv) \<in> set ws" for e sv
      using ok(3,4) [of e] ok(5) [OF that] rev_image_eqI [OF that, of e fst] by (simp add: net)
  qed (use w r net ok(3,4,6) assms(3,4) in \<open>auto simp: ws_def\<close>)
qed

text \<open>A server that is shut down keeps its ends, disabled, and its name is free.\<close>

lemma fst_zip_names: "length es = length svs \<Longrightarrow> fst ` set (zip es svs) = set es"
  by (simp flip: set_map)

lemma ShutdownServer_sinv:
  assumes "sinv n cfg" "sk_ShutdownServer gi i cfg = Inr cfg'"
  shows "sinv n cfg'"
proof -
  have gi: "gi < length (scGroups cfg)" using assms(2) by (auto simp: sk_ShutdownServer_def split: if_splits)
  note inv = sinvD [OF assms(1)]
  note g = inv(3) [OF gi, unfolded group_ok_def]
  define gg' where "gg' = (scGroups cfg ! gi)\<lparr>ggServers := (ggServers (scGroups cfg ! gi))[i := False], ggSys := raftDo n (EKill i) (ggSys (scGroups cfg ! gi))\<rparr>"
  obtain es where es: "i < n" "i < 3" "ggEndnames (scGroups cfg ! gi) ! i = Some es"
    using assms(2) gi g by (auto simp: sk_ShutdownServer_def Let_def split: if_splits option.splits)
  then have "length es = n" using g nth_mem [of i "ggEndnames (scGroups cfg ! gi)"] by simp
  have m: "length ms = 3" if "ggMendnames (scGroups cfg ! gi) ! i = Some ms" for ms
    using g that es(2) nth_mem [of i "ggMendnames (scGroups cfg ! gi)"] by simp
  have set_w: "fst ` set (wires cfg gi i) = set es \<union> (case ggMendnames (scGroups cfg ! gi) ! i of None \<Rightarrow> {} | Some ms \<Rightarrow> set ms)"
    using gi es g inv(1,2) \<open>length es = n\<close> m by (auto simp: wires_def gwires_def paired_def image_Un fst_zip_names split: option.splits)
  have c: "scN cfg' = n" "scNmasters cfg' = 3" "scGroups cfg' = (if ggServers (scGroups cfg ! gi) ! i then (scGroups cfg)[gi := gg'] else scGroups cfg)"
    "ends (scNet cfg') = ends (scNet cfg)" "connections (scNet cfg') = connections (scNet cfg)"
    "servers (scNet cfg') = (servers (scNet cfg))(servername (100 + gi) i := None)"
    "enabled (scNet cfg') e = (if e \<in> fst ` set (wires cfg gi i) then False else enabled (scNet cfg) e)" for e
    unfolding set_w using assms(2) gi g es \<open>length es = n\<close> inv(1,2)
    by (auto simp: sk_ShutdownServer_def Let_def gg'_def disableEnds_def setGroup_def DeleteServer_def split: if_splits option.splits)
  have w: "wires cfg' a b = wires cfg a b" for a b using c(1-3) inv(1,2) gi by (auto simp: wires_def gwires_def gg'_def nth_list_update)
  have r: "srunning cfg' a b = (srunning cfg a b \<and> \<not> (a = gi \<and> b = i))" for a b
    using c(3) gi g es(1) by (auto simp: srunning_def gg'_def nth_list_update split: if_splits)
  have "group_ok n gi gg'" using g sm_service.good_kill by (auto simp: group_ok_def gg'_def)
  then have groups: "group_ok n a (scGroups cfg' ! a)" if "a < length (scGroups cfg')" for a
    using inv(3) that gi c(3) by (auto simp: nth_list_update split: if_splits)
  show ?thesis
  proof (rule sinv_rewired [OF assms(1) c(1,2) groups, of gi i "wires cfg gi i" False])
    show "a = gi \<and> b = i" if "e \<in> fst ` set (wires cfg a b)" "e \<in> fst ` set (wires cfg gi i)" for e a b
      using inv(6) [OF that] .
    show "ends (scNet cfg') e \<and> connections (scNet cfg') e = Some sv \<and> enabled (scNet cfg') e = False" if "(e, sv) \<in> set (wires cfg gi i)" for e sv
      using inv(5) [OF that] rev_image_eqI [OF that, of e fst] by (simp add: c(4,5,7))
  qed (use w r in \<open>auto simp: c(4-7)\<close>)
qed

section \<open>Building the configuration\<close>

lemma register_master_sinv: "sinv n cfg \<Longrightarrow> sinv n (register (mastername i) cfg)"
  by (rule sinv_outside) (auto simp: same_wires_def wires_def srunning_def register_def AddServer_def fun_eq_iff sinvD(3))

definition same_links :: "('e, 's) Network \<Rightarrow> ('e, 's) Network \<Rightarrow> bool" where
  "same_links rn rn' \<longleftrightarrow> ends rn' = ends rn \<and> connections rn' = connections rn \<and> enabled rn' = enabled rn \<and> servers rn' = servers rn"

lemma same_links_sinv:
  "sinv n cfg \<Longrightarrow> same_links (scNet cfg) (scNet cfg') \<Longrightarrow> scN cfg' = scN cfg \<Longrightarrow> scNmasters cfg' = scNmasters cfg \<Longrightarrow> scGroups cfg' = scGroups cfg \<Longrightarrow> sinv n cfg'"
  by (rule sinv_outside) (auto simp: same_links_def same_wires_def wires_def srunning_def fun_eq_iff sinvD(3))

lemma StartMasterServer_sinv:
  assumes "sinv n cfg" "StartMasterServer names rnd i cfg = Inr cfg'"
  shows "sinv n cfg'"
proof -
  obtain c where c: "newEnds (zip names (map mastername [0..<scNmasters cfg])) cfg = Inr c"
    "cfg' = register (mastername i) (c\<lparr>scMasterservers := (scMasterservers c)[i := True], scMasterSys := raftDo (scNmasters c) (ERestart i rnd) (scMasterSys c)\<rparr>)"
    using assms(2) by (auto simp: StartMasterServer_def split: sum.splits if_splits)
  show ?thesis unfolding c(2) by (intro register_master_sinv same_links_sinv [OF newEnds_inv [OF assms(1) c(1)]]) (simp_all add: same_links_def)
qed

lemma sys_off_reachable: "reachable n (sys_off n)"
proof -
  have "reachable n s \<Longrightarrow> reachable n (fold (\<lambda>i. raftDo n (EKill i)) is s)" for "is" and s :: "unit Sys"
    by (induction "is" arbitrary: s) (auto intro: sm_service.good_kill)
  then show ?thesis unfolding sys_off_def by (simp add: reachable.init)
qed

lemma newGroup_sinv:
  assumes "sinv n cfg" "cfg' = cfg\<lparr>scGroups := scGroups cfg @ [newGroup n (scNmasters cfg) (length (scGroups cfg))]\<rparr>"
  shows "sinv n cfg'"
proof -
  note inv = sinvD [OF assms(1)]
  have w: "wires cfg' = wires cfg" by (auto simp: assms(2) wires_def gwires_def paired_def newGroup_def nth_append less_Suc_eq fun_eq_iff)
  have r: "srunning cfg' = srunning cfg" by (auto simp: assms(2) srunning_def newGroup_def nth_append less_Suc_eq fun_eq_iff)
  have "group_ok n (length (scGroups cfg)) (newGroup n (scNmasters cfg) (length (scGroups cfg)))"
    using inv(2) by (auto simp: group_ok_def newGroup_def sys_off_reachable in_set_replicate)
  then have "\<forall>gi < length (scGroups cfg'). group_ok n gi (scGroups cfg' ! gi)" using inv(3) by (auto simp: assms(2) nth_append less_Suc_eq)
  moreover have "scN cfg' = scN cfg" "scNmasters cfg' = scNmasters cfg" "scNet cfg' = scNet cfg" by (simp_all add: assms(2))
  ultimately show ?thesis using assms(1) unfolding sinv_def w r by simp
qed

lemma foldE_each:
  assumes "foldE f xs c = Inr c'" "I c" "\<And>x c c'. I c \<Longrightarrow> f x c = Inr c' \<Longrightarrow> I c'" "x \<in> set xs"
  shows "\<exists>c c'. I c \<and> f x c = Inr c'"
  using assms by (induction xs arbitrary: c) (auto split: sum.splits)

text \<open>
  The slice \<open>mendnames\<close> of a group is as long as there are shardmasters, but it is indexed by the
  servers of the group: a group with more than three servers cannot be started.
\<close>

lemma StartGroup_sinv:
  assumes "sinv n cfg" "sk_StartGroup names mnames rnds gi cfg = Inr cfg'" "\<And>i. length (names i) = n" "\<And>i. length (mnames i) = 3"
  shows "sinv n cfg' \<and> length (scGroups cfg') = length (scGroups cfg) \<and> n \<le> 3"
proof -
  have step: "sinv n c' \<and> length (scGroups c') = length (scGroups cfg)"
    if "sinv n c \<and> length (scGroups c) = length (scGroups cfg)" "sk_StartServer gi i (names i) (mnames i) (rnds i) c = Inr c'" for c c' i
  proof -
    note h = that
    obtain rn gg' where "c' = register (servername (100 + gi) i) (setGroup gi gg' (c\<lparr>scNet := rn\<rparr>))"
      using h by (auto elim: StartServer_wires)
    then show ?thesis using StartServer_sinv [OF _ h(2) assms(3,4)] h(1) by (simp add: register_def setGroup_def)
  qed
  let ?I = "\<lambda>c. sinv n c \<and> length (scGroups c) = length (scGroups cfg)"
  note run = assms(2) [unfolded sk_StartGroup_def sinvD(1) [OF assms(1)]]
  have "n \<le> 3"
  proof (rule ccontr)
    assume "\<not> n \<le> 3"
    then have "3 \<in> set [0..<n]" by simp
    then have "\<exists>c c'. ?I c \<and> sk_StartServer gi 3 (names 3) (mnames 3) (rnds 3) c = Inr c'"
      by (intro foldE_each [OF run, where I = ?I]) (simp add: assms(1), rule step)
    then obtain c c' where c: "sinv n c" "sk_StartServer gi 3 (names 3) (mnames 3) (rnds 3) c = Inr c'" by blast
    show False by (rule StartServer_wires [OF c]) simp
  qed
  moreover have "?I cfg'" by (rule foldE_invariant [OF run, where I = ?I]) (use assms(1) step in blast)+
  ultimately show ?thesis by blast
qed

lemma foldE_append: "foldE f (xs @ ys) c = (case foldE f xs c of Inl e \<Rightarrow> Inl e | Inr c \<Rightarrow> foldE f ys c)"
  by (induction xs arbitrary: c) (auto split: sum.splits)

lemma groups_sinv:
  assumes "sinv n cfg" "scGroups cfg = []" "\<And>gi i. gi < k \<Longrightarrow> length (names gi i) = n" "\<And>gi i. length (mnames gi i) = 3"
    "foldE (\<lambda>gi cfg. sk_StartGroup (names gi) (mnames gi) (rnds gi) gi (cfg\<lparr>scGroups := scGroups cfg @ [newGroup n (scNmasters cfg) gi]\<rparr>)) [0..<k] cfg = Inr cfg'"
  shows "sinv n cfg' \<and> length (scGroups cfg') = k \<and> (0 < k \<longrightarrow> n \<le> 3)"
  using assms(3,5)
proof (induction k arbitrary: cfg')
  case 0
  then show ?case using assms(1,2) by simp
next
  case (Suc k)
  then obtain c where c: "sinv n c" "length (scGroups c) = k"
    "sk_StartGroup (names k) (mnames k) (rnds k) k (c\<lparr>scGroups := scGroups c @ [newGroup n (scNmasters c) k]\<rparr>) = Inr cfg'"
    by (auto simp: foldE_append split: sum.splits)
  show ?case using StartGroup_sinv [OF newGroup_sinv [OF c(1), unfolded c(2), OF refl] c(3)] Suc.prems(1) assms(4) c(2) by simp
qed

lemma make_config_sinv:
  assumes "sk_make_config n unreliable names mnames rnds = Inr cfg" "\<And>gi i. length (names gi i) = (if gi = 3 then 3 else n)" "\<And>gi i. length (mnames gi i) = 3"
  shows "sinv n cfg \<and> length (scGroups cfg) = 3 \<and> n \<le> 3"
proof -
  obtain c1 mck c2 c3 where c: "foldE (\<lambda>i. StartMasterServer (names 3 i) (rnds 3 i) i) [0..<3] scfg_init = Inr c1" "shardclerk (mnames 3 0) c1 = Inr (mck, c2)"
    "foldE (\<lambda>gi cfg. sk_StartGroup (names gi) (mnames gi) (rnds gi) gi (cfg\<lparr>scGroups := scGroups cfg @ [newGroup n (scNmasters cfg) gi]\<rparr>)) [0..<3]
       (c2\<lparr>scMck := mck, scNgroups := 3, scN := n\<rparr>) = Inr c3"
    "cfg = c3\<lparr>scClerks := Map.empty, scNextClientId := n + 1000, scNet := Reliable (\<not> unreliable) (scNet c3)\<rparr>"
    using assms(1) by (auto simp: sk_make_config_def split: sum.splits)
  have init: "sinv 0 scfg_init \<and> scGroups scfg_init = []"
    by (simp add: scfg_init_def sinv_def wires_def srunning_def MakeNetwork_def)
  have step: "sinv 0 c' \<and> scGroups c' = []" if "sinv 0 c \<and> scGroups c = []" "StartMasterServer ns rnd i c = Inr c'" for c c' ns rnd i
  proof
    show "sinv 0 c'" using StartMasterServer_sinv that by blast
    show "scGroups c' = []" using that by (auto simp: StartMasterServer_def newEnds_def register_def split: sum.splits if_splits)
  qed
  have c1: "sinv 0 c1 \<and> scGroups c1 = []"
    by (rule foldE_invariant [OF c(1), where I = "\<lambda>c. sinv 0 c \<and> scGroups c = []"]) (use init step in blast)+
  have "newEnds (zip (mnames 3 0) (map mastername [0..<scNmasters c1])) c1 = Inr c2" using c(2) by (auto simp: shardclerk_def split: sum.splits)
  then have c2: "sinv 0 c2" "scGroups c2 = []" using c1 newEnds_inv newEnds_groups by (blast, simp)
  then have "sinv n (c2\<lparr>scMck := mck, scNgroups := 3, scN := n\<rparr>)"
    by (simp add: sinv_def wires_def srunning_def)
  from groups_sinv [OF this _ _ _ c(3)] c2 assms(2,3) have "sinv n c3 \<and> length (scGroups c3) = 3 \<and> n \<le> 3" by simp
  then show ?thesis unfolding c(4) by (auto simp: Reliable_def same_links_def elim!: same_links_sinv)
qed

lemma group_event_sinv:
  assumes "sinv n cfg" "gi < length (scGroups cfg)"
  shows "sinv n (setGroup gi ((scGroups cfg ! gi)\<lparr>ggSys := raftDo (scN cfg) rv (ggSys (scGroups cfg ! gi))\<rparr>) cfg)"
proof (rule sinv_outside [OF assms(1)])
  let ?gg = "(scGroups cfg ! gi)\<lparr>ggSys := raftDo (scN cfg) rv (ggSys (scGroups cfg ! gi))\<rparr>"
  have "reachable n (raftDo n rv s)" if "reachable n s" for s
    using that by (auto simp: raftDo_def split: option.splits intro: reachable.more)
  then have ok: "group_ok n gi ?gg" using sinvD(1,3) [OF assms(1)] assms(2) by (simp add: group_ok_def)
  show "same_wires cfg (setGroup gi ?gg cfg)" using assms(2)
    by (simp add: same_wires_def fun_eq_iff setGroup_wires) (simp add: setGroup_def wires_def gwires_def srunning_def)
  show "group_ok n a (scGroups (setGroup gi ?gg cfg) ! a)" if "a < length (scGroups cfg)" for a
    using ok that sinvD(3) [OF assms(1)] assms(2) by (auto simp: setGroup_def nth_list_update)
qed (simp_all add: setGroup_def)

lemma sk_step_sinv:
  assumes "sinv n cfg" "length (scGroups cfg) = 3" "sk_step ev cfg = Some (Inr cfg')"
  shows "sinv n cfg' \<and> length (scGroups cfg') = 3"
proof (cases ev)
  case (SKStart gi i names mnames rnd)
  with assms(3) have s: "sk_StartServer gi i names mnames rnd cfg = Inr cfg'" "length names = n" "length mnames = 3"
    using sinvD(1,2) [OF assms(1)] by (auto simp: sk_step_def split: if_splits)
  have "length (scGroups cfg') = length (scGroups cfg)"
    using s(1) by (auto simp: sk_StartServer_def newEnds_def register_def setGroup_def Let_def split: if_splits sum.splits)
  then show ?thesis using StartServer_sinv [OF assms(1) s] assms(2) by simp
next
  case (SKShutdown gi i)
  with assms(3) have s: "sk_ShutdownServer gi i cfg = Inr cfg'" by (simp add: sk_step_def)
  then have "length (scGroups cfg') = length (scGroups cfg)"
    by (auto simp: sk_ShutdownServer_def disableEnds_def setGroup_def Let_def split: if_splits option.splits)
  then show ?thesis using ShutdownServer_sinv [OF assms(1) s] assms(2) by simp
next
  case (SKClient names)
  with assms(3) obtain c where c: "newEnds (take (scN cfg) (zip names (map mastername [0..<scNmasters cfg]))) cfg = Inr c"
    "scNet cfg' = scNet c" "scN cfg' = scN c" "scNmasters cfg' = scNmasters c" "scGroups cfg' = scGroups c"
    by (auto simp: sk_step_def sk_makeClient_def split: if_splits sum.splits)
  have "sinv n cfg'" by (rule same_links_sinv [OF newEnds_inv [OF assms(1) c(1)]]) (simp_all add: c same_links_def)
  then show ?thesis using newEnds_groups [OF c(1)] c(5) assms(2) by simp
next
  case (SKEnd name sv)
  with assms(3) have "newEnds [(name, sv)] cfg = Inr cfg'" by (simp add: sk_step_def makeEnd_def)
  then show ?thesis using newEnds_inv [OF assms(1)] newEnds_groups [of "[(name, sv)]" cfg cfg'] assms(2) by simp
next
  case (SKGroup gi rv)
  with assms(3) have "gi < length (scGroups cfg)" "cfg' = setGroup gi ((scGroups cfg ! gi)\<lparr>ggSys := raftDo (scN cfg) rv (ggSys (scGroups cfg ! gi))\<rparr>) cfg"
    by (auto simp: sk_step_def split: if_splits event.splits)
  then show ?thesis using group_event_sinv [OF assms(1)] assms(2) by (simp add: setGroup_def)
next
  case (SKDeleteClient ck)
  with assms show ?thesis by (auto simp: sk_step_def sk_deleteClient_def same_links_def elim!: same_links_sinv)
next
  case (SKReliable b)
  with assms show ?thesis by (auto simp: sk_step_def Reliable_def same_links_def elim!: same_links_sinv)
qed

lemma sk_reachable_sinv: "sk_reachable n cfg \<Longrightarrow> sinv n cfg \<and> length (scGroups cfg) = 3 \<and> n \<le> 3"
proof (induction rule: sk_reachable.induct)
  case (sk_made unreliable names mnames rnds cfg)
  then show ?case by (rule make_config_sinv)
next
  case (sk_more cfg ev cfg')
  then show ?case using sk_step_sinv by blast
qed

section \<open>Theorems\<close>

text \<open>
  C40: The wiring of the groups. In every state of the harness a running server has one end to each
  server of its group and one to each shardmaster, and each of its ends leads where it should; the
  ends of a server are enabled exactly while it runs, no two servers share an end, and the network
  knows the name of a server exactly while it runs. So a server that was shut down can neither be
  reached nor reach anyone, whatever happens to the others.
\<close>

theorem shard_harness_wiring:
  assumes "sk_reachable n cfg"
  shows "((e, sv) \<in> set (wires cfg gi i) \<longrightarrow> connections (scNet cfg) e = Some sv \<and> (enabled (scNet cfg) e \<longleftrightarrow> srunning cfg gi i)) \<and>
    (srunning cfg gi i \<longrightarrow> map snd (wires cfg gi i) = map (servername (100 + gi)) [0..<n] @ map mastername [0..<3]) \<and>
    (e \<in> fst ` set (wires cfg gi i) \<inter> fst ` set (wires cfg gi' i') \<longrightarrow> gi = gi' \<and> i = i') \<and>
    (servers (scNet cfg) (servername (100 + gi) i) \<noteq> None \<longleftrightarrow> srunning cfg gi i)"
proof -
  have inv: "sinv n cfg" using sk_reachable_sinv [OF assms] by blast
  show ?thesis using sinvD(5) [OF inv, of e sv gi i] sinvD(7) [OF inv, of gi i] sinvD(6) [OF inv, of e gi i gi' i'] sinvD(4) [OF inv, of gi i] by simp
qed

text \<open>
  The sizes the harness works for: no configuration is built with more than three servers per group,
  and no clerk with fewer than three, whose slice \<open>endnames\<close> is made as long as a group but
  indexed by the shardmasters.
\<close>

theorem shard_harness_limits:
  assumes "\<And>gi i. length (names gi i) = (if gi = 3 then 3 else n)" "\<And>gi i. length (mnames gi i) = 3"
  shows "3 < n \<Longrightarrow> \<exists>e. sk_make_config n unreliable names mnames rnds = Inl e"
    and "sk_reachable n cfg \<Longrightarrow> n < 3 \<Longrightarrow> \<exists>e. sk_makeClient cnames cfg = Inl e"
proof -
  show "3 < n \<Longrightarrow> \<exists>e. sk_make_config n unreliable names mnames rnds = Inl e"
    using make_config_sinv [OF _ assms] by (cases "sk_make_config n unreliable names mnames rnds") auto
  show "sk_reachable n cfg \<Longrightarrow> n < 3 \<Longrightarrow> \<exists>e. sk_makeClient cnames cfg = Inl e"
    using sk_reachable_sinv [of n cfg] sinvD(1,2) [of n cfg] by (auto simp: sk_makeClient_def newEnds_def split: sum.splits)
qed

text \<open>A configuration with one server per group, the server of the second group shut down.\<close>

definition demo_end :: "nat \<Rightarrow> nat \<Rightarrow> nat \<Rightarrow> string" where
  "demo_end gi i j = [''abcd'' ! gi, ''abcd'' ! i, ''abcd'' ! j]"

definition demo_names :: "nat \<Rightarrow> nat \<Rightarrow> string list" where
  "demo_names gi i = map (demo_end gi i) [0..<if gi = 3 then 3 else 1]"

definition demo_mnames :: "nat \<Rightarrow> nat \<Rightarrow> string list" where
  "demo_mnames gi i = map (\<lambda>j. CHR ''m'' # demo_end gi i j) [0..<3]"

definition demo_run :: "sconfig option" where
  "demo_run = (case sk_make_config 1 False demo_names demo_mnames (\<lambda>_ _. []) of Inl _ \<Rightarrow> None
     | Inr cfg \<Rightarrow> (case sk_step (SKShutdown 1 0) cfg of Some (Inr cfg) \<Rightarrow> Some cfg | _ \<Rightarrow> None))"

lemma demo_run_facts: "case demo_run of None \<Rightarrow> False | Some cfg \<Rightarrow>
    (''aaa'', servername 100 0) \<in> set (wires cfg 0 0) \<and> (''baa'', servername 101 0) \<in> set (wires cfg 1 0) \<and> srunning cfg 0 0 \<and> \<not> srunning cfg 1 0"
  by code_simp

theorem shard_harness_wiring_witness:
  "\<exists>cfg :: sconfig. enabled (scNet cfg) ''aaa'' \<and> connections (scNet cfg) ''aaa'' = Some (servername 100 0) \<and> \<not> enabled (scNet cfg) ''baa'' \<and>
    servers (scNet cfg) (servername 101 0) = None"
proof -
  obtain cfg where cfg: "demo_run = Some cfg" "(''aaa'', servername 100 0) \<in> set (wires cfg 0 0)" "(''baa'', servername 101 0) \<in> set (wires cfg 1 0)"
    "srunning cfg 0 0" "\<not> srunning cfg 1 0" using demo_run_facts by (auto split: option.splits)
  have "sk_reachable 1 cfg" using cfg(1)
    by (auto simp: demo_run_def demo_names_def demo_mnames_def split: sum.splits option.splits intro: sk_made [THEN sk_more])
  note w = shard_harness_wiring [OF this]
  have "enabled (scNet cfg) ''aaa'' \<and> connections (scNet cfg) ''aaa'' = Some (servername 100 0) \<and> \<not> enabled (scNet cfg) ''baa'' \<and>
    servers (scNet cfg) (servername 101 0) = None"
    using w [of "''aaa''" "servername 100 0" 0 0] w [of "''baa''" "servername 101 0" 1 0] cfg(2-5) by simp
  then show ?thesis by blast
qed

end
