(* ===== verification/Spec2Isabelle.thy ===== *)
theory Spec2Isabelle
  imports Raft_Properties Raft_Ticker Kv_Properties Labrpc Kv_Progress Shard_Clerks Mr_Properties Etcd_Example Socket_Servers Diskv Raft_Config Kv_Config Shard_Config
begin

text \<open>
  Verification of the distributed systems of this repository: the laboratory programs under
  \<open>src/mit/src\<close> (paths below are relative to it) and the etcd example under \<open>src/etcd-raft\<close>.

  \<^bold>\<open>The programs.\<close>

  \<^item> A Raft library (\<open>raft/raft.go\<close>, \<open>raft/persister.go\<close>). Each peer runs an event loop that takes
    ticks, messages and proposals; goroutines send its requests over the network and feed the
    replies back; an applier hands committed entries to the service above.
  \<^item> A key/value service on it (\<open>kvraft\<close>): handlers append the request to Raft's log and wait for
    the applying goroutine; clerks number their requests and retry until a leader answers.
  \<^item> A simulated network (\<open>labrpc\<close>) and the harnesses that run the services on it and inject
    faults (the \<open>config.go\<close> files of \<open>raft\<close>, \<open>kvraft\<close>, \<open>shardmaster\<close> and \<open>shardkv\<close>).
  \<^item> Sharded services and their clerks (\<open>shardmaster\<close>, \<open>shardkv\<close>, \<open>paxos-shardmaster\<close>,
    \<open>paxos-shardkv\<close>, \<open>diskv\<close>), and services on sockets (\<open>paxos\<close>, \<open>kvpaxos\<close>, \<open>viewservice\<close>,
    \<open>pbservice\<close>, \<open>lockservice\<close>), many of whose handlers are empty in the source and are so here.
  \<^item> A MapReduce library (\<open>mapreduce\<close>) with a sequential and a distributed master, and two
    programs on it (\<open>main/wc.go\<close>, \<open>main/ii.go\<close>).
  \<^item> A key/value store on etcd's Raft library (\<open>etcd-raft\<close>).

  \<^bold>\<open>How code is represented.\<close> A struct is a record whose fields carry a short prefix where names
  collide; an operation is a function from the receiver to the new receiver and its results; a Go
  panic or \<open>log.Fatal\<close> is \<open>Inl\<close> of a sum type (\<open>Prelude\<close>); a map is a partial function, or an
  association list where its order matters. Random numbers, names drawn at random, clocks, the order
  in which a Go map is traversed, and the results of the network, the operating system and vendored
  libraries are parameters. A loop that may run for ever is a \<open>partial_function (option)\<close>, whose value
  \<open>None\<close> is not returning; that it returns is then a theorem of its own. No definition uses fuel.

  \<^bold>\<open>Raft.\<close>

  \<^item> \<open>Raft_Data\<close>, \<open>Persister\<close>, \<open>Raft\<close>: the data of \<open>raft.go\<close> and every function of the peer, from
    \<open>becomeFollower\<close> and \<open>campaign\<close> to \<open>stepLeader\<close>, \<open>updateCommitIndex\<close>, \<open>Start\<close>, \<open>Make\<close> and the
    applier \<open>stateMachine\<close>. What a peer hands to its
    sending goroutines is queued in \<open>propc\<close>, what it hands to the applier in \<open>commitc\<close>. \<open>Raft_Ticker\<close> is the timer, with its bounded queue of ticks.
  \<^item> \<open>Raft_System\<close>: \<open>n\<close> peers and a network as a transition function on events (tick, delivery of
    any message ever sent, \<open>Start\<close>, a round of the applier, a crash, a restart from the persister). A
    panic takes the peer down. \<open>reachable\<close> is what such events lead to; \<open>Raft_Runs\<close> has concrete runs.
  \<^item> \<open>Raft_Spec\<close>: the abstract protocol, an inductive step relation without messages or timers, with
    the history of votes, leaders and acknowledgements; its safety is proved by rule induction.
  \<^item> \<open>Raft_Local\<close>, \<open>Raft_Frame\<close>: what each handler computes and leaves alone, and the round trip of
    the persisted state. \<open>Raft_Refinement\<close>, \<open>Raft_Handlers\<close>, \<open>Raft_Replication\<close>, \<open>Raft_Safety\<close>,
    \<open>Raft_Cluster\<close>, \<open>Raft_Correct\<close>: every event of the cluster is a run of the protocol.
  \<^item> \<open>Raft_Service\<close>: what a service may rely on, the locale \<open>replicated_log\<close>, interpreted on the
    cluster. \<open>Raft_Validity\<close>: every command comes from a call of \<open>Start\<close>. \<open>Raft_Progress\<close>: from
    every reachable state a continuation elects a leader and commits and applies a given command.
  \<^item> \<open>Raft_Properties\<close>: the theorems. Election safety, leader append-only, log matching, leader
    completeness and state machine safety, as \<open>raft/doc.go\<close> lists them; refinement; durability over
    restarts; the peer's invariant; the behaviour of \<open>mergeEntries\<close>, \<open>updateCommitIndex\<close> and
    \<open>stateMachine\<close>; progress; and which panics can happen: the index expression of the leader's
    rollback scan, in a run that is given, and no other in the work of the event loop.

  \<^bold>\<open>Key/value service.\<close>

  \<^item> \<open>Kvraft\<close>: \<open>kvraft/server.go\<close> and \<open>common.go\<close>. \<open>AppendLog\<close> is split where the handler waits: before
    (\<open>AppendLog\<close>) and after (\<open>awaitLog\<close>, \<open>finishGet\<close>, \<open>finishPutAppend\<close>). \<open>Clerk_Loops\<close>, \<open>Kv_Clerk\<close>: the
    clerk's loops and operations, and when they return.
  \<^item> \<open>Kv_System\<close>: servers over their Raft peers, with the handlers that wait, crashes and restarts.
    \<open>Kv_Properties\<close>: replicas agree, a positive answer means the operation was applied at its index,
    the applying goroutine neither panics nor blocks, and a run in which the \<open>Get\<close> handler's own
    write to \<open>ack\<close> makes replicas diverge. The field \<open>raced\<close> records that such a write has changed
    \<open>ack\<close>; the positive theorems on databases assume that it has not.
  \<^item> \<open>Kv_Clients\<close>: clerks that make one call at a time, network and servers together. As long as
    \<open>raced\<close> is false, every operation takes effect once however often its request was delivered or
    committed, and a \<open>Get\<close> sees every call that had returned before it was issued; a run shows an
    append applied twice after such a write. \<open>Kv_Progress\<close>: a call in flight can always be brought to an end.

  \<^bold>\<open>Network and harnesses.\<close>

  \<^item> \<open>Labrpc\<close>: the services, servers and ends of \<open>labrpc.go\<close>, and per request two interleaved state
    machines, \<open>ProcessReq\<close> and the goroutine that runs the handler, which goes on when \<open>ProcessReq\<close> has
    given up; a reply may be delayed after the last check of the server. Handlers run at most once
    per call, a positive reply is one for which the server was there when the request was taken up and again
    when it was checked after the handler had run, a reliable call is answered.
  \<^item> \<open>Harness_Net\<close>, \<open>Raft_Config\<close>, \<open>Kv_Config\<close>, \<open>Shard_Config\<close>: the harnesses, operation by operation, with
    the ends they make, enable and disable, and the reads they check. In every run the Raft harness's
    checks of the applied commands hold, and enabled ends are those of the current instances of connected peers. \<open>GetState\<close> reads two fields
    without a lock; the check for one leader finds no two of a term as long as no peer changes its term
    between the two reads, and a run shows that it can otherwise. A partition puts the server that
    \<open>Leader\<close> reports in the minority, which need not be the current leader. Sharded servers are wired to their group. \<open>shardmaster/config.go\<close> is the text of
    \<open>kvraft/config.go\<close> around another server: its definitions are those, at another type, through the
    locale \<open>harnessed\<close>.

  \<^bold>\<open>Sharded, disk and socket services.\<close>

  \<^item> \<open>Shard_Clerks\<close>: configurations, shardmaster and sharded servers (empty handlers included), and
    all clerks. A sharded \<open>Get\<close> asks the group its configuration names, returns once a server of the
    group answers while the servers before it in the group's list do not send it away, and never returns against the repository's own shardmaster.
  \<^item> \<open>Diskv\<close>: the file operations of \<open>diskv/server.go\<close> on a file system whose writes and renames may
    fail or be cut short by a crash: puts are atomic, a replaced shard reads back, through the locale \<open>keyed_store\<close>. The base32
    file names are computed, and decoding inverts encoding.
  \<^item> \<open>Rpc_Servers\<close>, \<open>Socket_Servers\<close>: the accept loop that the socket servers share, the lock service
    (a lock is granted once and never again, since \<open>Unlock\<close> is empty), and the server objects with
    start, kill and switches, through the locale \<open>socket_server\<close>.

  \<^bold>\<open>MapReduce.\<close> \<open>Strconv\<close>, \<open>Json_Utf8\<close>, \<open>Mapreduce\<close>: tasks, files, merging and masters; JSON replaces bytes
  that are not UTF-8, and the theorems are for maps that emit UTF-8 keys. \<open>Mapreduce_Correct\<close>: the output
  against its specification. \<open>Mr_Schedule\<close>: one goroutine per task and workers that fail, as an
  interleaving. \<open>Mr_Apps\<close>, \<open>Mr_Properties\<close>: sequential and distributed jobs write the specified output,
  word count counts, the inverted index lists; and the runs in which the scheduler returns early,
  indexes out of range, or reads files of an earlier job.

  \<^bold>\<open>etcd example.\<close> \<open>Etcd_Example\<close>: \<open>raft.go\<close>, \<open>kvstore.go\<close> and \<open>httpapi.go\<close> with 64-bit indices that wrap
  around. Without snapshots of other nodes, however the batches overlap, what is published is a prefix
  of the non-empty entries, once each and in order, and all of them while the node runs. The store
  follows the log when no snapshot was saved before the end of the replay; loading a snapshot ends
  in the nil dereference of \<open>readCommits\<close>.

  \<^bold>\<open>Interfaces.\<close> \<open>quorum_system\<close> and \<open>keyed_store\<close> (\<open>Prelude\<close>), \<open>two_cell_store\<close> (\<open>Persister\<close>),
  \<open>replicated_log\<close>, \<open>harnessed\<close> and \<open>socket_server\<close> are locales, each interpreted on the definitions of
  the component that provides it: majorities, the disk and the etcd store, the persister, the Raft
  cluster, the two harnessed services, the four kinds of socket server.

  \<^bold>\<open>What is idealised.\<close>

  \<^item> Go's \<open>int\<close> is unbounded in the Raft and key/value parts: terms, indices and request numbers are
    taken not to reach \<open>2 ^ 63\<close>. The hash of MapReduce and the indices of the etcd example are words.
  \<^item> The Raft theorems are for clusters of at least two peers; a cluster of one never commits. The
    channels \<open>propc\<close> and \<open>commitc\<close> are queues, which have every behaviour of the unbuffered ones. The
    entries of a request are those at the time of sending; the slice that \<open>raft.go\<close> shares with the
    encoder is a data race and is not followed. Crashes fall between events; a round of the applier
    is one event. \<open>GetState\<close>, which reads two fields from outside the event loop, takes the peer at
    two moments, each between two events. The network keeps every message: loss is never delivering it, duplication is
    delivering it again. The progress theorems say that a continuation exists; they make no assumption on
    timing or fairness and so do not say that every run takes one.
  \<^item> In the key/value system \<open>Start\<close> and the registration of the result channel are one event. Clerk
    identities, 62 random bits in the code, are taken to differ, and a clerk makes one call at a time,
    which its mutex does not enforce.
  \<^item> gob round trips are the identity. JSON round trips are the identity on UTF-8 and replace other
    bytes in MapReduce, and are a parameter in the etcd example. A task of MapReduce that fails leaves
    a prefix of its output and has ended when its call has failed. The texts of the two programs are ASCII.
  \<^item> etcd's Raft library, write-ahead log, snapshotter and transport are parameters; calls to them are
    recorded, and opening and reading the log is one result.
  \<^item> Making a directory is taken to succeed in \<open>Diskv\<close>. Results of \<open>net.Listen\<close> and \<open>Accept\<close> are
    parameters. \<open>paxos-shardkv\<close> and \<open>diskv\<close> import a shardmaster that in this tree has another
    interface; the clerk they hold is taken to be that of \<open>paxos-shardmaster\<close>.
  \<^item> The harnesses' messages travel over the network of \<open>Raft_System\<close>, which delivers more than the
    simulated one; the lists given to \<open>disconnect\<close> are no longer than the number of servers.

  \<^bold>\<open>Not modelled.\<close>

  \<^item> \<open>mapreduce/master_rpc.go\<close>: the master's socket. The handlers behind it are modelled with the master.
  \<^item> \<open>etcd-raft/listener.go\<close>, \<open>main.go\<close> and \<open>serveRaft\<close>: TCP options, flags, and handing a connection to
    the library.
  \<^item> \<open>main/diskvd.go\<close>, \<open>lockc.go\<close>, \<open>lockd.go\<close>, \<open>pbc.go\<close>, \<open>pbd.go\<close>, \<open>viewd.go\<close> and the \<open>main\<close> functions of
    \<open>wc.go\<close> and \<open>ii.go\<close>: argument parsing around calls that are modelled.
  \<^item> Debug output (\<open>DPrintf\<close>, \<open>Detail\<close>, \<open>printDetail\<close>, loggers) and struct fields that only it reads.
  \<^item> \<open>checklogs\<close> of \<open>shardkv/config.go\<close>: it compares sizes in bytes of encoded state, which no part of the
    model has; it changes no state.
  \<^item> Real time: durations of sleeps and timeouts, which are the freedom of the schedules.
\<close>

end
